(* ===== verification/Luna_Prelude.thy ===== *)
theory Luna_Prelude
  imports Main "HOL-Library.Word"
begin

text \<open>
  Shared vocabulary of the development: the integer types of
  \<^verbatim>\<open>include/types.h\<close>, the flat byte-addressed memory of a 32-bit machine with its
  little-endian loads and stores, the ways in which kernel code can fail to return, and the
  generic facts on words, byte lists and bounded searches that the component theories share.
\<close>

unbundle bit_operations_syntax

section \<open>Integer types and faults\<close>

text \<open>The integer types of \<^verbatim>\<open>include/types.h\<close> for \<^verbatim>\<open>ARCH_X86\<close>: pointers and
  \<^verbatim>\<open>size_t\<close> are 32 bits wide.\<close>

type_synonym u8 = "8 word"
type_synonym u16 = "16 word"
type_synonym u32 = "32 word"
type_synonym u64 = "64 word"

text \<open>The C type \<^verbatim>\<open>bool\<close> of \<^verbatim>\<open>include/types.h\<close> is an \<^verbatim>\<open>uint8_t\<close> used as a
  truth value; it is modelled by \<^typ>\<open>bool\<close>.

  What keeps a call from returning: \<^verbatim>\<open>kernel_panic\<close> with its message, an access through a
  null pointer, an access outside an array, a division by zero, signed overflow (undefined in C),
  a missing variadic argument, and a loop that never stops.\<close>

datatype fault =
    KernelPanic string
  | NullDeref
  | OutOfBounds
  | DivideByZero
  | SignedOverflow
  | MissingArgument
  | NoReturn

type_synonym 'a result = "fault + 'a"

definition rbind :: "'a result \<Rightarrow> ('a \<Rightarrow> 'b result) \<Rightarrow> 'b result" where
  "rbind r f = (case r of Inl e \<Rightarrow> Inl e | Inr x \<Rightarrow> f x)"

definition kernel_panic :: "string \<Rightarrow> 'a result" where
  "kernel_panic msg = Inl (KernelPanic msg)"

section \<open>Byte memory\<close>

text \<open>Memory maps every 32-bit address to a byte; addresses wrap around as pointer arithmetic
  on the machine does.\<close>

type_synonym mem = "u32 \<Rightarrow> u8"

primrec store_bytes :: "mem \<Rightarrow> u32 \<Rightarrow> u8 list \<Rightarrow> mem" where
  "store_bytes m p [] = m"
| "store_bytes m p (b # bs) = store_bytes (m(p := b)) (p + 1) bs"

primrec load_bytes :: "mem \<Rightarrow> u32 \<Rightarrow> nat \<Rightarrow> u8 list" where
  "load_bytes m p 0 = []"
| "load_bytes m p (Suc n) = m p # load_bytes m (p + 1) n"

text \<open>Little-endian value of a byte list, and the bytes of a value.\<close>

primrec of_le :: "u8 list \<Rightarrow> 'a::len word" where
  "of_le [] = 0"
| "of_le (b # bs) = ucast b OR push_bit 8 (of_le bs)"

primrec to_le :: "nat \<Rightarrow> 'a::len word \<Rightarrow> u8 list" where
  "to_le 0 w = []"
| "to_le (Suc n) w = ucast w # to_le n (drop_bit 8 w)"

definition load_u32 :: "mem \<Rightarrow> u32 \<Rightarrow> u32" where
  "load_u32 m p = of_le (load_bytes m p 4)"

definition store_u32 :: "mem \<Rightarrow> u32 \<Rightarrow> u32 \<Rightarrow> mem" where
  "store_u32 m p v = store_bytes m p (to_le 4 v)"

definition load_u64 :: "mem \<Rightarrow> u32 \<Rightarrow> u64" where
  "load_u64 m p = of_le (load_bytes m p 8)"

definition store_u64 :: "mem \<Rightarrow> u32 \<Rightarrow> u64 \<Rightarrow> mem" where
  "store_u64 m p v = store_bytes m p (to_le 8 v)"

text \<open>The bytes \<open>xs\<close> followed by a terminating zero at address \<open>p\<close>: a C string.\<close>

primrec cstr :: "mem \<Rightarrow> u32 \<Rightarrow> u8 list \<Rightarrow> bool" where
  "cstr m p [] \<longleftrightarrow> m p = 0"
| "cstr m p (x # xs) \<longleftrightarrow> x \<noteq> 0 \<and> m p = x \<and> cstr m (p + 1) xs"

text \<open>Bytes of a HOL string literal.\<close>

definition bytes_of :: "string \<Rightarrow> u8 list" where
  "bytes_of s = map (\<lambda>c. of_nat (of_char c)) s"

text \<open>\<^verbatim>\<open>luna_strncpy\<close> of a string into the first \<open>n\<close> bytes of a buffer, and the string in a buffer.\<close>

definition strncpy_into :: "u8 list \<Rightarrow> u8 list \<Rightarrow> nat \<Rightarrow> u8 list" where
  "strncpy_into buf cs n = take n cs @ replicate (n - length cs) 0 @ drop n buf"

definition chars :: "u8 list \<Rightarrow> u8 list" where
  "chars buf = takeWhile (\<lambda>c. c \<noteq> 0) buf"

text \<open>The first slot of a table that satisfies a test: the loop that many lookups share.\<close>

fun first_slot :: "('a \<Rightarrow> bool) \<Rightarrow> 'a list \<Rightarrow> nat option" where
  "first_slot P [] = None"
| "first_slot P (p # ps) = (if P p then Some 0 else map_option Suc (first_slot P ps))"

named_theorems range_simps \<open>address ranges modulo 2\<^sup>32\<close>
named_theorems mem_simps \<open>reads after writes\<close>

section \<open>Results\<close>

lemma rbind_simps [simp]:
  "rbind (Inr x) f = f x"
  "rbind (Inl e) f = Inl e"
  by (simp_all add: rbind_def)

lemma rbind_Inr_iff: "rbind r f = Inr y \<longleftrightarrow> (\<exists>x. r = Inr x \<and> f x = Inr y)"
  by (cases r) auto

lemma rbind_Inl_iff: "rbind r f = Inl e \<longleftrightarrow> r = Inl e \<or> (\<exists>x. r = Inr x \<and> f x = Inl e)"
  by (cases r) auto

lemma kernel_panic_not_Inr [simp]: "kernel_panic msg \<noteq> Inr x"
  by (simp add: kernel_panic_def)

section \<open>Table lookups\<close>

lemma first_slot_None: "first_slot P ps = None \<longleftrightarrow> (\<forall>p \<in> set ps. \<not> P p)"
  by (induction ps) auto

lemma first_slot_Some: "first_slot P ps = Some i \<Longrightarrow> i < length ps \<and> P (ps ! i) \<and> (\<forall>j < i. \<not> P (ps ! j))"
  by (induction ps arbitrary: i) (auto simp: less_Suc_eq_0_disj split: if_splits)

lemma first_slot_unique:
  assumes "i < length ps" "P (ps ! i)" "\<And>j. j < length ps \<Longrightarrow> P (ps ! j) \<Longrightarrow> j = i"
  shows "first_slot P ps = Some i"
proof (cases "first_slot P ps")
  case None
  with assms(1,2) show ?thesis by (auto simp: first_slot_None)
next
  case (Some j)
  with first_slot_Some[OF Some] assms(3) show ?thesis by simp
qed

section \<open>Words as natural numbers\<close>

lemma unat_bound: "unat (x :: 'a::len word) < 2 ^ LENGTH('a)"
  by (rule unsigned_less)

lemma u32_bound: "unat (x :: u32) < 4294967296"
  using unat_bound[of x] by simp

lemma unat_of_nat_eq_32: "n < 2 ^ 32 \<Longrightarrow> unat (of_nat n :: u32) = n"
  by (simp add: unat_of_nat)

lemma unat_power_lower: "k < LENGTH('a) \<Longrightarrow> unat (2 ^ k :: 'a::len word) = 2 ^ k"
proof -
  assume k: "k < LENGTH('a)"
  have "unat (2 ^ k :: 'a word) = unat (word_of_nat (2 ^ k) :: 'a word)" by simp
  also have "\<dots> = 2 ^ k mod 2 ^ LENGTH('a)" by (rule unat_of_nat)
  finally show ?thesis using k by simp
qed

lemma unat_push_bit: "unat (push_bit s x) = unat (x :: 'a::len word) * 2 ^ s mod 2 ^ LENGTH('a)"
proof -
  have "push_bit s x = word_of_nat (unat x * 2 ^ s)" by (simp add: push_bit_eq_mult)
  then show ?thesis by (simp only: unat_of_nat)
qed

text \<open>Rounding up to a multiple of \<open>b\<close>, the idiom \<^verbatim>\<open>(a + b - 1) / b * b\<close>.\<close>

lemma round_up_bounds:
  fixes a b :: nat
  assumes "0 < b"
  shows "a \<le> (a + b - 1) div b * b" and "(a + b - 1) div b * b < a + b"
proof -
  have "(a + b - 1) div b * b + (a + b - 1) mod b = a + b - 1" by (rule div_mult_mod_eq)
  moreover have "(a + b - 1) mod b < b" using assms by simp
  ultimately show "a \<le> (a + b - 1) div b * b" and "(a + b - 1) div b * b < a + b"
    using assms by linarith+
qed

section \<open>Ranges of addresses\<close>

text \<open>The addresses \<open>p, \<dots>, p + n - 1\<close> are those \<open>q\<close> with \<open>q - p < n\<close>, wherever the
  range lies, even across the end of the address space.\<close>

lemma range_split:
  fixes p q n k :: "'a::len word"
  assumes "k \<le> n"
  shows "q - p < n \<longleftrightarrow> q - p < k \<or> q - (p + k) < n - k"
proof -
  have "d < n \<longleftrightarrow> d < k \<or> d - k < n - k" for d :: "'a word"
    using assms by (cases "d < k") (auto simp: word_less_nat_alt word_le_nat_alt unat_sub_if')
  from this[of "q - p"] show ?thesis
    by (simp add: algebra_simps)
qed

lemma range_split_disjoint:
  fixes p q n k :: "'a::len word"
  assumes "k \<le> n" "q - p < k"
  shows "\<not> q - (p + k) < n - k"
proof -
  have "\<not> d - k < n - k" if "d < k" for d :: "'a word"
    using that assms(1)
    by (simp add: word_less_nat_alt word_le_nat_alt unat_sub_if') (use unat_bound[of n] in linarith)
  from this[of "q - p"] assms(2) show ?thesis by (simp add: algebra_simps)
qed

lemma wrapped_distance:
  fixes e D k :: "'a::len word"
  assumes "k \<le> e" "e < D"
  shows "k \<le> e - D"
  using assms
  by (simp add: word_less_nat_alt word_le_nat_alt unat_sub_if') (use unat_bound[of D] in linarith)

lemma range_first [range_simps]:
  fixes p q n :: "'a::len word"
  assumes "n \<noteq> 0"
  shows "q - p < n \<longleftrightarrow> q = p \<or> q - (p + 1) < n - 1"
proof -
  have "1 \<le> n" using assms by (simp add: linorder_not_less [symmetric])
  moreover have "q - p < 1 \<longleftrightarrow> q = p" by simp
  ultimately show ?thesis using range_split[of 1 n q p] by simp
qed

lemma word_neq_0_le: "n \<noteq> 0 \<Longrightarrow> 1 \<le> (n :: 'a::len word)"
  by (simp add: linorder_not_less [symmetric])

lemma range_last:
  fixes p q n :: "'a::len word"
  assumes "n \<noteq> 0"
  shows "q - p < n \<longleftrightarrow> q - p < n - 1 \<or> q = p + (n - 1)"
proof -
  have "d < n \<longleftrightarrow> d < n - 1 \<or> d = n - 1" for d :: "'a word"
  proof -
    have "0 < unat n" using assms by (simp add: unat_gt_0)
    moreover have "unat (n - 1) = unat n - 1" using assms by (simp add: unat_minus_one)
    ultimately show ?thesis
      unfolding word_less_nat_alt word_unat_eq_iff by linarith
  qed
  from this[of "q - p"] show ?thesis by (auto simp: algebra_simps)
qed

lemma unat_minus_numeral:
  fixes n k :: "'a::len word"
  assumes "k \<le> n"
  shows "unat (n - k) = unat n - unat k"
  using assms by (simp add: unat_sub word_le_nat_alt)

text \<open>The measure of a loop that counts up to a bound.\<close>

lemma unat_inc: "unat i < unat n \<Longrightarrow> unat (i + 1) = unat (i :: 'a::len word) + 1"
  for n :: "'a::len word"
proof -
  assume "unat i < unat n"
  then have "unat i + 1 < 2 ^ LENGTH('a)"
    using unat_bound[of n] by linarith
  then show ?thesis by (subst unat_add_lem[THEN iffD1]) simp_all
qed

lemma count_up_decreases:
  fixes i n :: "'a::len word"
  assumes "i < n"
  shows "unat n - unat (i + 1) < unat n - unat i"
  using assms unat_inc[of i n] by (simp add: word_less_nat_alt)

section \<open>Reads after writes\<close>

lemma load_bytes_length [simp]: "length (load_bytes m p n) = n"
  by (induction n arbitrary: p) auto

lemma to_le_length [simp]: "length (to_le n w) = n"
  by (induction n arbitrary: w) auto

lemma load_bytes_nth:
  "i < n \<Longrightarrow> load_bytes m p n ! i = m (p + of_nat i)"
  by (induction n arbitrary: p i) (auto simp: nth_Cons algebra_simps split: nat.split)

lemma store_bytes_lookup:
  assumes "length bs \<le> 2 ^ 32"
  shows "store_bytes m p bs q =
    (if unat (q - p) < length bs then bs ! unat (q - p) else m q)"
  using assms
proof (induction bs arbitrary: m p)
  case Nil
  then show ?case by simp
next
  case (Cons b bs)
  show ?case
  proof (cases "q = p")
    case True
    then have "unat (q - (p + 1)) = 2 ^ 32 - 1"
      by (simp add: unsigned_minus_1_eq_mask mask_eq_exp_minus_1)
    with True Cons show ?thesis by simp
  next
    case False
    then have "q - p \<noteq> 0" by simp
    then have "unat (q - p) = Suc (unat (q - (p + 1)))"
      using unatSuc[of "q - (p + 1)"] by (simp add: algebra_simps)
    with False Cons show ?thesis by simp
  qed
qed

lemma bit_of_le_to_le:
  "bit (of_le (to_le n w) :: 'a::len word) i \<longleftrightarrow> i < 8 * n \<and> bit (w :: 'a word) i"
proof (induction n arbitrary: w i)
  case 0
  then show ?case by simp
next
  case (Suc n)
  show ?case
    by (cases "i < 8") (auto simp: bit_simps Suc not_less dest: bit_imp_le_length)
qed

lemma of_le_to_le:
  "LENGTH('a) \<le> 8 * n \<Longrightarrow> of_le (to_le n w) = (w :: 'a::len word)"
  by (rule bit_word_eqI) (simp add: bit_of_le_to_le)

lemma bit_of_le_imp: "bit (of_le bs :: 'a::len word) i \<Longrightarrow> i < 8 * length bs"
proof (induction bs arbitrary: i)
  case Nil
  then show ?case by simp
next
  case (Cons b bs)
  then show ?case
    by (cases "i < 8") (fastforce simp: bit_simps dest: bit_imp_le_length)+
qed

lemma to_le_of_le:
  "8 * length bs \<le> LENGTH('a) \<Longrightarrow> to_le (length bs) (of_le bs :: 'a::len word) = bs"
proof (induction bs)
  case Nil
  then show ?case by simp
next
  case (Cons b bs)
  let ?w = "of_le bs :: 'a word"
  have len: "8 \<le> LENGTH('a)" using Cons.prems by simp
  have "ucast (ucast b OR push_bit 8 ?w) = b"
    using len by (intro bit_word_eqI) (auto simp: bit_simps)
  moreover have "drop_bit 8 (ucast b OR push_bit 8 ?w) = ?w"
  proof (rule bit_word_eqI)
    fix i assume "i < LENGTH('a)"
    have "bit ?w i \<Longrightarrow> i + 8 < LENGTH('a)"
      using bit_of_le_imp[where bs = bs and i = i and 'a = 'a] Cons.prems by simp
    then show "bit (drop_bit 8 (ucast b OR push_bit 8 ?w)) i = bit ?w i"
      using len by (auto simp: bit_simps dest: bit_imp_le_length)
  qed
  ultimately show ?case using Cons by simp
qed

section \<open>Masks\<close>

lemma unat_and_mask [simp]: "unat (x AND mask k) = unat (x :: 'a::len word) mod 2 ^ k"
proof -
  have "unat (x AND mask k) = take_bit k (unat x)"
    by (simp add: unsigned_take_bit_eq flip: take_bit_eq_mask)
  then show ?thesis by (simp add: take_bit_eq_mod)
qed

lemma and_mask_plus_and_not_mask:
  "(x AND mask k) + (x AND NOT (mask k)) = (x :: 'a::len word)"
  by (simp add: disjunctive_add bit_simps) (rule bit_word_eqI, auto simp: bit_simps)

lemma unat_and_not_mask:
  "unat (x AND NOT (mask k)) = unat (x :: 'a::len word) div 2 ^ k * 2 ^ k"
proof -
  have "x AND NOT (mask k) = x - (x AND mask k)"
    using and_mask_plus_and_not_mask[of x k] by (simp add: algebra_simps)
  moreover have "x AND mask k \<le> x" by (simp add: word_le_nat_alt)
  ultimately have "unat (x AND NOT (mask k)) = unat x - unat x mod 2 ^ k"
    by (simp add: unat_minus_numeral)
  then show ?thesis by (simp add: minus_mod_eq_div_mult)
qed

lemma and_not_mask_eq_0_iff: "x AND NOT (mask k) = 0 \<longleftrightarrow> unat (x :: 'a::len word) < 2 ^ k"
proof -
  have "x AND NOT (mask k) = 0 \<longleftrightarrow> unat (x AND NOT (mask k)) = 0" by (simp add: unat_eq_0)
  then show ?thesis by (simp add: unat_and_not_mask div_eq_0_iff)
qed

lemma and_not_mask_le: "x AND NOT (mask k) \<le> (x :: 'a::len word)"
  by (simp add: word_le_nat_alt unat_and_not_mask)

end
