(* ===== verification/Mem_Ops.thy ===== *)
theory Mem_Ops
  imports Luna_Prelude
begin

text \<open>
  The memory primitives of \<^verbatim>\<open>kernel/string.c\<close> over the flat byte memory: the three-phase
  (align, word, tail) fill and copy loops, the overlapping move, comparison and search.
  The loops are shown to refine the two one-line effects \<open>fill\<close> and \<open>cpy\<close>.
  A C function that returns its destination pointer unchanged is modelled by the new memory alone;
  a null result pointer is \<^term>\<open>None\<close>.
\<close>

section \<open>Definitions\<close>

function memset_head :: "mem \<Rightarrow> u32 \<Rightarrow> u8 \<Rightarrow> u32 \<Rightarrow> mem \<times> u32 \<times> u32" where
  "memset_head m p v n =
     (if n \<noteq> 0 \<and> p AND 7 \<noteq> 0 then memset_head (m(p := v)) (p + 1) v (n - 1) else (m, p, n))"
  by pat_completeness auto
termination
  by (relation "measure (\<lambda>(m, p, v, n). unat n)") (auto simp: measure_unat)

function memset_wide :: "mem \<Rightarrow> u32 \<Rightarrow> u64 \<Rightarrow> u32 \<Rightarrow> mem \<times> u32 \<times> u32" where
  "memset_wide m p wide n =
     (if n \<ge> 8 then memset_wide (store_u64 m p wide) (p + 8) wide (n - 8) else (m, p, n))"
  by pat_completeness auto
termination
  by (relation "measure (\<lambda>(m, p, wide, n). unat n)") (auto simp: unat_minus_numeral word_le_nat_alt)

function memset_tail :: "mem \<Rightarrow> u32 \<Rightarrow> u8 \<Rightarrow> u32 \<Rightarrow> mem" where
  "memset_tail m p v n = (if n \<noteq> 0 then memset_tail (m(p := v)) (p + 1) v (n - 1) else m)"
  by pat_completeness auto
termination
  by (relation "measure (\<lambda>(m, p, v, n). unat n)") (auto simp: measure_unat)

text \<open>\<^verbatim>\<open>val\<close> is the bit pattern of the C \<^verbatim>\<open>int\<close> argument.\<close>

definition luna_memset :: "mem \<Rightarrow> u32 \<Rightarrow> u32 \<Rightarrow> u32 \<Rightarrow> mem" where
  "luna_memset m dst val n =
     (let v = ucast val :: u8;
          (m1, p1, n1) = memset_head m dst v n;
          wide = (ucast v :: u64) * 0x0101010101010101;
          (m2, p2, n2) = memset_wide m1 p1 wide n1
      in memset_tail m2 p2 v n2)"

function memcpy_head :: "mem \<Rightarrow> u32 \<Rightarrow> u32 \<Rightarrow> u32 \<Rightarrow> mem \<times> u32 \<times> u32 \<times> u32" where
  "memcpy_head m d s n =
     (if n \<noteq> 0 \<and> d AND 7 \<noteq> 0 then memcpy_head (m(d := m s)) (d + 1) (s + 1) (n - 1)
      else (m, d, s, n))"
  by pat_completeness auto
termination
  by (relation "measure (\<lambda>(m, d, s, n). unat n)") (auto simp: measure_unat)

function memcpy_wide :: "mem \<Rightarrow> u32 \<Rightarrow> u32 \<Rightarrow> u32 \<Rightarrow> mem \<times> u32 \<times> u32 \<times> u32" where
  "memcpy_wide m d s n =
     (if n \<ge> 8 then memcpy_wide (store_u64 m d (load_u64 m s)) (d + 8) (s + 8) (n - 8)
      else (m, d, s, n))"
  by pat_completeness auto
termination
  by (relation "measure (\<lambda>(m, d, s, n). unat n)") (auto simp: unat_minus_numeral word_le_nat_alt)

function copy_up :: "mem \<Rightarrow> u32 \<Rightarrow> u32 \<Rightarrow> u32 \<Rightarrow> mem" where
  "copy_up m d s n = (if n \<noteq> 0 then copy_up (m(d := m s)) (d + 1) (s + 1) (n - 1) else m)"
  by pat_completeness auto
termination
  by (relation "measure (\<lambda>(m, d, s, n). unat n)") (auto simp: measure_unat)

definition luna_memcpy :: "mem \<Rightarrow> u32 \<Rightarrow> u32 \<Rightarrow> u32 \<Rightarrow> mem" where
  "luna_memcpy m dst src n =
     (let (m1, d1, s1, n1) = memcpy_head m dst src n;
          (m2, d2, s2, n2) = memcpy_wide m1 d1 s1 n1
      in copy_up m2 d2 s2 n2)"

function copy_down :: "mem \<Rightarrow> u32 \<Rightarrow> u32 \<Rightarrow> u32 \<Rightarrow> mem" where
  "copy_down m d s n =
     (if n \<noteq> 0 then copy_down (m(d - 1 := m (s - 1))) (d - 1) (s - 1) (n - 1) else m)"
  by pat_completeness auto
termination
  by (relation "measure (\<lambda>(m, d, s, n). unat n)") (auto simp: measure_unat)

definition luna_memmove :: "mem \<Rightarrow> u32 \<Rightarrow> u32 \<Rightarrow> u32 \<Rightarrow> mem" where
  "luna_memmove m dst src n =
     (if dst < src then copy_up m dst src n
      else if dst > src then copy_down m (dst + n) (src + n) n
      else m)"

function luna_memcmp :: "mem \<Rightarrow> u32 \<Rightarrow> u32 \<Rightarrow> u32 \<Rightarrow> int" where
  "luna_memcmp m p q n =
     (if n \<noteq> 0 then
        (if m p \<noteq> m q then uint (m p) - uint (m q) else luna_memcmp m (p + 1) (q + 1) (n - 1))
      else 0)"
  by pat_completeness auto
termination
  by (relation "measure (\<lambda>(m, p, q, n). unat n)") (auto simp: measure_unat)

function luna_memchr :: "mem \<Rightarrow> u32 \<Rightarrow> u32 \<Rightarrow> u32 \<Rightarrow> u32 option" where
  "luna_memchr m p c n =
     (if n \<noteq> 0 then
        (if m p = ucast c then Some p else luna_memchr m (p + 1) c (n - 1))
      else None)"
  by pat_completeness auto
termination
  by (relation "measure (\<lambda>(m, p, c, n). unat n)") (auto simp: measure_unat)

lemmas mem_loop_simps = memset_head.simps memset_wide.simps memset_tail.simps memcpy_head.simps
  memcpy_wide.simps copy_up.simps copy_down.simps luna_memcmp.simps luna_memchr.simps

declare mem_loop_simps [simp del]

section \<open>What the loops compute\<close>

text \<open>Filling and copying as functions of the old memory alone.\<close>

definition fill :: "mem \<Rightarrow> u32 \<Rightarrow> u8 \<Rightarrow> u32 \<Rightarrow> mem" where
  "fill m p v n = (\<lambda>q. if q - p < n then v else m q)"

definition cpy :: "mem \<Rightarrow> u32 \<Rightarrow> u32 \<Rightarrow> u32 \<Rightarrow> mem" where
  "cpy m d s n = (\<lambda>q. if q - d < n then m (s + (q - d)) else m q)"

text \<open>An ascending copy reads every byte before overwriting it unless the destination starts
  strictly inside the source range; a descending copy unless the source starts strictly inside the
  destination range. Distances are modulo \<open>2\<^sup>32\<close>.\<close>

definition up_safe :: "u32 \<Rightarrow> u32 \<Rightarrow> u32 \<Rightarrow> bool" where
  "up_safe d s n \<longleftrightarrow> d = s \<or> n \<le> d - s"

definition down_safe :: "u32 \<Rightarrow> u32 \<Rightarrow> u32 \<Rightarrow> bool" where
  "down_safe d s n \<longleftrightarrow> d = s \<or> n \<le> s - d"

text \<open>The first difference of two byte lists, as \<^verbatim>\<open>memcmp\<close> reports it.\<close>

fun first_diff :: "u8 list \<Rightarrow> u8 list \<Rightarrow> int" where
  "first_diff (x # xs) (y # ys) = (if x \<noteq> y then uint x - uint y else first_diff xs ys)"
| "first_diff _ _ = 0"

subsection \<open>Filling\<close>

lemma of_le_Cons_add: "of_le (b # bs) = (ucast b :: 'a::len word) + push_bit 8 (of_le bs)"
proof -
  have "(ucast b :: 'a word) AND push_bit 8 (of_le bs) = 0"
    by (rule bit_word_eqI) (auto simp: bit_simps dest: bit_imp_le_length)
  then show ?thesis by (simp add: disjunctive_add_eq_or)
qed

lemma wide_pattern: "to_le 8 ((ucast v :: u64) * 0x0101010101010101) = replicate 8 v"
proof -
  have "of_le (replicate 8 v) = (ucast v :: u64) * 0x0101010101010101"
    by (simp add: numeral_eq_Suc of_le_Cons_add push_bit_eq_mult algebra_simps del: of_le.simps(2))
  then show ?thesis using to_le_of_le[of "replicate 8 v", where 'a = 64] by simp
qed

lemma fill_0 [simp]: "fill m p v 0 = m"
  by (simp add: fill_def)

lemma fill_step: "n \<noteq> 0 \<Longrightarrow> fill (m(p := v)) (p + 1) v (n - 1) = fill m p v n"
  by (auto simp: fill_def range_first[of n])

lemma fill_wide:
  assumes "8 \<le> n"
  shows "fill (store_u64 m p ((ucast v :: u64) * 0x0101010101010101)) (p + 8) v (n - 8) = fill m p v n"
proof
  fix q
  have "unat (q - p) < 8 \<longleftrightarrow> q - p < 8" by (simp add: word_less_nat_alt)
  then show "fill (store_u64 m p ((ucast v :: u64) * 0x0101010101010101)) (p + 8) v (n - 8) q =
      fill m p v n q"
    using range_split[OF assms, of q p]
    by (auto simp: fill_def store_u64_def wide_pattern store_bytes_lookup)
qed

lemma memset_head_fill:
  "memset_head m p v n = (m', p', n') \<Longrightarrow> fill m' p' v n' = fill m p v n"
  by (induction m p v n rule: memset_head.induct)
    (subst (asm) memset_head.simps, auto simp: fill_step split: if_splits)

lemma memset_wide_fill:
  "wide = (ucast v :: u64) * 0x0101010101010101 \<Longrightarrow>
   memset_wide m p wide n = (m', p', n') \<Longrightarrow> fill m' p' v n' = fill m p v n"
  by (induction m p wide n rule: memset_wide.induct)
    (subst (asm) memset_wide.simps, auto simp: fill_wide split: if_splits)

lemma memset_tail_fill: "memset_tail m p v n = fill m p v n"
  by (induction m p v n rule: memset_tail.induct)
    (subst memset_tail.simps, simp add: fill_step del: fun_upd_apply)

lemma luna_memset_fill: "luna_memset m dst val n = fill m dst (ucast val) n"
  by (auto simp: luna_memset_def Let_def memset_tail_fill split: prod.splits
      dest!: memset_head_fill memset_wide_fill[OF refl])

subsection \<open>Copying\<close>

lemma cpy_0 [simp]: "cpy m d s 0 = m"
  by (simp add: cpy_def)

lemma up_safe_shift:
  "up_safe d s n \<Longrightarrow> k \<le> n \<Longrightarrow> up_safe (d + k) (s + k) (n - k)"
  unfolding up_safe_def by (auto simp: word_le_nat_alt unat_minus_numeral)

lemma cpy_step:
  assumes "up_safe d s n" "n \<noteq> 0"
  shows "cpy (m(d := m s)) (d + 1) (s + 1) (n - 1) = cpy m d s n"
proof
  fix q
  have "s + (q - d) \<noteq> d" if "q - d < n" "q \<noteq> d"
  proof
    assume "s + (q - d) = d"
    then have "q - d = d - s" by (simp add: algebra_simps)
    with assms(1) that show False by (auto simp: up_safe_def)
  qed
  then show "cpy (m(d := m s)) (d + 1) (s + 1) (n - 1) q = cpy m d s n q"
    using range_first[OF assms(2), of q d]
    by (cases "q = d") (auto simp: cpy_def algebra_simps word_gt_0_no assms(2))
qed

lemma copy_u64: "store_u64 m d (load_u64 m s) = store_bytes m d (load_bytes m s 8)"
  using to_le_of_le[of "load_bytes m s 8", where 'a = 64]
  by (simp add: store_u64_def load_u64_def)

lemma cpy_wide_step:
  assumes safe: "up_safe d s n" and n: "8 \<le> n"
  shows "cpy (store_u64 m d (load_u64 m s)) (d + 8) (s + 8) (n - 8) = cpy m d s n"
proof
  fix q
  let ?m = "store_bytes m d (load_bytes m s 8)"
  have m: "?m a = (if a - d < 8 then m (s + (a - d)) else m a)" for a
    by (simp add: store_bytes_lookup load_bytes_nth word_less_nat_alt)
  have ahead: "\<not> s + (q - d) - d < 8 \<or> s = d" if "\<not> q - d < 8" "q - d < n"
  proof (cases "d = s")
    case False
    with safe have "q - d < d - s" using that(2) by (auto simp: up_safe_def)
    have "8 \<le> q - d" using that(1) by simp
    from this \<open>q - d < d - s\<close> have "8 \<le> q - d - (d - s)" by (rule wrapped_distance)
    then have "8 \<le> s + (q - d) - d" by (simp add: algebra_simps)
    then show ?thesis by auto
  qed simp
  have "cpy ?m (d + 8) (s + 8) (n - 8) q = cpy m d s n q"
  proof (cases "q - d < 8")
    case True
    then show ?thesis
      using range_split_disjoint[OF n True] range_split[OF n, of q d] by (simp add: cpy_def m)
  next
    case False
    then show ?thesis
      using ahead[OF False] range_split[OF n, of q d]
      by (auto simp: cpy_def m algebra_simps)
  qed
  then show "cpy (store_u64 m d (load_u64 m s)) (d + 8) (s + 8) (n - 8) q = cpy m d s n q"
    by (simp only: copy_u64)
qed

lemma memcpy_head_cpy:
  "memcpy_head m d s n = (m', d', s', n') \<Longrightarrow> up_safe d s n \<Longrightarrow>
   cpy m' d' s' n' = cpy m d s n \<and> up_safe d' s' n'"
proof (induction m d s n rule: memcpy_head.induct)
  case (1 m d s n)
  show ?case
  proof (cases "n \<noteq> 0 \<and> d AND 7 \<noteq> 0")
    case True
    then have "1 \<le> n" by (simp add: linorder_not_less [symmetric])
    with 1 True show ?thesis
      by (simp add: memcpy_head.simps[of m d s n] cpy_step up_safe_shift del: fun_upd_apply)
  next
    case False
    with 1 show ?thesis by (auto simp: memcpy_head.simps[of m d s n])
  qed
qed

lemma memcpy_wide_cpy:
  "memcpy_wide m d s n = (m', d', s', n') \<Longrightarrow> up_safe d s n \<Longrightarrow>
   cpy m' d' s' n' = cpy m d s n \<and> up_safe d' s' n'"
proof (induction m d s n rule: memcpy_wide.induct)
  case (1 m d s n)
  then show ?case
    by (cases "8 \<le> n") (auto simp: memcpy_wide.simps[of m d s n] cpy_wide_step up_safe_shift)
qed

lemma copy_up_cpy: "up_safe d s n \<Longrightarrow> copy_up m d s n = cpy m d s n"
proof (induction m d s n rule: copy_up.induct)
  case (1 m d s n)
  show ?case
  proof (cases "n = 0")
    case True
    then show ?thesis by (simp add: copy_up.simps)
  next
    case False
    then have "1 \<le> n" by (simp add: linorder_not_less [symmetric])
    with 1 False show ?thesis
      by (simp add: copy_up.simps[of m d s n] cpy_step up_safe_shift del: fun_upd_apply)
  qed
qed

lemma luna_memcpy_cpy: "up_safe dst src n \<Longrightarrow> luna_memcpy m dst src n = cpy m dst src n"
  by (auto simp: luna_memcpy_def Let_def copy_up_cpy split: prod.splits
      dest!: memcpy_head_cpy memcpy_wide_cpy)

lemma cpy_step_down:
  assumes "down_safe d s n" "n \<noteq> 0"
  shows "cpy (m(d + n - 1 := m (s + n - 1))) d s (n - 1) = cpy m d s n"
proof
  fix q
  have "s + (q - d) \<noteq> d + n - 1 \<or> d = s" if "q - d < n - 1"
  proof (rule ccontr)
    assume "\<not> (s + (q - d) \<noteq> d + n - 1 \<or> d = s)"
    then have e: "s - d = n - 1 - (q - d)" and "d \<noteq> s" by (simp_all add: algebra_simps)
    have "n - 1 - (q - d) \<le> n - 1"
      using that by (simp add: word_le_nat_alt word_less_nat_alt unat_minus_numeral less_imp_le)
    then have "s - d \<le> n - 1" unfolding e .
    moreover have "n - 1 < n" using assms(2) by (simp add: measure_unat word_less_nat_alt)
    ultimately have "s - d < n" by (rule le_less_trans)
    with \<open>d \<noteq> s\<close> assms(1) show False by (simp add: down_safe_def)
  qed
  note apart = this
  show "cpy (m(d + n - 1 := m (s + n - 1))) d s (n - 1) q = cpy m d s n q"
  proof (cases "q = d + (n - 1)")
    case True
    then show ?thesis using range_last[OF assms(2), of q d] by (simp add: cpy_def add_diff_eq)
  next
    case False
    then show ?thesis
      using range_last[OF assms(2), of q d] apart
      by (cases "d = s") (auto simp: cpy_def add_diff_eq)
  qed
qed

lemma copy_down_cpy:
  "down_safe (d - n) (s - n) n \<Longrightarrow> copy_down m d s n = cpy m (d - n) (s - n) n"
proof (induction m d s n rule: copy_down.induct)
  case (1 m d s n)
  show ?case
  proof (cases "n = 0")
    case True
    then show ?thesis by (simp add: copy_down.simps)
  next
    case False
    have "down_safe (d - n) (s - n) (n - 1)"
      using "1.prems" False by (auto simp: down_safe_def word_le_nat_alt unat_minus_one)
    then show ?thesis
      using "1" False cpy_step_down[OF "1.prems" False, of m]
      by (simp add: copy_down.simps[of m d s n] algebra_simps del: fun_upd_apply)
  qed
qed

lemma luna_memmove_cpy:
  assumes "unat dst + unat n \<le> 2 ^ 32" "unat src + unat n \<le> 2 ^ 32"
  shows "luna_memmove m dst src n = cpy m dst src n"
proof -
  consider "dst < src" | "dst > src" | "dst = src" by (rule linorder_cases)
  then show ?thesis
  proof cases
    case 1
    then have "up_safe dst src n"
      using assms by (auto simp: up_safe_def word_le_nat_alt word_less_nat_alt unat_sub_if')
    with 1 show ?thesis by (simp add: luna_memmove_def copy_up_cpy)
  next
    case 2
    then have "down_safe dst src n"
      using assms by (auto simp: down_safe_def word_le_nat_alt word_less_nat_alt unat_sub_if')
    with 2 show ?thesis by (auto simp: luna_memmove_def copy_down_cpy)
  next
    case 3
    then show ?thesis by (simp add: luna_memmove_def cpy_def fun_eq_iff)
  qed
qed

subsection \<open>Comparing and searching\<close>

lemma load_bytes_unat:
  "n \<noteq> 0 \<Longrightarrow> load_bytes m p (unat n) = m p # load_bytes m (p + 1) (unat (n - 1))"
  by (metis load_bytes.simps(2) not0_implies_Suc unat_eq_zero unat_minus_one diff_Suc_1)

lemma luna_memcmp_first_diff:
  "luna_memcmp m p q n = first_diff (load_bytes m p (unat n)) (load_bytes m q (unat n))"
proof (induction m p q n rule: luna_memcmp.induct)
  case (1 m p q n)
  then show ?case
    by (cases "n = 0") (simp_all add: luna_memcmp.simps[of m p q] load_bytes_unat)
qed

lemma first_diff_0_iff: "length xs = length ys \<Longrightarrow> first_diff xs ys = 0 \<longleftrightarrow> xs = ys"
  by (induction xs ys rule: first_diff.induct) (auto simp: word_uint_eq_iff)

lemma luna_memcmp_eq_0:
  "luna_memcmp m p q n = 0 \<longleftrightarrow> load_bytes m p (unat n) = load_bytes m q (unat n)"
  by (simp add: luna_memcmp_first_diff first_diff_0_iff)

lemma luna_memchr_None:
  "luna_memchr m p c n = None \<longleftrightarrow> ucast c \<notin> set (load_bytes m p (unat n))"
proof (induction m p c n rule: luna_memchr.induct)
  case (1 m p c n)
  then show ?case
    by (cases "n = 0") (auto simp: luna_memchr.simps[of m p c] load_bytes_unat)
qed

lemma luna_memchr_Some:
  "luna_memchr m p c n = Some r \<Longrightarrow>
   r - p < n \<and> m r = ucast c \<and> (\<forall>q. q - p < r - p \<longrightarrow> m q \<noteq> ucast c)"
proof (induction m p c n rule: luna_memchr.induct)
  case (1 m p c n)
  show ?case
  proof (cases "n = 0 \<or> m p = ucast c")
    case True
    with 1 show ?thesis
      by (auto simp: luna_memchr.simps[of m p c n] word_gt_0 split: if_splits)
  next
    case False
    with 1 have "r - (p + 1) < n - 1" "m r = ucast c"
      "\<forall>q. q - (p + 1) < r - (p + 1) \<longrightarrow> m q \<noteq> ucast c"
      by (auto simp: luna_memchr.simps[of m p c n])
    moreover have "r \<noteq> p" using calculation(2) False by auto
    ultimately show ?thesis
      using False range_first[of n r p] range_first[of "r - p" _ p]
      by (auto simp: algebra_simps)
  qed
qed

section \<open>Properties\<close>

text \<open>\<^verbatim>\<open>luna_memset\<close>, with its unaligned head, its eight-byte interior and its tail, writes the
  low byte of the value to exactly the \<open>n\<close> addresses from \<open>dst\<close> and leaves every other byte alone,
  for every alignment and every length, ranges across the end of the address space included.\<close>

theorem memset_exact:
  "luna_memset m dst val n q = (if q - dst < n then ucast val else m q)"
  by (simp add: luna_memset_fill fill_def)

text \<open>C23: \<^verbatim>\<open>luna_memmove\<close> copies correctly whatever the overlap of the two ranges: after it the
  destination holds what the source held before, and nothing else changed.\<close>

theorem memmove_copies:
  assumes "unat dst + unat n \<le> 2 ^ 32" "unat src + unat n \<le> 2 ^ 32"
  shows "luna_memmove m dst src n q = (if q - dst < n then m (src + (q - dst)) else m q)"
  by (simp add: luna_memmove_cpy[OF assms] cpy_def)

theorem memmove_copies_witness:
  "luna_memmove (\<lambda>a. ucast a) 0x1001 0x1000 3 0x1003 = 0x02"
  using memmove_copies[of "0x1001" 3 "0x1000" "\<lambda>a. ucast a" "0x1003"] by simp

end
