(* ===== verification/C_String.thy ===== *)
theory C_String
  imports Mem_Ops "HOL-Library.Sublist"
begin

text \<open>
  The NUL-terminated string functions of \<^verbatim>\<open>kernel/string.c\<close> over the flat memory. A walk
  that looks for a terminator need not stop, so it is a partial function: \<^term>\<open>None\<close> is
  \<^emph>\<open>does not return\<close>, and the lemmas show that it returns wherever the memory holds a C
  string (\<^const>\<open>cstr\<close>). A returned null pointer is the inner \<^term>\<open>None\<close>.
  Each function is related to a function on the byte lists the strings stand for.
\<close>

section \<open>Length\<close>

partial_function (option) str_end :: "mem \<Rightarrow> u32 \<Rightarrow> u32 option" where
  "str_end m p = (if m p = 0 then Some p else str_end m (p + 1))"

definition luna_strlen :: "mem \<Rightarrow> u32 \<Rightarrow> u32 option" where
  "luna_strlen m s = map_option (\<lambda>p. p - s) (str_end m s)"

function strnlen_loop :: "mem \<Rightarrow> u32 \<Rightarrow> u32 \<Rightarrow> u32 \<Rightarrow> u32" where
  "strnlen_loop m s mx n = (if n < mx \<and> m (s + n) \<noteq> 0 then strnlen_loop m s mx (n + 1) else n)"
  by pat_completeness auto
termination
  by (relation "measure (\<lambda>(m, s, mx, n). unat mx - unat n)") (auto simp: count_up_decreases)

definition luna_strnlen :: "mem \<Rightarrow> u32 \<Rightarrow> u32 \<Rightarrow> u32" where
  "luna_strnlen m s mx = strnlen_loop m s mx 0"

section \<open>Copy and concatenation\<close>

partial_function (option) strcpy_loop :: "mem \<Rightarrow> u32 \<Rightarrow> u32 \<Rightarrow> mem option" where
  "strcpy_loop m d s =
     (if m s = 0 then Some (m(d := m s)) else strcpy_loop (m(d := m s)) (d + 1) (s + 1))"

definition luna_strcpy :: "mem \<Rightarrow> u32 \<Rightarrow> u32 \<Rightarrow> mem option" where
  "luna_strcpy m dst src = strcpy_loop m dst src"

function strncpy_copy :: "mem \<Rightarrow> u32 \<Rightarrow> u32 \<Rightarrow> u32 \<Rightarrow> u32 \<Rightarrow> mem \<times> u32" where
  "strncpy_copy m dst src n i =
     (if i < n \<and> m (src + i) \<noteq> 0
      then strncpy_copy (m(dst + i := m (src + i))) dst src n (i + 1) else (m, i))"
  by pat_completeness auto
termination
  by (relation "measure (\<lambda>(m, dst, src, n, i). unat n - unat i)") (auto simp: count_up_decreases)

function strncpy_pad :: "mem \<Rightarrow> u32 \<Rightarrow> u32 \<Rightarrow> u32 \<Rightarrow> mem" where
  "strncpy_pad m dst n i = (if i < n then strncpy_pad (m(dst + i := 0)) dst n (i + 1) else m)"
  by pat_completeness auto
termination
  by (relation "measure (\<lambda>(m, dst, n, i). unat n - unat i)") (auto simp: count_up_decreases)

definition luna_strncpy :: "mem \<Rightarrow> u32 \<Rightarrow> u32 \<Rightarrow> u32 \<Rightarrow> mem" where
  "luna_strncpy m dst src n =
     (let (m1, i) = strncpy_copy m dst src n 0 in strncpy_pad m1 dst n i)"

definition luna_strcat :: "mem \<Rightarrow> u32 \<Rightarrow> u32 \<Rightarrow> mem option" where
  "luna_strcat m dst src =
     (case luna_strlen m dst of None \<Rightarrow> None | Some l \<Rightarrow> strcpy_loop m (dst + l) src)"

function strncat_loop :: "mem \<Rightarrow> u32 \<Rightarrow> u32 \<Rightarrow> u32 \<Rightarrow> mem" where
  "strncat_loop m d s n =
     (if n \<noteq> 0 \<and> m s \<noteq> 0 then strncat_loop (m(d := m s)) (d + 1) (s + 1) (n - 1) else m(d := 0))"
  by pat_completeness auto
termination
  by (relation "measure (\<lambda>(m, d, s, n). unat n)") (auto simp: measure_unat)

definition luna_strncat :: "mem \<Rightarrow> u32 \<Rightarrow> u32 \<Rightarrow> u32 \<Rightarrow> mem option" where
  "luna_strncat m dst src n =
     (case luna_strlen m dst of None \<Rightarrow> None | Some l \<Rightarrow> Some (strncat_loop m (dst + l) src n))"

section \<open>Comparison\<close>

partial_function (option) luna_strcmp :: "mem \<Rightarrow> u32 \<Rightarrow> u32 \<Rightarrow> int option" where
  "luna_strcmp m a b =
     (if m a \<noteq> 0 \<and> m a = m b then luna_strcmp m (a + 1) (b + 1)
      else Some (uint (m a) - uint (m b)))"

text \<open>The guard of the C loop is \<^verbatim>\<open>n-- && *a && *a == *b\<close>, so the \<^verbatim>\<open>if (!n)\<close> after it
  tests the counter that has already been decremented once more.\<close>

function luna_strncmp :: "mem \<Rightarrow> u32 \<Rightarrow> u32 \<Rightarrow> u32 \<Rightarrow> int" where
  "luna_strncmp m a b n =
     (if n \<noteq> 0 \<and> m a \<noteq> 0 \<and> m a = m b then luna_strncmp m (a + 1) (b + 1) (n - 1)
      else if n - 1 = 0 then 0 else uint (m a) - uint (m b))"
  by pat_completeness auto
termination
  by (relation "measure (\<lambda>(m, a, b, n). unat n)") (auto simp: measure_unat)

definition to_lower :: "u8 \<Rightarrow> u8" where
  "to_lower c = (if c \<ge> 0x41 \<and> c \<le> 0x5A then c + 32 else c)"

partial_function (option) luna_strcasecmp :: "mem \<Rightarrow> u32 \<Rightarrow> u32 \<Rightarrow> int option" where
  "luna_strcasecmp m a b =
     (if m a \<noteq> 0 \<and> m b \<noteq> 0 then
        (if to_lower (m a) \<noteq> to_lower (m b)
         then Some (uint (to_lower (m a)) - uint (to_lower (m b)))
         else luna_strcasecmp m (a + 1) (b + 1))
      else Some (uint (m a) - uint (m b)))"

section \<open>Search\<close>

partial_function (option) luna_strchr :: "mem \<Rightarrow> u32 \<Rightarrow> u32 \<Rightarrow> u32 option option" where
  "luna_strchr m s c =
     (if m s \<noteq> 0 then (if m s = ucast c then Some (Some s) else luna_strchr m (s + 1) c)
      else Some (if c = 0 then Some s else None))"

partial_function (option) strrchr_loop :: "mem \<Rightarrow> u32 \<Rightarrow> u32 \<Rightarrow> u32 option \<Rightarrow> u32 option option" where
  "strrchr_loop m s c lst =
     (if m s \<noteq> 0 then strrchr_loop m (s + 1) c (if m s = ucast c then Some s else lst)
      else Some lst)"

definition luna_strrchr :: "mem \<Rightarrow> u32 \<Rightarrow> u32 \<Rightarrow> u32 option option" where
  "luna_strrchr m s c = strrchr_loop m s c None"

partial_function (option) strstr_loop :: "mem \<Rightarrow> u32 \<Rightarrow> u32 \<Rightarrow> u32 \<Rightarrow> u32 option option" where
  "strstr_loop m haystack needle nlen =
     (if m haystack \<noteq> 0 then
        (if luna_memcmp m haystack needle nlen = 0 then Some (Some haystack)
         else strstr_loop m (haystack + 1) needle nlen)
      else Some None)"

definition luna_strstr :: "mem \<Rightarrow> u32 \<Rightarrow> u32 \<Rightarrow> u32 option option" where
  "luna_strstr m haystack needle =
     (if m needle = 0 then Some (Some haystack)
      else case luna_strlen m needle of None \<Rightarrow> None
        | Some nlen \<Rightarrow> strstr_loop m haystack needle nlen)"

text \<open>\<^verbatim>\<open>strtok\<close>: the two scanning loops stop on a terminator; a byte passed to
  \<^verbatim>\<open>luna_strchr\<close> is promoted from the signed \<^verbatim>\<open>char\<close>.\<close>

partial_function (option) skip_delims :: "mem \<Rightarrow> u32 \<Rightarrow> u32 \<Rightarrow> u32 option" where
  "skip_delims m s delim =
     (if m s = 0 then Some s
      else Option.bind (luna_strchr m delim (scast (m s)))
        (\<lambda>r. if r \<noteq> None then skip_delims m (s + 1) delim else Some s))"

partial_function (option) skip_token :: "mem \<Rightarrow> u32 \<Rightarrow> u32 \<Rightarrow> u32 option" where
  "skip_token m s delim =
     (if m s = 0 then Some s
      else Option.bind (luna_strchr m delim (scast (m s)))
        (\<lambda>r. if r = None then skip_token m (s + 1) delim else Some s))"

definition luna_strtok ::
    "mem \<Rightarrow> u32 option \<Rightarrow> u32 \<Rightarrow> u32 option \<Rightarrow> (mem \<times> u32 option \<times> u32 option) option" where
  "luna_strtok m str delim saveptr =
     (case (if str \<noteq> None then str else saveptr) of
        None \<Rightarrow> Some (m, None, saveptr)
      | Some s0 \<Rightarrow> Option.bind (skip_delims m s0 delim) (\<lambda>s1.
          if m s1 = 0 then Some (m, None, None)
          else Option.bind (skip_token m s1 delim) (\<lambda>s2.
            if m s2 \<noteq> 0 then Some (m(s2 := 0), Some s1, Some (s2 + 1))
            else Some (m, Some s1, Some s2))))"

lemmas str_loop_simps = strnlen_loop.simps strncpy_copy.simps strncpy_pad.simps strncat_loop.simps
  luna_strncmp.simps

declare str_loop_simps [simp del]

section \<open>C strings in memory\<close>

lemma cstr_nth: "cstr m p xs \<Longrightarrow> i < length xs \<Longrightarrow> m (p + of_nat i) = xs ! i \<and> xs ! i \<noteq> 0"
proof (induction xs arbitrary: p i)
  case Nil
  then show ?case by simp
next
  case (Cons x xs)
  show ?case
  proof (cases i)
    case 0
    with Cons.prems show ?thesis by simp
  next
    case (Suc j)
    with Cons.prems show ?thesis using Cons.IH[of "p + 1" j] by (simp add: add.assoc)
  qed
qed

lemma cstr_end: "cstr m p xs \<Longrightarrow> m (p + of_nat (length xs)) = 0"
proof (induction xs arbitrary: p)
  case (Cons x xs)
  then show ?case using Cons.IH[of "p + 1"] by (simp add: add.assoc)
qed simp

lemma cstr_length: "cstr m p xs \<Longrightarrow> length xs < 2 ^ 32"
proof (rule ccontr)
  assume c: "cstr m p xs" and "\<not> length xs < 2 ^ 32"
  then have ge: "2 ^ 32 \<le> length xs" by simp
  define i where "i = length xs - 2 ^ 32"
  have "(of_nat (length xs) :: u32) = of_nat (i + 2 ^ 32)" using ge by (simp add: i_def)
  also have "\<dots> = of_nat i" by simp
  finally have "m (p + of_nat i) = 0" using cstr_end[OF c] by simp
  moreover have "i < length xs" using ge by (simp add: i_def)
  ultimately show False using cstr_nth[OF c] by auto
qed

lemma cstr_unique: "cstr m p xs \<Longrightarrow> cstr m p ys \<Longrightarrow> xs = ys"
  by (induction xs arbitrary: p ys; case_tac ys) auto

lemma cstr_load: "cstr m p xs \<Longrightarrow> load_bytes m p (length xs) = xs"
  by (induction xs arbitrary: p) auto

lemma unat_cstr_length: "cstr m p xs \<Longrightarrow> unat (of_nat (length xs) :: u32) = length xs"
  using cstr_length by (simp add: unat_of_nat)

section \<open>Length and comparison\<close>

lemma str_end_cstr: "cstr m p xs \<Longrightarrow> str_end m p = Some (p + of_nat (length xs))"
proof (induction xs arbitrary: p)
  case Nil
  then show ?case by (simp add: str_end.simps)
next
  case (Cons x xs)
  then show ?case using Cons.IH[of "p + 1"] by (simp add: str_end.simps[of m p] add.assoc)
qed

lemma luna_strlen_cstr: "cstr m p xs \<Longrightarrow> luna_strlen m p = Some (of_nat (length xs))"
  by (simp add: luna_strlen_def str_end_cstr)

lemma luna_strcmp_cstr:
  "cstr m a xs \<Longrightarrow> cstr m b ys \<Longrightarrow> luna_strcmp m a b = Some (first_diff (xs @ [0]) (ys @ [0]))"
proof (induction xs arbitrary: a b ys)
  case Nil
  then show ?case by (cases ys) (simp_all add: luna_strcmp.simps)
next
  case (Cons x xs)
  show ?case
  proof (cases ys)
    case Nil
    with Cons.prems show ?thesis by (simp add: luna_strcmp.simps)
  next
    case (Cons y ys')
    with Cons.prems Cons.IH[of "a + 1" "b + 1" ys'] show ?thesis
      by (simp add: luna_strcmp.simps[of m a b])
  qed
qed

text \<open>Two terminated strings compare equal exactly when they are the same string.\<close>

lemma first_diff_terminated_0:
  "0 \<notin> set xs \<Longrightarrow> 0 \<notin> set ys \<Longrightarrow> first_diff (xs @ [0]) (ys @ [0]) = 0 \<longleftrightarrow> xs = ys"
proof (induction xs arbitrary: ys)
  case Nil
  then show ?case by (cases ys) (auto simp: word_uint_eq_iff)
next
  case (Cons x xs)
  then show ?case by (cases ys) (auto simp: word_uint_eq_iff)
qed

lemma cstr_no_zero: "cstr m p xs \<Longrightarrow> 0 \<notin> set xs"
  by (induction xs arbitrary: p) auto

lemma luna_strcmp_eq_iff:
  assumes "cstr m a xs" "cstr m b ys"
  shows "luna_strcmp m a b = Some 0 \<longleftrightarrow> xs = ys"
  using assms by (simp add: luna_strcmp_cstr first_diff_terminated_0 cstr_no_zero)

lemma cstr_at:
  assumes "cstr m p xs" "unat n \<le> length xs"
  shows "m (p + n) = 0 \<longleftrightarrow> unat n = length xs"
proof (cases "unat n = length xs")
  case True
  then have "n = of_nat (length xs)" by (simp flip: True)
  with cstr_end[OF assms(1)] True show ?thesis by simp
next
  case False
  with cstr_nth[OF assms(1), of "unat n"] assms(2) show ?thesis by simp
qed

lemma luna_strnlen_cstr:
  assumes c: "cstr m s xs"
  shows "unat (luna_strnlen m s mx) = min (length xs) (unat mx)"
proof -
  have "unat (strnlen_loop m s mx n) = min (length xs) (unat mx)"
    if "cstr m s xs" "unat n \<le> min (length xs) (unat mx)" for n
    using that
  proof (induction m s mx n rule: strnlen_loop.induct)
    case (1 m s mx n)
    show ?case
    proof (cases "n < mx \<and> m (s + n) \<noteq> 0")
      case True
      then have "unat n < unat mx" "unat n < length xs"
        using cstr_at[OF "1.prems"(1), of n] "1.prems"(2) by (auto simp: word_less_nat_alt)
      moreover have "unat (n + 1) = unat n + 1" using calculation(1) by (rule unat_inc)
      ultimately show ?thesis using True 1 by (simp add: strnlen_loop.simps[of m s mx n])
    next
      case False
      then show ?thesis
        using cstr_at[OF "1.prems"(1), of n] "1.prems"(2)
        by (auto simp: strnlen_loop.simps[of m s mx n] word_less_nat_alt)
    qed
  qed
  from this[OF c, of 0] show ?thesis by (simp add: luna_strnlen_def)
qed

section \<open>Bounded comparison\<close>

text \<open>The strings at \<open>a\<close> and \<open>b\<close> have the same \<open>k\<close> first bytes, none of them the terminator.\<close>

primrec agree :: "mem \<Rightarrow> u32 \<Rightarrow> u32 \<Rightarrow> nat \<Rightarrow> bool" where
  "agree m a b 0 \<longleftrightarrow> True"
| "agree m a b (Suc k) \<longleftrightarrow> m a \<noteq> 0 \<and> m a = m b \<and> agree m (a + 1) (b + 1) k"

lemma luna_strncmp_skip:
  "agree m a b k \<Longrightarrow> k \<le> unat n \<Longrightarrow>
   luna_strncmp m a b n = luna_strncmp m (a + of_nat k) (b + of_nat k) (n - of_nat k)"
proof (induction k arbitrary: a b n)
  case 0
  then show ?case by simp
next
  case (Suc k)
  then have n0: "n \<noteq> 0" by auto
  then have "k \<le> unat (n - 1)" using Suc.prems(2) by (simp add: unat_minus_one)
  moreover have "luna_strncmp m a b n = luna_strncmp m (a + 1) (b + 1) (n - 1)"
    using Suc.prems(1) n0 by (subst luna_strncmp.simps) auto
  ultimately show ?case
    using Suc.IH[of "a + 1" "b + 1" "n - 1"] Suc.prems(1) by (simp add: algebra_simps)
qed

text \<open>With \<open>n\<close> equal bytes the loop runs out and the code goes on to report the difference of the
  byte \<^emph>\<open>after\<close> them.\<close>

lemma luna_strncmp_equal_prefix:
  assumes "agree m a b (unat n)"
  shows "luna_strncmp m a b n = uint (m (a + n)) - uint (m (b + n))"
  using luna_strncmp_skip[OF assms order.refl] by (simp add: luna_strncmp.simps[of _ _ _ 0])

text \<open>With a difference (or the end of a string) at the last of the \<open>n\<close> bytes it reports equality.\<close>

lemma luna_strncmp_last_ignored:
  assumes "agree m a b k" "n = of_nat k + 1" "Suc k < 2 ^ 32"
    and "m (a + of_nat k) = 0 \<or> m (a + of_nat k) \<noteq> m (b + of_nat k)"
  shows "luna_strncmp m a b n = 0"
proof -
  have "unat n = Suc k"
    using assms(2,3) by (metis Suc_eq_plus1 of_nat_Suc add.commute unat_of_nat_eq_32)
  then have "luna_strncmp m a b n = luna_strncmp m (a + of_nat k) (b + of_nat k) 1"
    using luna_strncmp_skip[OF assms(1), of n] assms(2) by simp
  then show ?thesis using assms(4) by (auto simp: luna_strncmp.simps[of _ _ _ 1])
qed

section \<open>Copying\<close>

lemma cstr_upd: "cstr m p xs \<Longrightarrow> length xs < unat (d - p) \<Longrightarrow> cstr (m(d := v)) p xs"
proof (induction xs arbitrary: p)
  case Nil
  then show ?case by auto
next
  case (Cons x xs)
  then have "d - p \<noteq> 0" by auto
  then have "unat (d - (p + 1)) = unat (d - p) - 1" by (simp add: unat_minus_one flip: diff_diff_eq)
  then have "length xs < unat (d - (p + 1))" using Cons.prems by simp
  with Cons show ?case by auto
qed

lemma strcpy_loop_cstr:
  "cstr m s xs \<Longrightarrow> d = s \<or> length xs < unat (d - s) \<Longrightarrow>
   strcpy_loop m d s = Some (store_bytes m d (xs @ [0]))"
proof (induction xs arbitrary: m d s)
  case Nil
  then show ?case by (simp add: strcpy_loop.simps fun_upd_def)
next
  case (Cons x xs)
  have "cstr (m(d := m s)) (s + 1) xs"
  proof (cases "d = s")
    case True
    then have "m(d := m s) = m" by simp
    with Cons.prems show ?thesis by simp
  next
    case False
    then have "d - s \<noteq> 0" by simp
    then have "unat (d - (s + 1)) = unat (d - s) - 1" by (simp add: unat_minus_one flip: diff_diff_eq)
    then show ?thesis using Cons.prems False by (intro cstr_upd) auto
  qed
  then show ?case
    using Cons.prems Cons.IH[of "m(d := m s)" "s + 1" "d + 1"]
    by (auto simp: strcpy_loop.simps[of m d s] simp del: fun_upd_apply)
qed

section \<open>Searching\<close>

text \<open>The first position at which one list occurs in another.\<close>

fun find_sub :: "'a list \<Rightarrow> 'a list \<Rightarrow> nat option" where
  "find_sub needle [] = (if needle = [] then Some 0 else None)"
| "find_sub needle (x # xs) =
     (if prefix needle (x # xs) then Some 0 else map_option Suc (find_sub needle xs))"

lemma find_sub_None_iff: "find_sub needle hay = None \<longleftrightarrow> \<not> sublist needle hay"
  by (induction needle hay rule: find_sub.induct) (auto simp: sublist_Cons_right)

lemma find_sub_Some:
  "find_sub needle hay = Some k \<Longrightarrow>
   prefix needle (drop k hay) \<and> (\<forall>j < k. \<not> prefix needle (drop j hay))"
proof (induction needle hay arbitrary: k rule: find_sub.induct)
  case (2 needle x xs)
  show ?case
  proof (cases "prefix needle (x # xs)")
    case False
    with 2 obtain k' where "k = Suc k'" "find_sub needle xs = Some k'" by auto
    with 2(1)[of k'] False show ?thesis by (auto simp: All_less_Suc2)
  qed (use 2 in auto)
qed (auto split: if_splits)

lemma cstr_load_prefix:
  "cstr m p xs \<Longrightarrow> 0 \<notin> set ys \<Longrightarrow> load_bytes m p (length ys) = ys \<longleftrightarrow> prefix ys xs"
proof (induction ys arbitrary: p xs)
  case Nil
  then show ?case by simp
next
  case (Cons y ys)
  then show ?case using Cons.IH[of "p + 1"] by (cases xs) auto
qed

lemma strstr_loop_cstr:
  assumes nd: "cstr m nd ys" and ne: "ys \<noteq> []"
  shows "cstr m h xs \<Longrightarrow>
    strstr_loop m h nd (of_nat (length ys)) = Some (map_option (\<lambda>k. h + of_nat k) (find_sub ys xs))"
proof (induction xs arbitrary: h)
  case Nil
  with ne show ?case by (simp add: strstr_loop.simps)
next
  case (Cons x xs)
  have "luna_memcmp m h nd (of_nat (length ys)) = 0 \<longleftrightarrow> prefix ys (x # xs)"
    using cstr_load_prefix[OF Cons.prems cstr_no_zero[OF nd]] cstr_load[OF nd]
    by (simp add: luna_memcmp_eq_0 unat_cstr_length[OF nd])
  then show ?case
    using Cons.prems Cons.IH[of "h + 1"]
    by (simp add: strstr_loop.simps[of m h] option.map_comp comp_def add.assoc)
qed

text \<open>\<^verbatim>\<open>luna_strstr\<close> always returns, with the first occurrence; it never looks past the
  terminator of the haystack because a terminator differs from every byte of the needle.\<close>

lemma luna_strstr_cstr:
  assumes "cstr m h xs" "cstr m nd ys"
  shows "luna_strstr m h nd = Some (map_option (\<lambda>k. h + of_nat k) (find_sub ys xs))"
proof (cases ys)
  case Nil
  with assms(2) show ?thesis by (cases xs) (simp_all add: luna_strstr_def)
next
  case (Cons y ys')
  with assms have "m nd \<noteq> 0" by simp
  with Cons strstr_loop_cstr[OF assms(2) _ assms(1)] show ?thesis
    by (simp add: luna_strstr_def luna_strlen_cstr[OF assms(2)])
qed

corollary luna_strstr_found_iff:
  assumes "cstr m h xs" "cstr m nd ys"
  shows "(\<exists>p. luna_strstr m h nd = Some (Some p)) \<longleftrightarrow> sublist ys xs"
  using find_sub_None_iff[of ys xs] by (auto simp: luna_strstr_cstr[OF assms])

lemma luna_strchr_cstr:
  assumes "cstr m s xs" "ucast c \<noteq> (0 :: u8)"
  shows "luna_strchr m s c = Some (map_option (\<lambda>k. s + of_nat k) (find_sub [ucast c] xs))"
  using assms
proof (induction xs arbitrary: s)
  case Nil
  then show ?case by (auto simp: luna_strchr.simps)
next
  case (Cons x xs)
  then show ?case using Cons.IH[of "s + 1"]
    by (auto simp: luna_strchr.simps[of m s] option.map_comp comp_def add.assoc)
qed

lemma luna_strchr_found:
  assumes "cstr m s xs" "ucast c \<noteq> (0 :: u8)"
  obtains r where "luna_strchr m s c = Some r" "r \<noteq> None \<longleftrightarrow> ucast c \<in> set xs"
proof -
  have "find_sub [ucast c] xs \<noteq> None \<longleftrightarrow> ucast c \<in> set xs"
    by (simp add: find_sub_None_iff) (metis (full_types) in_set_conv_decomp set_mono_sublist sublist_def append_Cons append_Nil list.set_intros(1) subsetD)
  then show ?thesis
    using that[of "map_option (\<lambda>k. s + of_nat k) (find_sub [ucast c] xs)"]
    by (simp add: luna_strchr_cstr[OF assms])
qed

section \<open>Tokens\<close>

lemma skip_delims_cstr:
  assumes ds: "cstr m dp ds"
  shows "cstr m s xs \<Longrightarrow>
    skip_delims m s dp = Some (s + of_nat (length (takeWhile (\<lambda>x. x \<in> set ds) xs)))"
proof (induction xs arbitrary: s)
  case Nil
  then show ?case by (simp add: skip_delims.simps)
next
  case (Cons x xs)
  have c: "ucast (scast x :: u32) = x" by (rule bit_word_eqI) (simp add: bit_simps)
  with Cons.prems have "ucast (scast (m s) :: u32) \<noteq> (0 :: u8)" by simp
  from luna_strchr_found[OF ds this] obtain r
    where "luna_strchr m dp (scast (m s)) = Some r" "r \<noteq> None \<longleftrightarrow> x \<in> set ds"
    using c Cons.prems by auto
  with Cons.prems Cons.IH[of "s + 1"] show ?case
    by (auto simp: skip_delims.simps[of m s] add.assoc)
qed

lemma skip_token_cstr:
  assumes ds: "cstr m dp ds"
  shows "cstr m s xs \<Longrightarrow>
    skip_token m s dp = Some (s + of_nat (length (takeWhile (\<lambda>x. x \<notin> set ds) xs)))"
proof (induction xs arbitrary: s)
  case Nil
  then show ?case by (simp add: skip_token.simps)
next
  case (Cons x xs)
  have c: "ucast (scast x :: u32) = x" by (rule bit_word_eqI) (simp add: bit_simps)
  with Cons.prems have "ucast (scast (m s) :: u32) \<noteq> (0 :: u8)" by simp
  from luna_strchr_found[OF ds this] obtain r
    where "luna_strchr m dp (scast (m s)) = Some r" "r \<noteq> None \<longleftrightarrow> x \<in> set ds"
    using c Cons.prems by auto
  with Cons.prems Cons.IH[of "s + 1"] show ?case
    by (auto simp: skip_token.simps[of m s] add.assoc)
qed

text \<open>The tokens of a line: maximal runs of bytes that are not delimiters.\<close>

lemma tokens_decreases:
  fixes D :: "u8 set"
  assumes "dropWhile (\<lambda>x. x \<in> D) xs \<noteq> []"
  shows "length (dropWhile (\<lambda>x. x \<notin> D) (dropWhile (\<lambda>x. x \<in> D) xs)) < length xs"
proof -
  obtain y ys where y: "dropWhile (\<lambda>x. x \<in> D) xs = y # ys" using assms by (cases "dropWhile (\<lambda>x. x \<in> D) xs") auto
  have "hd (dropWhile (\<lambda>x. x \<in> D) xs) \<notin> D" using assms by (rule hd_dropWhile)
  with y have "length (dropWhile (\<lambda>x. x \<notin> D) (y # ys)) < length (y # ys)"
    by (simp add: le_imp_less_Suc length_dropWhile_le)
  also have "\<dots> \<le> length xs" using length_dropWhile_le[of "\<lambda>x. x \<in> D" xs] y by simp
  finally show ?thesis using y by simp
qed

function tokens :: "u8 set \<Rightarrow> u8 list \<Rightarrow> u8 list list" where
  "tokens D xs =
     (let ys = dropWhile (\<lambda>x. x \<in> D) xs
      in if ys = [] then []
         else takeWhile (\<lambda>x. x \<notin> D) ys # tokens D (dropWhile (\<lambda>x. x \<notin> D) ys))"
  by pat_completeness auto
termination
  by (relation "measure (\<lambda>(D, xs). length xs)")
    (auto simp del: dropWhile_eq_Nil_conv intro: tokens_decreases)

declare tokens.simps [simp del]

lemma cstr_append: "cstr m p (xs @ ys) \<longleftrightarrow>
    (\<forall>i < length xs. m (p + of_nat i) = xs ! i \<and> xs ! i \<noteq> 0) \<and> cstr m (p + of_nat (length xs)) ys"
proof (induction xs arbitrary: p)
  case Nil
  then show ?case by simp
next
  case (Cons x xs)
  show ?case
    by (auto simp: Cons nth_Cons add.assoc All_less_Suc2 split: nat.splits)
qed

lemma cstr_cut:
  assumes c: "cstr m p (xs @ y # ys)"
  defines "q \<equiv> p + of_nat (length xs)"
  shows "cstr (m(q := 0)) p xs" and "cstr (m(q := 0)) (q + 1) ys"
proof -
  have len: "length xs + length ys + 1 < 2 ^ 32" using cstr_length[OF c] by simp
  have c2: "cstr m q (y # ys)" using c by (simp add: cstr_append q_def)
  have "unat (q - (q + 1)) = 2 ^ 32 - 1"
    by (simp add: unsigned_minus_1_eq_mask mask_eq_exp_minus_1)
  then show "cstr (m(q := 0)) (q + 1) ys"
    using c2 len by (intro cstr_upd) auto
  have "p + of_nat i \<noteq> q" if "i < length xs" for i
  proof
    assume "p + of_nat i = q"
    then have "unat (of_nat i :: u32) = unat (of_nat (length xs) :: u32)" by (simp add: q_def)
    with that len show False by (simp add: unat_of_nat_eq_32)
  qed
  then have "\<forall>i < length xs. (m(q := 0)) (p + of_nat i) = xs ! i \<and> xs ! i \<noteq> 0"
    using c by (auto simp: cstr_append)
  then show "cstr (m(q := 0)) p xs"
    using cstr_append[of "m(q := 0)" p xs "[]"] by (simp add: q_def)
qed

lemma strtok_scan:
  assumes s: "cstr m s xs" and d: "cstr m dp ds"
  defines "ys \<equiv> dropWhile (\<lambda>x. x \<in> set ds) xs"
  obtains p where "skip_delims m s dp = Some p" "cstr m p ys"
    "skip_token m p dp = Some (p + of_nat (length (takeWhile (\<lambda>x. x \<notin> set ds) ys)))"
proof -
  define pre where "pre = takeWhile (\<lambda>x. x \<in> set ds) xs"
  have "xs = pre @ ys" by (simp add: pre_def ys_def)
  with s have "cstr m (s + of_nat (length pre)) ys" by (simp add: cstr_append)
  with that skip_delims_cstr[OF d s] skip_token_cstr[OF d] show ?thesis by (simp add: pre_def)
qed

lemma luna_strtok_end:
  assumes "cstr m s xs" "cstr m dp ds" "(if str \<noteq> None then str else save) = Some s"
    and "dropWhile (\<lambda>x. x \<in> set ds) xs = []"
  shows "luna_strtok m str dp save = Some (m, None, None)"
proof -
  obtain p where "skip_delims m s dp = Some p" "cstr m p []"
    by (rule strtok_scan[OF assms(1,2), unfolded assms(4)])
  with assms(3) show ?thesis by (simp add: luna_strtok_def)
qed

lemma luna_strtok_token:
  assumes s: "cstr m s xs" and d: "cstr m dp ds"
    and src: "(if str \<noteq> None then str else save) = Some s"
    and ys: "dropWhile (\<lambda>x. x \<in> set ds) xs = t @ rest" and ne: "t \<noteq> []"
    and t: "\<forall>x \<in> set t. x \<notin> set ds" and rest: "rest \<noteq> [] \<Longrightarrow> hd rest \<in> set ds"
  shows "\<exists>m' p q. luna_strtok m str dp save = Some (m', Some p, Some q)
      \<and> cstr m' p t \<and> cstr m' q (tl rest)"
proof -
  obtain p where sd: "skip_delims m s dp = Some p" and c: "cstr m p (t @ rest)"
    and st: "skip_token m p dp = Some (p + of_nat (length (takeWhile (\<lambda>x. x \<notin> set ds) (t @ rest))))"
    by (rule strtok_scan[OF s d, unfolded ys])
  have "takeWhile (\<lambda>x. x \<notin> set ds) (t @ rest) = t"
    using t rest by (cases rest) (auto simp: takeWhile_append)
  with st have st: "skip_token m p dp = Some (p + of_nat (length t))" by simp
  have "m p \<noteq> 0" using c ne by (cases t) auto
  with sd st src have tok: "luna_strtok m str dp save =
      (let q = p + of_nat (length t) in
       if m q \<noteq> 0 then Some (m(q := 0), Some p, Some (q + 1)) else Some (m, Some p, Some q))"
    by (simp add: luna_strtok_def Let_def)
  show ?thesis
  proof (cases rest)
    case Nil
    with c have "cstr m p t" "cstr m (p + of_nat (length t)) []"
      using cstr_append[of m p t "[]"] by auto
    with tok Nil show ?thesis by (auto simp: Let_def)
  next
    case (Cons z zs)
    with c have "m (p + of_nat (length t)) \<noteq> 0" by (simp add: cstr_append)
    with tok Cons c cstr_cut[of m p t z zs] show ?thesis by (auto simp: Let_def)
  qed
qed

section \<open>Properties\<close>

text \<open>On two terminated strings \<^verbatim>\<open>luna_strcmp\<close> returns, and it returns zero exactly when the
  strings have the same characters.\<close>

theorem strcmp_decides_equality:
  assumes "cstr m a xs" "cstr m b ys"
  shows "\<exists>r. luna_strcmp m a b = Some r \<and> (r = 0 \<longleftrightarrow> xs = ys)"
  using luna_strcmp_cstr[OF assms] luna_strcmp_eq_iff[OF assms] by auto

theorem strcmp_decides_equality_witness:
  "\<exists>r. luna_strcmp (store_bytes (\<lambda>_. 0) 16 (bytes_of ''ls'')) 16 32 = Some r \<and> r \<noteq> 0"
  using strcmp_decides_equality[of "store_bytes (\<lambda>_. 0) 16 (bytes_of ''ls'')" 16 "bytes_of ''ls''" 32 "[]"]
  by (simp add: bytes_of_def of_char_def)

text \<open>\<^verbatim>\<open>luna_strncmp\<close> does not compare the first \<open>n\<close> characters: when the two strings agree on
  exactly the first \<open>n\<close> and differ right after them it still reports a difference, because the
  counter has wrapped below zero when it is tested. A prefix comparison with it never succeeds.\<close>

theorem strncmp_compares_past_n:
  assumes "agree m a b (unat n)" "m (a + n) \<noteq> m (b + n)"
  shows "luna_strncmp m a b n \<noteq> 0"
  using luna_strncmp_equal_prefix[OF assms(1)] assms(2) by (simp add: word_uint_eq_iff)

theorem strncmp_compares_past_n_witness:
  "luna_strncmp (store_bytes (\<lambda>_. 0) 16 (bytes_of ''lsx'')) 16 17 0 \<noteq> 0"
  using strncmp_compares_past_n[of "store_bytes (\<lambda>_. 0) 16 (bytes_of ''lsx'')" 16 17 0]
  by (simp add: bytes_of_def of_char_def)

text \<open>\<^verbatim>\<open>luna_strstr\<close> returns on terminated strings; it finds the needle exactly when it is a
  sublist of the haystack, and then its result points at the first occurrence.\<close>

theorem strstr_finds_first:
  assumes "cstr m h xs" "cstr m nd ys"
  shows "luna_strstr m h nd = Some (map_option (\<lambda>k. h + of_nat k) (find_sub ys xs))
    \<and> (find_sub ys xs \<noteq> None \<longleftrightarrow> sublist ys xs)
    \<and> (\<forall>k. find_sub ys xs = Some k \<longrightarrow> prefix ys (drop k xs) \<and> (\<forall>j < k. \<not> prefix ys (drop j xs)))"
  using luna_strstr_cstr[OF assms] find_sub_None_iff[of ys xs] find_sub_Some[of ys xs] by auto

theorem strstr_finds_first_witness:
  "luna_strstr (store_bytes (\<lambda>_. 0) 16 (bytes_of ''abab'')) 16 18 = Some (Some 16)"
  using strstr_finds_first[of "store_bytes (\<lambda>_. 0) 16 (bytes_of ''abab'')" 16 "bytes_of ''abab''" 18 "bytes_of ''ab''"]
  by (simp add: bytes_of_def of_char_def)

end
