(* ===== verification/String_Buffers.thy ===== *)
theory String_Buffers
  imports C_String
begin

text \<open>
  The bounded copy and the concatenation of \<^verbatim>\<open>kernel/string.c\<close> on buffers in memory. The components above keep
  the small buffers of the kernel (the names of processes, the targets of ledger blocks, the lines of the shell)
  as lists of bytes and update them with \<^const>\<open>strncpy_into\<close>; the lemmas here tie those lists to the loops
  that run on memory.
\<close>

section \<open>The loops of the bounded copy\<close>

text \<open>A string outside the \<^term>\<open>n\<close> bytes at \<^term>\<open>dst\<close> is not touched by a store into them.\<close>

definition outside :: "u32 \<Rightarrow> u32 \<Rightarrow> u32 \<Rightarrow> nat \<Rightarrow> bool" where
  "outside dst n src l \<longleftrightarrow> unat n \<le> unat (src - dst) \<and> l < unat (dst - src)"

lemma outside_offset:
  assumes "outside dst n src l" "i < n"
  shows "l < unat (dst + i - src)"
proof -
  have i: "unat i < unat n" using assms(2) by (simp add: word_less_nat_alt)
  have "dst \<noteq> src" using assms(1) by (auto simp: outside_def)
  then have "unat (src - dst) + unat (dst - src) = 2 ^ 32"
    using unat_bound[of src] unat_bound[of dst] by (auto simp: unat_sub_if' word_unat_eq_iff)
  then have u: "unat (dst - src) + unat i < 2 ^ 32" using assms(1) i unat_bound[of "dst - src"] by (simp add: outside_def)
  have "unat (dst + i - src) = unat ((dst - src) + i)" by (simp add: algebra_simps)
  also have "\<dots> = unat (dst - src) + unat i" using u by (simp add: unat_add_lem[THEN iffD1])
  finally have e: "unat (dst + i - src) = unat (dst - src) + unat i" .
  with assms(1) show ?thesis by (simp add: outside_def)
qed

lemma strncpy_pad_fill: "strncpy_pad m dst n i a = (if i \<le> a - dst \<and> a - dst < n then 0 else m a)"
proof (induction m dst n i rule: strncpy_pad.induct)
  case (1 m dst n i)
  show ?case
  proof (cases "i < n")
    case True
    then have "unat (i + 1) = unat i + 1" by (intro unat_inc[of _ n]) (simp add: word_less_nat_alt)
    then have "i + 1 \<le> a - dst \<longleftrightarrow> i \<le> a - dst \<and> a - dst \<noteq> i"
      by (auto simp: word_le_nat_alt word_unat_eq_iff)
    moreover have "a = dst + i \<longleftrightarrow> a - dst = i" by (auto simp: algebra_simps)
    ultimately show ?thesis unfolding strncpy_pad.simps[of m] using True by (auto simp: "1.IH"[OF True])
  qed (auto simp: strncpy_pad.simps[of m])
qed

lemma strncpy_copy_cstr:
  assumes "cstr m src xs" "outside dst n src (length xs)" "unat i \<le> length xs" "i \<le> n"
  shows "\<exists>m'. strncpy_copy m dst src n i = (m', of_nat (min (length xs) (unat n)))
    \<and> (\<forall>a. m' a = (if i \<le> a - dst \<and> unat (a - dst) < min (length xs) (unat n) then xs ! unat (a - dst) else m a))"
  using assms
proof (induction m dst src n i rule: strncpy_copy.induct)
  case (1 m dst src n i)
  have stop: "m (src + i) = 0 \<longleftrightarrow> unat i = length xs" by (rule cstr_at[OF "1.prems"(1,3)])
  show ?case
  proof (cases "i < n \<and> m (src + i) \<noteq> 0")
    case True
    then have l: "unat i < length xs" "unat i < unat n" using stop "1.prems"(3) by (auto simp: word_less_nat_alt)
    have s: "unat (i + 1) = unat i + 1" by (rule unat_inc[OF l(2)])
    have x: "m (src + i) = xs ! unat i" using cstr_nth[OF "1.prems"(1) l(1)] by simp
    have c: "cstr (m(dst + i := m (src + i))) src xs"
      using True outside_offset[OF "1.prems"(2)] by (intro cstr_upd "1.prems"(1)) simp
    have "i + 1 \<le> a - dst \<longleftrightarrow> i \<le> a - dst \<and> a - dst \<noteq> i" for a
      using s by (auto simp: word_le_nat_alt word_unat_eq_iff)
    moreover have "a = dst + i \<longleftrightarrow> a - dst = i" for a by (auto simp: algebra_simps)
    moreover have "unat (i + 1) \<le> length xs" "i + 1 \<le> n" using s l by (simp_all add: word_le_nat_alt)
    then obtain m' where "strncpy_copy (m(dst + i := m (src + i))) dst src n (i + 1) = (m', of_nat (min (length xs) (unat n)))"
      "\<forall>a. m' a = (if i + 1 \<le> a - dst \<and> unat (a - dst) < min (length xs) (unat n) then xs ! unat (a - dst)
         else (m(dst + i := m (src + i))) a)"
      using "1.IH"[OF True c "1.prems"(2)] by blast
    ultimately show ?thesis
      unfolding strncpy_copy.simps[of m] using True l x by (intro exI[of _ m']) auto
  next
    case False
    then have "unat i = min (length xs) (unat n)"
      using stop "1.prems"(3,4) by (auto simp: word_less_nat_alt word_le_nat_alt)
    then have "i = of_nat (min (length xs) (unat n))" "\<not> (i \<le> a - dst \<and> unat (a - dst) < min (length xs) (unat n))" for a
      by (auto simp: word_le_nat_alt simp flip: \<open>unat i = _\<close>)
    with False show ?thesis by (auto simp: strncpy_copy.simps[of m])
  qed
qed

lemma luna_strncpy_at:
  assumes c: "cstr m src xs" and "outside dst n src (length xs)"
  shows "luna_strncpy m dst src n a =
    (if a - dst < n then if unat (a - dst) < length xs then xs ! unat (a - dst) else 0 else m a)"
proof -
  let ?k = "min (length xs) (unat n)"
  obtain m1 where m1: "strncpy_copy m dst src n 0 = (m1, of_nat ?k)"
    "\<forall>a. m1 a = (if unat (a - dst) < ?k then xs ! unat (a - dst) else m a)"
    using strncpy_copy_cstr[OF assms, of 0] by auto
  have "unat (of_nat ?k :: u32) = ?k" using cstr_length[OF c] by (intro unat_of_nat_eq_32) simp
  with m1 show ?thesis
    by (auto simp: luna_strncpy_def strncpy_pad_fill word_le_nat_alt word_less_nat_alt)
qed

section \<open>Buffers\<close>

lemma strncpy_into_nth:
  assumes "n \<le> length buf" "i < length buf"
  shows "strncpy_into buf cs n ! i = (if i < n then if i < length cs then cs ! i else 0 else buf ! i)"
  using assms by (auto simp: strncpy_into_def nth_append min_def)

lemma strncpy_into_length: "n \<le> length buf \<Longrightarrow> length (strncpy_into buf cs n) = length buf"
  by (simp add: strncpy_into_def)

lemma strncpy_buffer:
  assumes "cstr m src xs" "outside dst n src (length xs)" "unat n \<le> k" "k \<le> 2 ^ 32"
  shows "load_bytes (luna_strncpy m dst src n) dst k = strncpy_into (load_bytes m dst k) xs (unat n)"
proof (rule nth_equalityI)
  show "length (load_bytes (luna_strncpy m dst src n) dst k) = length (strncpy_into (load_bytes m dst k) xs (unat n))"
    using assms(3) by (simp add: strncpy_into_length)
  fix i assume "i < length (load_bytes (luna_strncpy m dst src n) dst k)"
  then have i: "i < k" by simp
  then have "unat (of_nat i :: u32) = i" using assms(4) by (intro unat_of_nat_eq_32) simp
  then show "load_bytes (luna_strncpy m dst src n) dst k ! i = strncpy_into (load_bytes m dst k) xs (unat n) ! i"
    using i assms(3) by (simp add: load_bytes_nth strncpy_into_nth luna_strncpy_at[OF assms(1,2)] word_less_nat_alt)
qed

text \<open>The string that a buffer holds, read from memory.\<close>

lemma cstr_iff_nth:
  "cstr m p xs \<longleftrightarrow> (\<forall>i < length xs. m (p + of_nat i) = xs ! i \<and> xs ! i \<noteq> 0) \<and> m (p + of_nat (length xs)) = 0"
  using cstr_append[of m p xs "[]"] by simp

lemma cstr_chars:
  assumes "cstr m p xs" "length xs < k"
  shows "chars (load_bytes m p k) = xs"
proof -
  have "load_bytes m p k = xs @ 0 # drop (Suc (length xs)) (load_bytes m p k)"
  proof -
    have "load_bytes m p k = take (length xs) (load_bytes m p k) @ load_bytes m p k ! length xs # drop (Suc (length xs)) (load_bytes m p k)"
      using assms(2) by (intro id_take_nth_drop) simp
    moreover have "take (length xs) (load_bytes m p k) = xs"
      using assms cstr_nth[OF assms(1)] by (intro nth_equalityI) (simp_all add: load_bytes_nth)
    moreover have "load_bytes m p k ! length xs = 0" using assms cstr_end[OF assms(1)] by (simp add: load_bytes_nth)
    ultimately show ?thesis by simp
  qed
  then have "chars (load_bytes m p k) = chars (xs @ 0 # drop (Suc (length xs)) (load_bytes m p k))" by simp
  also have "\<dots> = xs" using cstr_no_zero[OF assms(1)] by (simp add: chars_def takeWhile_append takeWhile_tail)
  finally show ?thesis .
qed

lemma strncpy_cstr:
  assumes c: "cstr m src xs" and o: "outside dst n src (length xs)" and z: "m (dst + n) = 0"
  shows "cstr (luna_strncpy m dst src n) dst (take (unat n) xs)"
proof -
  note at = luna_strncpy_at[OF c o]
  let ?l = "min (length xs) (unat n)"
  have u: "unat (of_nat i :: u32) = i" if "i \<le> ?l" for i
    using that cstr_length[OF c] by (intro unat_of_nat_eq_32) simp
  have "luna_strncpy m dst src n (dst + of_nat ?l) = 0"
    using z u[of ?l] by (cases "length xs < unat n") (auto simp: at word_less_nat_alt min_def)
  moreover have "luna_strncpy m dst src n (dst + of_nat i) = take (unat n) xs ! i \<and> take (unat n) xs ! i \<noteq> 0" if "i < ?l" for i
    using that u[of i] cstr_nth[OF c, of i] by (simp add: at word_less_nat_alt)
  ultimately show ?thesis unfolding cstr_iff_nth by (simp add: min.commute)
qed

section \<open>Concatenation\<close>

lemma strcat_cstr:
  assumes d: "cstr m dst xs" and s: "cstr m src ys" and len: "length xs + length ys < 2 ^ 32"
    and apart: "length ys < unat (dst + of_nat (length xs) - src)"
  shows "luna_strcat m dst src = Some (store_bytes m (dst + of_nat (length xs)) (ys @ [0]))"
    "cstr (store_bytes m (dst + of_nat (length xs)) (ys @ [0])) dst (xs @ ys)"
proof -
  let ?e = "dst + of_nat (length xs)"
  show "luna_strcat m dst src = Some (store_bytes m ?e (ys @ [0]))"
    using strcpy_loop_cstr[OF s] apart by (simp add: luna_strcat_def luna_strlen_cstr[OF d])
  have "store_bytes m ?e (ys @ [0]) (dst + of_nat i) = xs ! i \<and> xs ! i \<noteq> 0" if "i < length xs" for i
  proof -
    have "unat (of_nat i - of_nat (length xs) :: u32) = 2 ^ 32 - (length xs - i)"
      using that len by (simp add: unat_sub_if' unat_of_nat_eq_32)
    then have "\<not> unat (of_nat i - of_nat (length xs) :: u32) < length (ys @ [0])" using that len by simp
    then show ?thesis using cstr_nth[OF d that] len by (simp add: store_bytes_lookup)
  qed
  moreover have "cstr (store_bytes m ?e (ys @ [0])) ?e ys"
    unfolding cstr_iff_nth using cstr_no_zero[OF s] len
    by (auto simp: store_bytes_lookup unat_of_nat_eq_32 nth_append in_set_conv_nth)
  ultimately show "cstr (store_bytes m ?e (ys @ [0])) dst (xs @ ys)" unfolding cstr_append by blast
qed

section \<open>Properties\<close>

text \<open>C24: On a buffer of \<^term>\<open>k\<close> bytes that a terminated string does not overlap, the two loops of
  \<^verbatim>\<open>luna_strncpy\<close> leave exactly what the update of a byte list leaves that the rest of the kernel is
  modelled with: the first \<^term>\<open>n\<close> characters, padded with zeros, and the rest of the buffer as it was; no byte
  outside the buffer changes. Read back as a C string from a buffer whose next byte is zero, it is the
  string cut to \<^term>\<open>n\<close> characters.\<close>

theorem strncpy_is_buffer_update:
  assumes "cstr m src xs" "outside dst n src (length xs)" "unat n < k" "k \<le> 2 ^ 32"
  shows "let m' = luna_strncpy m dst src n in
      load_bytes m' dst k = strncpy_into (load_bytes m dst k) xs (unat n)
    \<and> (\<forall>a. n \<le> a - dst \<longrightarrow> m' a = m a)
    \<and> (m (dst + n) = 0 \<longrightarrow> cstr m' dst (take (unat n) xs) \<and> chars (load_bytes m' dst k) = take (unat n) xs)"
proof -
  have "chars (load_bytes (luna_strncpy m dst src n) dst k) = take (unat n) xs" if "m (dst + n) = 0"
    using assms(3) by (intro cstr_chars[OF strncpy_cstr[OF assms(1,2) that]]) simp
  moreover have "luna_strncpy m dst src n a = m a" if "n \<le> a - dst" for a
    using that by (simp add: luna_strncpy_at[OF assms(1,2)] not_less[symmetric])
  ultimately show ?thesis
    using strncpy_buffer[OF assms(1,2) _ assms(4)] strncpy_cstr[OF assms(1,2)] assms(3) unfolding Let_def by simp
qed

theorem strncpy_is_buffer_update_witness:
  "cstr (luna_strncpy (store_bytes (\<lambda>_. 0) 64 (bytes_of ''init'')) 16 64 3) 16 (bytes_of ''ini'')"
  using strncpy_is_buffer_update[of "store_bytes (\<lambda>_. 0) 64 (bytes_of ''init'')" 64 "bytes_of ''init''" 16 3 4]
  by (simp add: bytes_of_def of_char_def outside_def Let_def)

end
