(* ===== verification/Arena.thy ===== *)
theory Arena
  imports C_String
begin

text \<open>
  The bump allocators of \<^verbatim>\<open>kernel/arena.c\<close>. An arena is a record over a pool of bytes; allocation
  advances a cursor, reset and restore move it back. The invariant keeps the cursor inside the pool
  and below the high-water mark; blocks handed out since the last reset do not overlap.
\<close>

section \<open>State and operations\<close>

definition ARENA_LANG_SIZE :: u32 where "ARENA_LANG_SIZE = 256 * 1024"

definition ARENA_AI_SIZE :: u32 where "ARENA_AI_SIZE = 512 * 1024"

definition ARENA_TMP_SIZE :: u32 where "ARENA_TMP_SIZE = 128 * 1024"

record Arena =
  pool :: u32
  capacity :: u32
  cursor :: u32
  high_watermark :: u32
  aname :: string
  alloc_count :: u32
  oom_count :: u32

record ArenaCheckpoint =
  cp_cursor :: u32
  cp_alloc_count :: u32

definition arena_init :: "mem \<Rightarrow> u32 \<Rightarrow> u32 \<Rightarrow> string \<Rightarrow> mem \<times> Arena" where
  "arena_init m p sz name =
     (luna_memset m p 0 sz,
      \<lparr>pool = p, capacity = sz, cursor = 0, high_watermark = 0, aname = name, alloc_count = 0, oom_count = 0\<rparr>)"

text \<open>The three global arenas over the addresses of their pools.\<close>

definition arena_global_init :: "mem \<Rightarrow> u32 \<Rightarrow> u32 \<Rightarrow> u32 \<Rightarrow> mem \<times> Arena \<times> Arena \<times> Arena" where
  "arena_global_init m lang_pool ai_pool tmp_pool =
     (let (m, l) = arena_init m lang_pool ARENA_LANG_SIZE ''lang'';
          (m, a) = arena_init m ai_pool ARENA_AI_SIZE ''ai'';
          (m, t) = arena_init m tmp_pool ARENA_TMP_SIZE ''tmp''
      in (m, l, a, t))"

definition arena_alloc :: "Arena \<Rightarrow> u32 \<Rightarrow> u32 \<times> Arena" where
  "arena_alloc a sz =
     (let aligned = (sz + 7) AND NOT 7 in
      if cursor a + aligned > capacity a then (0, a\<lparr>oom_count := oom_count a + 1\<rparr>)
      else
        let ptr = pool a + cursor a;
            a = a\<lparr>cursor := cursor a + aligned, alloc_count := alloc_count a + 1\<rparr>;
            a = (if cursor a > high_watermark a then a\<lparr>high_watermark := cursor a\<rparr> else a)
        in (ptr, a))"

definition arena_calloc :: "mem \<Rightarrow> Arena \<Rightarrow> u32 \<Rightarrow> u32 \<Rightarrow> u32 \<times> mem \<times> Arena" where
  "arena_calloc m a count elem_size =
     (let total = count * elem_size; (ptr, a) = arena_alloc a total
      in (ptr, if ptr \<noteq> 0 then luna_memset m ptr 0 total else m, a))"

definition arena_strdup :: "mem \<Rightarrow> Arena \<Rightarrow> u32 \<Rightarrow> (u32 \<times> mem \<times> Arena) option" where
  "arena_strdup m a str =
     (case luna_strlen m str of
        None \<Rightarrow> None
      | Some len \<Rightarrow>
          let (buf, a) = arena_alloc a (len + 1) in
          if buf = 0 then Some (0, m, a)
          else Some (buf, (luna_memcpy m buf str len)(buf + len := 0), a))"

definition arena_reset :: "Arena \<Rightarrow> Arena" where
  "arena_reset a = a\<lparr>cursor := 0, alloc_count := 0\<rparr>"

definition arena_save :: "Arena \<Rightarrow> ArenaCheckpoint" where
  "arena_save a = \<lparr>cp_cursor = cursor a, cp_alloc_count = alloc_count a\<rparr>"

definition arena_restore :: "Arena \<Rightarrow> ArenaCheckpoint \<Rightarrow> Arena" where
  "arena_restore a cp = a\<lparr>cursor := cp_cursor cp, alloc_count := cp_alloc_count cp\<rparr>"

definition arena_used :: "Arena \<Rightarrow> u32" where
  "arena_used a = cursor a"

definition arena_remaining :: "Arena \<Rightarrow> u32" where
  "arena_remaining a = capacity a - cursor a"

definition arena_watermark_pct :: "Arena \<Rightarrow> u32" where
  "arena_watermark_pct a =
     (if capacity a = 0 then 0
      else ucast (((ucast (high_watermark a) :: u64) * 100) div ucast (capacity a)))"

section \<open>Invariant\<close>

text \<open>The pool is an aligned object of the address space; the cursor is aligned and below the mark.\<close>

definition arena_inv :: "Arena \<Rightarrow> bool" where
  "arena_inv a \<longleftrightarrow> pool a \<noteq> 0 \<and> unat (pool a) mod 8 = 0 \<and> unat (pool a) + unat (capacity a) < 2 ^ 32
     \<and> unat (cursor a) mod 8 = 0 \<and> cursor a \<le> high_watermark a \<and> high_watermark a \<le> capacity a"

text \<open>The size really taken from the pool.\<close>

definition aligned_size :: "u32 \<Rightarrow> u32" where
  "aligned_size sz = (sz + 7) AND NOT 7"

lemma mask_3: "(7 :: u32) = mask 3"
  by (simp add: mask_eq_exp_minus_1)

lemma unat_aligned_size: "unat (aligned_size sz) = (unat sz + 7) mod 4294967296 div 8 * 8"
  using unat_and_not_mask[of "sz + 7" 3]
  by (simp add: aligned_size_def mask_3 [symmetric] unat_word_ariths)

lemma aligned_size_ok:
  assumes "sz \<le> 0xFFFFFFF8"
  shows "unat sz \<le> unat (aligned_size sz)" "unat (aligned_size sz) < unat sz + 8" "unat (aligned_size sz) mod 8 = 0"
proof -
  have "unat sz + 7 < 4294967296" using assms by (simp add: word_le_nat_alt)
  then have "unat (aligned_size sz) = (unat sz + 8 - 1) div 8 * 8" by (simp add: unat_aligned_size)
  with round_up_bounds[of 8 "unat sz"] show "unat sz \<le> unat (aligned_size sz)"
    "unat (aligned_size sz) < unat sz + 8" "unat (aligned_size sz) mod 8 = 0" by simp_all
qed

text \<open>The request fits behind the cursor, without wrap-around.\<close>

definition fits :: "Arena \<Rightarrow> u32 \<Rightarrow> bool" where
  "fits a sz \<longleftrightarrow> unat (cursor a) + unat (aligned_size sz) \<le> unat (capacity a)"

lemma arena_alloc_cases:
  assumes inv: "arena_inv a" and sz: "unat (cursor a) + unat (aligned_size sz) < 2 ^ 32"
  shows "arena_alloc a sz =
    (if fits a sz then
       (pool a + cursor a, a\<lparr>cursor := cursor a + aligned_size sz, alloc_count := alloc_count a + 1,
          high_watermark := max (high_watermark a) (cursor a + aligned_size sz)\<rparr>)
     else (0, a\<lparr>oom_count := oom_count a + 1\<rparr>))"
proof -
  have "unat (cursor a + aligned_size sz) = unat (cursor a) + unat (aligned_size sz)"
    using sz by (intro unat_add_lem[THEN iffD1]) simp
  then have f: "fits a sz \<longleftrightarrow> \<not> cursor a + aligned_size sz > capacity a"
    by (simp add: fits_def word_less_nat_alt not_less)
  show ?thesis
    unfolding arena_alloc_def aligned_size_def [symmetric] Let_def f
    by (cases "cursor a + aligned_size sz > capacity a"; cases "cursor a + aligned_size sz > high_watermark a")
      (auto simp: max_def)
qed

text \<open>Requests that cannot wrap around in an arena of at most 2 GiB.\<close>

definition sane :: "Arena \<Rightarrow> u32 \<Rightarrow> bool" where
  "sane a sz \<longleftrightarrow> capacity a \<le> 0x80000000 \<and> sz \<le> 0x7FFFFFF0"

lemma sane_no_wrap:
  assumes "arena_inv a" "sane a sz"
  shows "unat (cursor a) + unat (aligned_size sz) < 2 ^ 32" "sz \<le> 0xFFFFFFF8"
proof -
  show s: "sz \<le> 0xFFFFFFF8" using assms(2) by (simp add: sane_def word_le_nat_alt)
  have "unat (cursor a) \<le> 0x80000000" "unat sz \<le> 0x7FFFFFF0"
    using assms by (simp_all add: arena_inv_def sane_def word_le_nat_alt)
  with aligned_size_ok(2)[OF s] show "unat (cursor a) + unat (aligned_size sz) < 2 ^ 32" by simp
qed

lemma arena_alloc_Some:
  assumes inv: "arena_inv a" and s: "sane a sz" and f: "fits a sz"
  defines "p \<equiv> fst (arena_alloc a sz)" and "a' \<equiv> snd (arena_alloc a sz)"
  shows "arena_inv a'" "unat p = unat (pool a) + unat (cursor a)" "unat (cursor a') = unat (cursor a) + unat (aligned_size sz)"
    "pool a' = pool a" "capacity a' = capacity a" "p \<noteq> 0"
proof -
  note nw = sane_no_wrap[OF inv s] and al = aligned_size_ok[OF sane_no_wrap(2)[OF inv s]]
  note c = arena_alloc_cases[OF inv nw(1)]
  have sum: "unat (cursor a + aligned_size sz) = unat (cursor a) + unat (aligned_size sz)"
    using nw(1) by (intro unat_add_lem[THEN iffD1]) simp
  show cur: "unat (cursor a') = unat (cursor a) + unat (aligned_size sz)"
    using c f sum by (simp add: a'_def)
  show "pool a' = pool a" "capacity a' = capacity a" using c f by (simp_all add: a'_def)
  have "unat (pool a + cursor a) = unat (pool a) + unat (cursor a)"
    using inv f by (intro unat_add_lem[THEN iffD1]) (simp add: arena_inv_def fits_def)
  then show p: "unat p = unat (pool a) + unat (cursor a)" using c f by (simp add: p_def)
  have "0 < unat (pool a)" using inv by (simp add: arena_inv_def unat_gt_0)
  with p show "p \<noteq> 0" by auto
  have "8 dvd unat (cursor a) + unat (aligned_size sz)"
    using inv al(3) by (intro dvd_add) (simp_all add: arena_inv_def mod_0_imp_dvd)
  moreover have "max (high_watermark a) (cursor a + aligned_size sz) \<le> capacity a"
    using inv f sum by (intro max.boundedI) (simp_all add: arena_inv_def fits_def word_le_nat_alt)
  ultimately show "arena_inv a'" using inv c f sum by (simp add: a'_def arena_inv_def)
qed

lemma arena_alloc_None:
  assumes "arena_inv a" "sane a sz" "\<not> fits a sz"
  shows "arena_alloc a sz = (0, a\<lparr>oom_count := oom_count a + 1\<rparr>)" "arena_inv (a\<lparr>oom_count := oom_count a + 1\<rparr>)"
  using assms(1,3) arena_alloc_cases[OF assms(1) sane_no_wrap(1)[OF assms(1,2)]] by (simp_all add: arena_inv_def)

text \<open>A sequence of requests, and the blocks it returned.\<close>

fun arena_allocs :: "Arena \<Rightarrow> u32 list \<Rightarrow> (u32 \<times> u32) list \<times> Arena" where
  "arena_allocs a [] = ([], a)"
| "arena_allocs a (sz # szs) =
     (let (p, a) = arena_alloc a sz; (bs, a) = arena_allocs a szs in ((p, sz) # bs, a))"

definition disjoint_blocks :: "u32 \<times> u32 \<Rightarrow> u32 \<times> u32 \<Rightarrow> bool" where
  "disjoint_blocks = (\<lambda>(p, s) (q, t). unat p + unat s \<le> unat q \<or> unat q + unat t \<le> unat p)"

definition block_in :: "Arena \<Rightarrow> nat \<Rightarrow> nat \<Rightarrow> u32 \<times> u32 \<Rightarrow> bool" where
  "block_in a lo hi = (\<lambda>(p, s). unat (pool a) + lo \<le> unat p \<and> unat p + unat s \<le> unat (pool a) + hi \<and> unat p mod 8 = 0)"

lemma arena_allocs_ok:
  "arena_inv a \<Longrightarrow> \<forall>sz \<in> set szs. sane a sz \<Longrightarrow> arena_allocs a szs = (bs, a') \<Longrightarrow>
   arena_inv a' \<and> pool a' = pool a \<and> capacity a' = capacity a \<and> cursor a \<le> cursor a'
   \<and> (\<forall>b \<in> set bs. fst b \<noteq> 0 \<longrightarrow> block_in a (unat (cursor a)) (unat (cursor a')) b)
   \<and> sorted_wrt (\<lambda>b c. fst b \<noteq> 0 \<longrightarrow> fst c \<noteq> 0 \<longrightarrow> disjoint_blocks b c) bs"
proof (induction a szs arbitrary: bs a' rule: arena_allocs.induct)
  case (2 a sz szs)
  obtain p a1 where al: "arena_alloc a sz = (p, a1)" by fastforce
  obtain cs a2 where rest: "arena_allocs a1 szs = (cs, a2)" by fastforce
  have bs: "bs = (p, sz) # cs" "a' = a2" using 2(4) al rest by simp_all
  have s: "sane a sz" using 2(3) by simp
  show ?case
  proof (cases "fits a sz")
    case True
    note S = arena_alloc_Some[OF 2(2) s True, unfolded al, simplified]
    have "\<forall>x \<in> set szs. sane a1 x" using 2(3) S(5) by (simp add: sane_def)
    from 2(1)[OF al[symmetric] refl S(1) this rest]
    have R: "arena_inv a2" "pool a2 = pool a" "capacity a2 = capacity a" "cursor a1 \<le> cursor a2"
      "\<forall>b \<in> set cs. fst b \<noteq> 0 \<longrightarrow> block_in a (unat (cursor a1)) (unat (cursor a2)) b"
      "sorted_wrt (\<lambda>b c. fst b \<noteq> 0 \<longrightarrow> fst c \<noteq> 0 \<longrightarrow> disjoint_blocks b c) cs"
      using S(4,5) by (simp_all add: block_in_def)
    have fit: "unat p + unat sz \<le> unat (pool a) + unat (cursor a1)"
      using S(2,3) aligned_size_ok(1)[OF sane_no_wrap(2)[OF 2(2) s]] by simp
    have p8: "unat p mod 8 = 0"
    proof -
      have "8 dvd unat (pool a) + unat (cursor a)"
        using 2(2) by (intro dvd_add) (simp_all add: arena_inv_def mod_0_imp_dvd)
      with S(2) show ?thesis by simp
    qed
    have "cursor a \<le> cursor a1" using S(3) by (simp add: word_le_nat_alt)
    then have mono: "unat (cursor a) \<le> unat (cursor a1)" "unat (cursor a1) \<le> unat (cursor a2)"
      using R(4) by (simp_all add: word_le_nat_alt)
    have "disjoint_blocks (p, sz) c" if "c \<in> set cs" "fst c \<noteq> 0" for c
      using R(5) that fit by (auto simp: disjoint_blocks_def block_in_def)
    moreover have "block_in a (unat (cursor a)) (unat (cursor a2)) (p, sz)"
      using S(2) fit p8 mono by (simp add: block_in_def)
    moreover have "block_in a (unat (cursor a)) (unat (cursor a2)) b" if "b \<in> set cs" "fst b \<noteq> 0" for b
      using R(5) that mono by (auto simp: block_in_def)
    ultimately show ?thesis using R mono unfolding bs by (auto simp: word_le_nat_alt)
  next
    case False
    note N = arena_alloc_None[OF 2(2) s False]
    have a1: "a1 = a\<lparr>oom_count := oom_count a + 1\<rparr>" "p = 0" using N(1) al by simp_all
    have inv1: "arena_inv a1" using N(2) a1 by simp
    have "\<forall>x \<in> set szs. sane a1 x" using 2(3) a1 by (simp add: sane_def)
    from 2(1)[OF al[symmetric] refl inv1 this rest] show ?thesis
      unfolding bs using a1 by (simp add: block_in_def)
  qed
qed simp

text \<open>A string outside the pool.\<close>

definition outside_pool :: "Arena \<Rightarrow> u32 \<Rightarrow> nat \<Rightarrow> bool" where
  "outside_pool a str n \<longleftrightarrow> unat str + n < 2 ^ 32 \<and>
     (unat str + n < unat (pool a) \<or> unat (pool a) + unat (capacity a) \<le> unat str)"

lemma cstr_iff: "cstr m p xs \<longleftrightarrow>
    (\<forall>i < length xs. m (p + of_nat i) = xs ! i \<and> xs ! i \<noteq> 0) \<and> m (p + of_nat (length xs)) = 0"
  using cstr_append[of m p xs "[]"] by simp

lemma arena_strdup_ok:
  assumes inv: "arena_inv a" and s: "cstr m str xs" and sane: "sane a (of_nat (length xs) + 1)"
    and fit: "fits a (of_nat (length xs) + 1)" and out: "outside_pool a str (length xs)"
  obtains p m' a' where "arena_strdup m a str = Some (p, m', a')" "p = pool a + cursor a" "p \<noteq> 0" "arena_inv a'"
    "cstr m' p xs"
proof -
  let ?n = "of_nat (length xs) :: u32"
  have len: "length xs < 2 ^ 32" using cstr_length[OF s] by simp
  have un: "unat ?n = length xs" using len by (rule unat_of_nat_eq_32)
  obtain p a' where al: "arena_alloc a (?n + 1) = (p, a')" by fastforce
  note S = arena_alloc_Some[OF inv sane fit, unfolded al, simplified]
  have p: "p = pool a + cursor a"
    using arena_alloc_cases[OF inv sane_no_wrap(1)[OF inv sane]] fit al by simp
  have lens: "luna_strlen m str = Some ?n" using luna_strlen_cstr[OF s] .
  let ?m = "(luna_memcpy m p str ?n)(p + ?n := 0)"
  have dup: "arena_strdup m a str = Some (p, ?m, a')" using lens al S(6) by (simp add: arena_strdup_def)
  have room: "unat (cursor a) + length xs < unat (capacity a)"
  proof -
    have "0 < unat (pool a)" using inv by (simp add: arena_inv_def unat_gt_0)
    then have "length xs + 1 < 2 ^ 32" using out u32_bound[of "pool a"] by (auto simp: outside_pool_def)
    then have "unat (?n + 1) = length xs + 1" using un by (subst unat_add_lem[THEN iffD1]) simp_all
    then show ?thesis
      using aligned_size_ok(1)[OF sane_no_wrap(2)[OF inv sane]] fit by (simp add: fits_def)
  qed
  have up: "up_safe p str ?n"
    unfolding up_safe_def
  proof (rule disjI2)
    show "?n \<le> p - str"
      using out room S(2) un u32_bound[of str] u32_bound[of p]
      by (auto simp: outside_pool_def word_le_nat_alt unat_sub_if')
  qed
  have "cstr ?m p xs"
    unfolding cstr_iff
  proof (intro conjI allI impI)
    fix i assume i: "i < length xs"
    have ui: "unat (of_nat i :: u32) = i" using i len by (intro unat_of_nat_eq_32) simp
    have ne: "p + of_nat i \<noteq> p + ?n" using i ui un by auto
    have "of_nat i < ?n" using i ui un by (simp add: word_less_nat_alt)
    with ne show "?m (p + of_nat i) = xs ! i"
      using s i by (simp add: luna_memcpy_cpy[OF up] cpy_def cstr_iff)
    show "xs ! i \<noteq> 0" using s i by (simp add: cstr_iff)
  qed simp
  with that dup p S(1,6) show ?thesis by blast
qed

section \<open>Properties\<close>

definition sample_arena :: Arena where
  "sample_arena = \<lparr>pool = 0x10000, capacity = 0x40, cursor = 0, high_watermark = 0, aname = ''tmp'',
     alloc_count = 0, oom_count = 0\<rparr>"

lemma sample_arena_inv: "arena_inv sample_arena" "sane sample_arena 5" "sane sample_arena 20"
  by (simp_all add: arena_inv_def sane_def sample_arena_def)

text \<open>C11: Any sequence of requests below 2 GiB to an arena of at most 2 GiB keeps the invariant; every block
  it returns is eight-byte aligned and lies inside the pool, behind everything allocated before, and no
  two of the returned blocks overlap.\<close>

theorem arena_blocks_disjoint:
  assumes "arena_inv a" "\<forall>sz \<in> set szs. sane a sz"
  shows "case arena_allocs a szs of (bs, a') \<Rightarrow> arena_inv a'
    \<and> (\<forall>b \<in> set bs. fst b \<noteq> 0 \<longrightarrow> block_in a (unat (cursor a)) (unat (cursor a')) b)
    \<and> sorted_wrt (\<lambda>b c. fst b \<noteq> 0 \<longrightarrow> fst c \<noteq> 0 \<longrightarrow> disjoint_blocks b c) bs"
proof -
  obtain bs a' where r: "arena_allocs a szs = (bs, a')" by fastforce
  from arena_allocs_ok[OF assms r] show ?thesis by (simp add: r)
qed

theorem arena_blocks_disjoint_witness:
  "case arena_allocs sample_arena [5, 20] of (bs, a') \<Rightarrow> arena_inv a' \<and> bs = [(0x10000, 5), (0x10008, 20)]"
proof -
  have "fst (arena_allocs sample_arena [5, 20]) = [(0x10000, 5), (0x10008, 20)]" by code_simp
  with arena_blocks_disjoint[OF sample_arena_inv(1), of "[5, 20]"] sample_arena_inv(2,3) show ?thesis
    by (auto split: prod.splits)
qed

text \<open>\<^verbatim>\<open>arena_strdup\<close> of a terminated string outside the pool, with room for it, returns a pointer into
  the pool at which memory now holds a terminated copy of the string.\<close>

theorem arena_strdup_copies:
  assumes "arena_inv a" "cstr m str xs" "sane a (of_nat (length xs) + 1)" "fits a (of_nat (length xs) + 1)"
    "outside_pool a str (length xs)"
  shows "\<exists>m' a'. arena_strdup m a str = Some (pool a + cursor a, m', a') \<and> arena_inv a' \<and> cstr m' (pool a + cursor a) xs"
  using arena_strdup_ok[OF assms] by metis

theorem arena_strdup_copies_witness:
  "\<exists>m' a'. arena_strdup (store_bytes (\<lambda>_. 0) 16 (bytes_of ''ls'')) sample_arena 16 = Some (0x10000, m', a')
     \<and> cstr m' 0x10000 (bytes_of ''ls'')"
proof -
  have "aligned_size 3 = 8" by (simp add: aligned_size_def)
  then have "fits sample_arena 3" by (simp add: fits_def sample_arena_def)
  moreover have "cstr (store_bytes (\<lambda>_. 0) 16 (bytes_of ''ls'')) 16 (bytes_of ''ls'')"
    by (simp add: bytes_of_def of_char_def)
  moreover have "length (bytes_of ''ls'') = 2" by (simp add: bytes_of_def)
  ultimately show ?thesis
    using arena_strdup_copies[of sample_arena "store_bytes (\<lambda>_. 0) 16 (bytes_of ''ls'')" 16 "bytes_of ''ls''"]
      sample_arena_inv(1)
    by (auto simp: sane_def outside_pool_def sample_arena_def)
qed

text \<open>The size computation wraps: a request of \<open>0xFFFFFFF9\<close> bytes or more is rounded to zero and
  succeeds with a pointer to no bytes, and a request of \<open>0xFFFFFFF8\<close> moves a cursor of at least eight
  back by eight, so that the next allocation overlaps the last one.\<close>

theorem arena_huge_request:
  assumes "arena_inv a" "0xFFFFFFF8 \<le> sz" "8 \<le> cursor a"
  shows "fst (arena_alloc a sz) = pool a + cursor a
    \<and> cursor (snd (arena_alloc a sz)) = (if sz = 0xFFFFFFF8 then cursor a - 8 else cursor a)"
proof -
  have "unat sz = 4294967288 \<or> 4294967289 \<le> unat sz" using assms(2) by (simp add: word_le_nat_alt) linarith
  then have al: "aligned_size sz = (if sz = 0xFFFFFFF8 then - 8 else 0)"
  proof
    assume "unat sz = 4294967288"
    then have "sz = 0xFFFFFFF8" by (simp add: word_unat_eq_iff)
    then show ?thesis by (simp add: aligned_size_def)
  next
    assume s: "4294967289 \<le> unat sz"
    then have "(unat sz + 7) mod 4294967296 = unat sz + 7 - 4294967296"
      using u32_bound[of sz] by (subst le_mod_geq) auto
    with s u32_bound[of sz] have "unat (aligned_size sz) = 0" by (simp add: unat_aligned_size)
    moreover have "sz \<noteq> 0xFFFFFFF8" using s by auto
    ultimately show ?thesis by (simp add: unat_eq_0)
  qed
  have "cursor a - 8 \<le> cursor a" using assms(3) by (simp add: word_le_nat_alt unat_minus_numeral)
  moreover have "cursor a \<le> capacity a" using assms(1) by (auto simp: arena_inv_def)
  ultimately have "\<not> cursor a + aligned_size sz > capacity a" by (auto simp: al not_less)
  then have "fst (arena_alloc a sz) = pool a + cursor a \<and> cursor (snd (arena_alloc a sz)) = cursor a + aligned_size sz"
    unfolding arena_alloc_def aligned_size_def [symmetric] Let_def by simp
  then show ?thesis by (auto simp: al)
qed

theorem arena_huge_request_witness:
  "fst (arena_alloc (sample_arena\<lparr>cursor := 8, high_watermark := 8\<rparr>) 0xFFFFFFFF) = 0x10008"
  using arena_huge_request[of "sample_arena\<lparr>cursor := 8, high_watermark := 8\<rparr>" "0xFFFFFFFF"]
  by (simp add: sample_arena_def arena_inv_def)

end
