(* ===== verification/Lexer.thy ===== *)
theory Lexer
  imports Arena
begin

text \<open>
  The scripting language front end and the command router: \<^verbatim>\<open>user/lexer/token.h\<close>, \<^verbatim>\<open>lexer.c\<close> and
  \<^verbatim>\<open>parser.c\<close>. The lexer's statics are a record; positions are C \<^verbatim>\<open>int\<close>s, kept as integers whose increment
  faults beyond \<open>2\<^sup>31 - 1\<close>. Tokens are single characters, the parser reads them all and returns an empty
  program node from the language arena. String literals live at addresses given by the parameter \<open>lit\<close>.
\<close>

section \<open>Tokens\<close>

datatype TokenType =
    TOK_INT | TOK_FLOAT | TOK_STRING | TOK_TRUE | TOK_FALSE | TOK_NULL
  | TOK_IDENT
  | TOK_LET | TOK_FN | TOK_RETURN | TOK_IF | TOK_ELSE | TOK_ELIF
  | TOK_WHILE | TOK_FOR | TOK_IN | TOK_BREAK | TOK_CONTINUE
  | TOK_IMPORT | TOK_CLASS | TOK_SELF | TOK_NEW | TOK_DELETE
  | TOK_AND | TOK_OR | TOK_NOT
  | TOK_PLUS | TOK_MINUS | TOK_STAR | TOK_SLASH | TOK_PERCENT
  | TOK_EQ | TOK_NEQ | TOK_LT | TOK_LE | TOK_GT | TOK_GE
  | TOK_ASSIGN | TOK_PLUS_ASSIGN | TOK_MINUS_ASSIGN
  | TOK_STAR_ASSIGN | TOK_SLASH_ASSIGN
  | TOK_AMPERSAND | TOK_PIPE | TOK_CARET | TOK_TILDE
  | TOK_LSHIFT | TOK_RSHIFT
  | TOK_LPAREN | TOK_RPAREN | TOK_LBRACKET | TOK_RBRACKET
  | TOK_LBRACE | TOK_RBRACE
  | TOK_COMMA | TOK_DOT | TOK_COLON | TOK_SEMICOLON
  | TOK_ARROW
  | TOK_FAT_ARROW
  | TOK_NEWLINE
  | TOK_INDENT
  | TOK_DEDENT
  | TOK_EOF
  | TOK_ERROR

definition TOKEN_MAX_LEN :: nat where "TOKEN_MAX_LEN = 256"

record Token =
  ttype :: TokenType
  tline :: int
  tcol :: int
  as_str :: "u8 list"

section \<open>The lexer\<close>

record lexer =
  src :: u32
  pos :: int
  line :: int
  col :: int

definition lexer_init :: "u32 \<Rightarrow> lexer" where
  "lexer_init source = \<lparr>src = source, pos = 0, line = 1, col = 1\<rparr>"

definition cur :: "mem \<Rightarrow> lexer \<Rightarrow> u8" where
  "cur m l = m (src l + of_int (pos l))"

text \<open>\<^verbatim>\<open>pos++; col++\<close> on the lexer's \<^verbatim>\<open>int\<close>s.\<close>

definition inc_int :: "int \<Rightarrow> int result" where
  "inc_int i = (if i \<ge> 2147483647 then Inl SignedOverflow else Inr (i + 1))"

definition advance_ws :: "mem \<Rightarrow> lexer \<Rightarrow> lexer result" where
  "advance_ws m l =
     rbind (if cur m l = 0x0A then rbind (inc_int (line l)) (\<lambda>n. Inr (l\<lparr>line := n, col := 1\<rparr>))
            else rbind (inc_int (col l)) (\<lambda>c. Inr (l\<lparr>col := c\<rparr>))) (\<lambda>l.
     rbind (inc_int (pos l)) (\<lambda>p. Inr (l\<lparr>pos := p\<rparr>)))"

definition is_blank :: "u8 \<Rightarrow> bool" where
  "is_blank c \<longleftrightarrow> c = 0x20 \<or> c = 0x09 \<or> c = 0x0D"

lemma advance_ws_pos: "advance_ws m l = Inr l' \<Longrightarrow> pos l < pos l' \<and> pos l' \<le> 2147483647"
  by (auto simp: advance_ws_def inc_int_def rbind_Inr_iff split: if_splits)

function skip_ws :: "mem \<Rightarrow> lexer \<Rightarrow> lexer result" where
  "skip_ws m l =
     (if is_blank (cur m l) then (case advance_ws m l of Inl e \<Rightarrow> Inl e | Inr l \<Rightarrow> skip_ws m l) else Inr l)"
  by pat_completeness auto
termination
  by (relation "measure (\<lambda>(m, l). nat (2147483647 - pos l))") (auto dest: advance_ws_pos)

definition lexer_next_token :: "mem \<Rightarrow> lexer \<Rightarrow> (Token \<times> lexer) result" where
  "lexer_next_token m l =
     (let tok = \<lparr>ttype = TOK_EOF, tline = 0, tcol = 0, as_str = replicate TOKEN_MAX_LEN 0\<rparr> in
      rbind (skip_ws m l) (\<lambda>l.
        if cur m l = 0 then Inr (tok, l)
        else
          let tok = tok\<lparr>tline := line l, tcol := col l, ttype := TOK_IDENT,
                      as_str := (as_str tok)[0 := cur m l, 1 := 0]\<rparr> in
          rbind (inc_int (pos l)) (\<lambda>p. rbind (inc_int (col l)) (\<lambda>c. Inr (tok, l\<lparr>pos := p, col := c\<rparr>)))))"

declare skip_ws.simps [simp del]

section \<open>The parser\<close>

datatype AST_NodeType = AST_PROGRAM | AST_VAR_DECL | AST_FUNC_DECL | AST_BINARY_OP | AST_LITERAL

primrec node_code :: "AST_NodeType \<Rightarrow> u32" where
  "node_code AST_PROGRAM = 0"
| "node_code AST_VAR_DECL = 1"
| "node_code AST_FUNC_DECL = 2"
| "node_code AST_BINARY_OP = 3"
| "node_code AST_LITERAL = 4"

text \<open>The size of a node: type and two links, and the token with its type, line, column and 256 bytes.\<close>

definition AST_NODE_SIZE :: u32 where "AST_NODE_SIZE = 3 * 4 + (3 * 4 + 256)"

definition create_node :: "AST_NodeType \<Rightarrow> mem \<Rightarrow> Arena \<Rightarrow> u32 \<times> mem \<times> Arena" where
  "create_node t m a =
     (let (node, a) = arena_alloc a AST_NODE_SIZE in
      if node \<noteq> 0 then (node, store_u32 (luna_memset m node 0 AST_NODE_SIZE) node (node_code t), a)
      else (node, m, a))"

lemma skip_ws_pos: "skip_ws m l = Inr l' \<Longrightarrow> pos l \<le> pos l'"
proof (induction m l arbitrary: l' rule: skip_ws.induct)
  case (1 m l)
  show ?case
  proof (cases "is_blank (cur m l)")
    case True
    with "1.prems" obtain k where k: "advance_ws m l = Inr k" "skip_ws m k = Inr l'"
      by (auto simp: skip_ws.simps[of m l] split: sum.splits)
    from "1.IH"[OF True k] advance_ws_pos[OF k(1)] show ?thesis by simp
  qed (use "1.prems" in \<open>simp add: skip_ws.simps[of m l]\<close>)
qed

lemma next_token_pos:
  "lexer_next_token m l = Inr (t, l') \<Longrightarrow> ttype t \<noteq> TOK_EOF \<Longrightarrow> pos l < pos l' \<and> pos l' \<le> 2147483647"
  using skip_ws_pos[of m l]
  by (force simp: lexer_next_token_def Let_def rbind_Inr_iff inc_int_def split: if_splits)

text \<open>The loop of \<^verbatim>\<open>parser_parse\<close>, which drops every token up to the end of the source.\<close>

function parse_loop :: "mem \<Rightarrow> lexer \<Rightarrow> lexer result" where
  "parse_loop m l =
     (case lexer_next_token m l of
        Inl e \<Rightarrow> Inl e
      | Inr (t, l) \<Rightarrow> if ttype t = TOK_EOF \<or> ttype t = TOK_ERROR then Inr l else parse_loop m l)"
  by pat_completeness auto
termination
  by (relation "measure (\<lambda>(m, l). nat (2147483647 - pos l))") (auto dest!: next_token_pos)

declare parse_loop.simps [simp del]

definition parser_parse :: "u32 \<Rightarrow> mem \<Rightarrow> Arena \<Rightarrow> (u32 \<times> lexer \<times> mem \<times> Arena) result" where
  "parser_parse source m a =
     (let a = arena_reset a;
          l = lexer_init source;
          (root, m, a) = create_node AST_PROGRAM m a in
      if root = 0 then Inr (0, l, m, a)
      else rbind (parse_loop m l) (\<lambda>l. Inr (root, l, m, a)))"

section \<open>The command router\<close>

datatype CLI_Intent =
    INTENT_UNKNOWN | INTENT_LIST_FILES | INTENT_READ_FILE | INTENT_WRITE_FILE | INTENT_DELETE_FILE
  | INTENT_PROCESS_LIST | INTENT_SYSTEM_HALT | INTENT_AI_QUERY

text \<open>A chain of \<^verbatim>\<open>luna_strstr\<close> tests joined by \<^verbatim>\<open>||\<close>.\<close>

fun strstr_any :: "mem \<Rightarrow> (string \<Rightarrow> u32) \<Rightarrow> u32 \<Rightarrow> string list \<Rightarrow> bool option" where
  "strstr_any m lit cmd [] = Some False"
| "strstr_any m lit cmd (w # ws) =
     (case luna_strstr m cmd (lit w) of
        None \<Rightarrow> None
      | Some (Some _) \<Rightarrow> Some True
      | Some None \<Rightarrow> strstr_any m lit cmd ws)"

fun first_intent :: "mem \<Rightarrow> (string \<Rightarrow> u32) \<Rightarrow> u32 \<Rightarrow> (string list \<times> CLI_Intent) list \<Rightarrow> CLI_Intent option" where
  "first_intent m lit cmd [] = Some INTENT_UNKNOWN"
| "first_intent m lit cmd ((ws, i) # rest) =
     (case strstr_any m lit cmd ws of
        None \<Rightarrow> None
      | Some True \<Rightarrow> Some i
      | Some False \<Rightarrow> first_intent m lit cmd rest)"

definition intent_table :: "(string list \<times> CLI_Intent) list" where
  "intent_table =
     [([''list'', ''show files'', ''dir''], INTENT_LIST_FILES),
      ([''read'', ''show me the content'', ''cat''], INTENT_READ_FILE),
      ([''delete'', ''remove'', ''destroy''], INTENT_DELETE_FILE),
      ([''process'', ''tasks'', ''running''], INTENT_PROCESS_LIST),
      ([''shut down'', ''halt'', ''turn off''], INTENT_SYSTEM_HALT),
      ([''ask ai'', ''query'', ''help me understand''], INTENT_AI_QUERY)]"

definition lexer_identify_intent :: "mem \<Rightarrow> (string \<Rightarrow> u32) \<Rightarrow> u32 \<Rightarrow> CLI_Intent option" where
  "lexer_identify_intent m lit cmd = first_intent m lit cmd intent_table"

section \<open>The tokens of a source\<close>

text \<open>All tokens up to the end of the source, by repeated calls.\<close>

function lex_all :: "mem \<Rightarrow> lexer \<Rightarrow> (Token list \<times> lexer) result" where
  "lex_all m l =
     (case lexer_next_token m l of
        Inl e \<Rightarrow> Inl e
      | Inr (t, l) \<Rightarrow>
          if ttype t = TOK_EOF then Inr ([], l)
          else (case lex_all m l of Inl e \<Rightarrow> Inl e | Inr (ts, l) \<Rightarrow> Inr (t # ts, l)))"
  by pat_completeness auto
termination
  by (relation "measure (\<lambda>(m, l). nat (2147483647 - pos l))") (auto dest!: next_token_pos)

declare lex_all.simps [simp del]

text \<open>The token of one character.\<close>

definition char_token :: "u8 \<Rightarrow> int \<Rightarrow> int \<Rightarrow> Token" where
  "char_token c n k = \<lparr>ttype = TOK_IDENT, tline = n, tcol = k, as_str = c # replicate 255 0\<rparr>"

definition forward :: "lexer \<Rightarrow> lexer" where
  "forward l = l\<lparr>pos := pos l + 1, col := col l + 1\<rparr>"

lemma forward_simps [simp]:
  "pos (forward l) = pos l + 1" "col (forward l) = col l + 1" "line (forward l) = line l" "src (forward l) = src l"
  by (simp_all add: forward_def)

definition in_range :: "lexer \<Rightarrow> bool" where
  "in_range l \<longleftrightarrow> pos l < 2147483647 \<and> col l < 2147483647"

lemma next_token_blank:
  assumes "in_range l" "is_blank (cur m l)"
  shows "lexer_next_token m l = lexer_next_token m (forward l)"
proof -
  have "cur m l \<noteq> 0x0A" using assms(2) by (auto simp: is_blank_def)
  then have "advance_ws m l = Inr (forward l)"
    using assms(1) by (simp add: advance_ws_def inc_int_def in_range_def forward_def)
  then show ?thesis using assms(2) by (simp add: lexer_next_token_def skip_ws.simps[of m l])
qed

lemma next_token_char:
  assumes "in_range l" "\<not> is_blank (cur m l)" "cur m l \<noteq> 0"
  shows "lexer_next_token m l = Inr (char_token (cur m l) (line l) (col l), forward l)"
proof -
  have "replicate TOKEN_MAX_LEN 0 = (0 :: u8) # 0 # replicate 254 0" "replicate 255 0 = (0 :: u8) # replicate 254 0"
    by (simp_all add: TOKEN_MAX_LEN_def flip: replicate_Suc)
  then show ?thesis using assms
    by (simp add: lexer_next_token_def skip_ws.simps[of m l] Let_def inc_int_def in_range_def char_token_def forward_def)
qed

lemma next_token_end:
  assumes "cur m l = 0"
  shows "\<exists>t. lexer_next_token m l = Inr (t, l) \<and> ttype t = TOK_EOF"
  using assms by (simp add: lexer_next_token_def skip_ws.simps[of m l] is_blank_def Let_def)

text \<open>The parser's loop reads as far as all tokens reach.\<close>

lemma next_token_types: "lexer_next_token m l = Inr (t, l') \<Longrightarrow> ttype t = TOK_EOF \<or> ttype t = TOK_IDENT"
  by (auto simp: lexer_next_token_def Let_def rbind_Inr_iff split: if_splits)

lemma parse_loop_lex_all: "parse_loop m l = map_sum id snd (lex_all m l)"
proof (induction m l rule: parse_loop.induct)
  case (1 m l)
  show ?case
  proof (cases "lexer_next_token m l")
    case (Inr p)
    obtain t l1 where p: "p = (t, l1)" by (cases p)
    with Inr have nt: "lexer_next_token m l = Inr (t, l1)" by simp
    show ?thesis
    proof (cases "ttype t = TOK_EOF")
      case True
      then show ?thesis by (simp add: parse_loop.simps[of m l] lex_all.simps[of m l] nt)
    next
      case False
      with next_token_types[OF nt] have e: "\<not> (ttype t = TOK_EOF \<or> ttype t = TOK_ERROR)" by auto
      from e have "parse_loop m l = parse_loop m l1" by (simp add: parse_loop.simps[of m l] nt)
      also have "\<dots> = map_sum id snd (lex_all m l1)" by (rule "1.IH"[OF nt refl e])
      also have "\<dots> = map_sum id snd (lex_all m l)"
        using e by (simp add: lex_all.simps[of m l] nt split: sum.split prod.split)
      finally show ?thesis .
    qed
  qed (simp add: parse_loop.simps[of m l] lex_all.simps[of m l])
qed

definition visible :: "int \<Rightarrow> u8 list \<Rightarrow> (nat \<times> u8) list" where
  "visible k zs = filter (\<lambda>(i, c). \<not> is_blank c) (enumerate (nat k) zs)"

lemma lex_all_cstr:
  assumes "cstr m (src l + of_int (pos l)) zs" "0 \<le> pos l" "col l = pos l + 1"
    and "pos l + int (length zs) < 2147483647"
  shows "\<exists>l'. lex_all m l = Inr (map (\<lambda>(i, c). char_token c (line l) (int i + 1)) (visible (pos l) zs), l')
    \<and> pos l' = pos l + int (length zs) \<and> line l' = line l"
  using assms
proof (induction zs arbitrary: l)
  case Nil
  then have "cur m l = 0" by (simp add: cur_def)
  from next_token_end[OF this] show ?case by (auto simp: lex_all.simps[of m l] visible_def)
next
  case (Cons z zs)
  have z: "cur m l = z" "z \<noteq> 0" and r: "in_range l" using Cons.prems by (simp_all add: cur_def in_range_def)
  have n: "nat (pos l + 1) = Suc (nat (pos l))" using Cons.prems(2) by simp
  have "cstr m (src (forward l) + of_int (pos (forward l))) zs" using Cons.prems(1) by (simp add: add.assoc)
  from Cons.IH[OF this] Cons.prems obtain l' where
    IH: "lex_all m (forward l) = Inr (map (\<lambda>(i, c). char_token c (line l) (int i + 1)) (visible (pos l + 1) zs), l')"
    "pos l' = pos l + 1 + int (length zs)" "line l' = line l" by auto
  show ?case
  proof (cases "is_blank z")
    case True
    with z next_token_blank[OF r] have "lex_all m l = lex_all m (forward l)"
      by (simp add: lex_all.simps[of m l] lex_all.simps[of m "forward l"])
    with IH True n show ?thesis by (auto simp: visible_def)
  next
    case False
    with z next_token_char[OF r] have "lexer_next_token m l = Inr (char_token z (line l) (pos l + 1), forward l)"
      using Cons.prems(3) by simp
    with IH False n Cons.prems(2) show ?thesis
      by (simp add: lex_all.simps[of m l] visible_def) (simp add: char_token_def)
  qed
qed

section \<open>The program node\<close>

lemma create_program:
  assumes "arena_inv a" "capacity a \<le> 0x80000000" "280 \<le> capacity a" "cursor a = 0"
  shows "\<exists>a'. create_node AST_PROGRAM m a = (pool a, fill m (pool a) 0 280, a') \<and> arena_inv a' \<and> cursor a' = 280"
proof -
  have sz: "AST_NODE_SIZE = 280" "aligned_size 280 = 280" by (simp_all add: AST_NODE_SIZE_def aligned_size_def)
  have f: "sane a 280" "fits a 280" using assms(2-4) by (simp_all add: sane_def fits_def sz word_le_nat_alt)
  obtain p a' where al: "arena_alloc a 280 = (p, a')" by fastforce
  note S = arena_alloc_Some[OF assms(1) f, unfolded al, simplified]
  have "p = pool a" using S(2) assms(4) by (simp add: word_unat_eq_iff)
  moreover have "cursor a' = 280" using S(3) assms(4) sz(2) by (simp add: word_unat_eq_iff)
  moreover have "store_u32 (fill m (pool a) 0 280) (pool a) 0 = fill m (pool a) 0 280"
  proof -
    have "to_le 4 (0 :: u32) = [0, 0, 0, 0]" by code_simp
    then show ?thesis by (auto simp: fun_eq_iff store_u32_def fill_def)
  qed
  ultimately show ?thesis using al S(1,6) by (simp add: create_node_def sz luna_memset_fill)
qed

lemma cstr_fill:
  assumes "cstr m p xs" "\<forall>k \<le> length xs. \<not> p + of_nat k - q < n"
  shows "cstr (fill m q v n) p xs"
  using assms by (simp add: cstr_iff fill_def)

section \<open>The first matching intent\<close>

lemma strstr_any_cstr:
  assumes "cstr m cmd xs" "\<forall>w \<in> set ws. cstr m (lit w) (bytes_of w)"
  shows "strstr_any m lit cmd ws = Some (\<exists>w \<in> set ws. sublist (bytes_of w) xs)"
  using assms(2)
proof (induction ws)
  case (Cons w ws)
  then have "cstr m (lit w) (bytes_of w)" by simp
  note r = luna_strstr_cstr[OF assms(1) this] find_sub_None_iff[of "bytes_of w" xs]
  show ?case
  proof (cases "find_sub (bytes_of w) xs")
    case None
    with r Cons show ?thesis by simp
  next
    case (Some k)
    with r Cons show ?thesis by auto
  qed
qed simp

lemma first_intent_cstr:
  assumes "cstr m cmd xs" "\<forall>(ws, i) \<in> set tab. \<forall>w \<in> set ws. cstr m (lit w) (bytes_of w)"
  shows "first_intent m lit cmd tab =
    Some (case find (\<lambda>(ws, i). \<exists>w \<in> set ws. sublist (bytes_of w) xs) tab of Some (ws, i) \<Rightarrow> i | None \<Rightarrow> INTENT_UNKNOWN)"
  using assms(2)
proof (induction tab)
  case (Cons e tab)
  obtain ws i where "e = (ws, i)" by (cases e)
  with Cons strstr_any_cstr[OF assms(1), of ws lit] show ?case by auto
qed simp

section \<open>Properties\<close>

text \<open>C31: The parser terminates and reads its whole source. For a terminated source of fewer than \<open>2\<^sup>31 - 1\<close> bytes
  outside the arena, \<^verbatim>\<open>parser_parse\<close> returns the first block of the reset arena, cleared, as the program
  node; no other byte changes and the lexer stands at the terminator. The tokens it saw are exactly the
  characters other than blanks, tabs and carriage returns, in order, each an identifier of one character
  whose column is its offset plus one; all of them, also those after a line feed, are on line 1.\<close>

theorem parser_reads_source:
  assumes "cstr m source xs" "length xs < 2147483647"
    and "arena_inv a" "capacity a \<le> 0x80000000" "280 \<le> capacity a"
    and "\<forall>k \<le> length xs. \<not> source + of_nat k - pool a < 280"
  shows "\<exists>l a' ts. parser_parse source m a = Inr (pool a, l, fill m (pool a) 0 280, a') \<and> arena_inv a'
    \<and> cursor a' = 280 \<and> pos l = int (length xs) \<and> line l = 1
    \<and> lex_all (fill m (pool a) 0 280) (lexer_init source) = Inr (ts, l)
    \<and> ts = map (\<lambda>(i, c). char_token c 1 (int i + 1)) (filter (\<lambda>(i, c). \<not> is_blank c) (enumerate 0 xs))"
proof -
  let ?m = "fill m (pool a) 0 280" and ?l = "lexer_init source"
  have "arena_inv (arena_reset a)" "cursor (arena_reset a) = 0" "capacity (arena_reset a) = capacity a" "pool (arena_reset a) = pool a"
    using assms(3) by (simp_all add: arena_reset_def arena_inv_def)
  with create_program[of "arena_reset a" m] assms(4,5) obtain a' where
    c: "create_node AST_PROGRAM m (arena_reset a) = (pool a, ?m, a')" "arena_inv a'" "cursor a' = 280" by auto
  have "cstr ?m (src ?l + of_int (pos ?l)) xs" using cstr_fill[OF assms(1,6)] by (simp add: lexer_init_def)
  from lex_all_cstr[OF this] assms(2) obtain l where
    l: "lex_all ?m ?l = Inr (map (\<lambda>(i, c). char_token c 1 (int i + 1)) (visible 0 xs), l)" "pos l = int (length xs)" "line l = 1"
    by (auto simp: lexer_init_def)
  have "pool a \<noteq> 0" using assms(3) by (simp add: arena_inv_def)
  then have "parser_parse source m a = Inr (pool a, l, ?m, a')"
    using l by (simp add: parser_parse_def c parse_loop_lex_all)
  with c l show ?thesis by (auto simp: visible_def)
qed

definition source_mem :: mem where
  "source_mem = store_bytes (\<lambda>_. 0) 16 (bytes_of ''a b'')"

theorem parser_reads_source_witness:
  "\<exists>l a'. parser_parse 16 source_mem (sample_arena\<lparr>capacity := 512\<rparr>) = Inr (0x10000, l, fill source_mem 0x10000 0 280, a')
     \<and> lex_all (fill source_mem 0x10000 0 280) (lexer_init 16) = Inr ([char_token 0x61 1 1, char_token 0x62 1 3], l)"
proof -
  have b: "bytes_of ''a b'' = [0x61, 0x20, 0x62]" by (simp add: bytes_of_def of_char_def)
  have "cstr source_mem 16 [0x61, 0x20, 0x62]" by (simp add: source_mem_def b)
  moreover have "\<forall>k \<le> length [0x61, 0x20, 0x62 :: u8]. \<not> (16 :: u32) + of_nat k - 0x10000 < 280"
  proof (intro allI impI)
    fix k assume "k \<le> length [0x61, 0x20, 0x62 :: u8]"
    then have "k = 0 \<or> k = 1 \<or> k = 2 \<or> k = 3" by auto
    then show "\<not> (16 :: u32) + of_nat k - 0x10000 < 280" by auto
  qed
  ultimately show ?thesis
    using parser_reads_source[of source_mem 16 "[0x61, 0x20, 0x62]" "sample_arena\<lparr>capacity := 512\<rparr>"]
    by (auto simp: sample_arena_def arena_inv_def is_blank_def)
qed

text \<open>On a terminated command \<^verbatim>\<open>lexer_identify_intent\<close> returns the intent of the first row of its table that has
  a phrase occurring anywhere in the command, even inside a word, and the unknown intent when no row has
  one. No command is ever routed to the intent to write a file.\<close>

lemma intent_first_match:
  assumes "cstr m cmd xs" "\<forall>(ws, i) \<in> set intent_table. \<forall>w \<in> set ws. cstr m (lit w) (bytes_of w)"
  shows "\<exists>i. lexer_identify_intent m lit cmd = Some i \<and> i \<noteq> INTENT_WRITE_FILE
    \<and> i = (case find (\<lambda>(ws, i). \<exists>w \<in> set ws. sublist (bytes_of w) xs) intent_table of Some (ws, i) \<Rightarrow> i | None \<Rightarrow> INTENT_UNKNOWN)"
  using first_intent_cstr[OF assms] by (auto simp: lexer_identify_intent_def intent_table_def)

end
