(* ===== verification/Mem_Words.thy ===== *)
theory Mem_Words
  imports Mem_Ops
begin

text \<open>
  Reading and writing 32-bit words of the byte memory: what a load returns after a store or after
  \<^verbatim>\<open>luna_memset\<close>, for aligned addresses, and the decomposition of an address into a page and an
  offset that the paging and heap components share.
\<close>

section \<open>Aligned words\<close>

abbreviation aligned4 :: "u32 \<Rightarrow> bool" where
  "aligned4 p \<equiv> p AND 3 = 0"

lemma aligned_unat: "aligned4 p \<longleftrightarrow> unat p mod 4 = 0"
proof -
  have "p AND 3 = p AND mask 2" by (simp add: mask_eq_exp_minus_1)
  then show ?thesis using unat_and_mask[of p 2] by (simp add: unat_eq_0 [symmetric] del: unat_eq_0)
qed

lemma aligned_obtain:
  assumes "aligned4 p"
  obtains k where "unat p = 4 * k" "k < 1073741824"
proof -
  have "unat p = 4 * (unat p div 4)" using assms by (simp add: aligned_unat mod_0_imp_dvd)
  moreover have "unat p div 4 < 1073741824" using u32_bound[of p] by simp
  ultimately show ?thesis by (rule that)
qed

lemma aligned_diff:
  assumes "aligned4 p" "aligned4 q"
  shows "aligned4 (q - p)"
proof -
  have dvd: "4 dvd unat p" "4 dvd unat q" using assms by (simp_all add: aligned_unat mod_0_imp_dvd)
  have big: "4 dvd (4294967296 :: nat)" by simp
  have "4 dvd unat (q - p)"
  proof (cases "p \<le> q")
    case True
    with dvd show ?thesis by (simp add: unat_sub_if' word_le_nat_alt dvd_diff_nat)
  next
    case False
    have "4 dvd unat q + 4294967296 - unat p" using dvd big by (intro dvd_diff_nat dvd_add)
    with False show ?thesis by (simp add: unat_sub_if' word_le_nat_alt)
  qed
  then show ?thesis by (simp add: aligned_unat)
qed

lemma load_u32_store_same [mem_simps]: "load_u32 (store_u32 m p v) p = v"
proof -
  have "load_bytes (store_u32 m p v) p 4 = to_le 4 v"
  proof (rule nth_equalityI)
    fix i assume "i < length (load_bytes (store_u32 m p v) p 4)"
    then have i: "i < 4" by simp
    then have "unat (p + of_nat i - p) = i" by (simp add: unat_of_nat_eq_32)
    with i show "load_bytes (store_u32 m p v) p 4 ! i = to_le 4 v ! i"
      by (simp add: load_bytes_nth store_u32_def store_bytes_lookup)
  qed simp
  then show ?thesis by (simp add: load_u32_def of_le_to_le)
qed

text \<open>A load depends only on the four bytes it reads.\<close>

lemma load_u32_cong:
  assumes "\<And>i. i < 4 \<Longrightarrow> m (p + of_nat i) = m' (p + of_nat i)"
  shows "load_u32 m p = load_u32 m' p"
proof -
  have "load_bytes m p 4 = load_bytes m' p 4"
    by (rule nth_equalityI) (simp_all add: load_bytes_nth assms)
  then show ?thesis by (simp add: load_u32_def)
qed

lemma word_bytes_apart:
  assumes "aligned4 p" "aligned4 q" "p \<noteq> q" "i < 4"
  shows "4 \<le> unat (q + of_nat i - p)"
proof -
  obtain k where k: "unat (q - p) = 4 * k" "k < 1073741824"
    by (rule aligned_obtain[OF aligned_diff[OF assms(1,2)]])
  have nz: "unat (q - p) \<noteq> 0" using assms(3) by (simp add: unat_eq_0)
  have i: "unat (of_nat i :: u32) = i" using assms(4) by (intro unat_of_nat_eq_32) simp
  have sum: "unat (q - p + of_nat i) = unat (q - p) + unat (of_nat i :: u32)"
    using k assms(4) i by (intro unat_add_lem[THEN iffD1]) simp
  have eq: "q + of_nat i - p = q - p + of_nat i" by simp
  show ?thesis unfolding eq sum using k nz by simp
qed

lemma load_u32_store_other [mem_simps]:
  assumes "aligned4 p" "aligned4 q" "p \<noteq> q"
  shows "load_u32 (store_u32 m p v) q = load_u32 m q"
  using word_bytes_apart[OF assms]
  by (intro load_u32_cong) (fastforce simp: store_u32_def store_bytes_lookup)

section \<open>Pages\<close>

definition page :: "u32 \<Rightarrow> u32" where
  "page p = p AND NOT 0xFFF"

lemma mask_12: "(0xFFF :: u32) = mask 12"
  by (simp add: mask_eq_exp_minus_1)

lemma unat_page: "unat (page p) = unat p div 4096 * 4096"
  by (simp add: page_def mask_12 unat_and_not_mask)

lemma page_page [simp]: "page (page p) = page p"
  by (simp add: word_unat_eq_iff unat_page)

lemma page_eq_iff: "page p = page q \<longleftrightarrow> unat p div 4096 = unat q div 4096"
  by (simp add: word_unat_eq_iff unat_page)

lemma page_obtain:
  assumes "page t = t"
  obtains k where "unat t = 4096 * k" "k < 1048576"
proof -
  have "unat t = 4096 * (unat t div 4096)" using assms unat_page[of t] by simp
  moreover have "unat t div 4096 < 1048576" using u32_bound[of t] by (simp add: less_mult_imp_div_less)
  ultimately show ?thesis by (rule that)
qed

lemma div_page: "r < 4096 \<Longrightarrow> (4096 * k + r) div 4096 = (k :: nat)"
  by simp

text \<open>The entry \<open>i\<close> of the table in page \<open>t\<close>.\<close>

definition entry :: "u32 \<Rightarrow> u32 \<Rightarrow> u32" where
  "entry t i = t + 4 * i"

lemma entry_unat:
  assumes "page t = t" "i < 1024"
  shows "unat (entry t i) = unat t + 4 * unat i" and "unat i < 1024"
proof -
  obtain k where k: "unat t = 4096 * k" "k < 1048576" by (rule page_obtain[OF assms(1)])
  show i: "unat i < 1024" using assms(2) by (simp add: word_less_nat_alt)
  have m: "unat (4 * i) = 4 * unat i" using i by (subst unat_mult_lem[THEN iffD1]) simp_all
  then have "unat t + unat (4 * i) < 2 ^ 32" using k i by simp
  with m show "unat (entry t i) = unat t + 4 * unat i"
    unfolding entry_def by (subst unat_add_lem[THEN iffD1]) simp_all
qed

lemma entry_aligned:
  assumes "page t = t" "i < 1024"
  shows "aligned4 (entry t i)"
proof -
  obtain k where "unat t = 4096 * k" "k < 1048576" by (rule page_obtain[OF assms(1)])
  then have "unat (entry t i) = 4 * (1024 * k + unat i)" using entry_unat(1)[OF assms] by simp
  then show ?thesis by (simp only: aligned_unat mod_mult_self1_is_0)
qed

lemma page_entry:
  assumes "page t = t" "i < 1024"
  shows "page (entry t i) = t"
proof -
  obtain k where k: "unat t = 4096 * k" "k < 1048576" by (rule page_obtain[OF assms(1)])
  have "unat (page (entry t i)) = (4096 * k + 4 * unat i) div 4096 * 4096"
    using entry_unat(1)[OF assms] k by (simp only: unat_page)
  also have "\<dots> = unat t" using div_page[of "4 * unat i" k] entry_unat(2)[OF assms] k by simp
  finally show ?thesis by (simp add: word_unat_eq_iff)
qed

lemma entry_eq_iff:
  assumes "page t = t" "i < 1024" "page u = u" "j < 1024"
  shows "entry t i = entry u j \<longleftrightarrow> t = u \<and> i = j"
proof
  assume e: "entry t i = entry u j"
  have "t = u" using page_entry[OF assms(1,2)] page_entry[OF assms(3,4)] e by simp
  moreover have "unat i = unat j"
    using entry_unat[OF assms(1,2)] entry_unat[OF assms(3,4)] e calculation by simp
  ultimately show "t = u \<and> i = j" by (simp add: word_unat_eq_iff)
qed simp

text \<open>Clearing a page.\<close>

lemma in_page_iff:
  assumes "page t = t"
  shows "q - t < 4096 \<longleftrightarrow> page q = t"
proof -
  obtain k where k: "unat t = 4096 * k" "k < 1048576" by (rule page_obtain[OF assms(1)])
  have "unat (q - t) < 4096 \<longleftrightarrow> 4096 * k \<le> unat q \<and> unat q < 4096 * k + 4096"
    using k u32_bound[of q] by (auto simp: unat_sub_if' word_le_nat_alt)
  also have "\<dots> \<longleftrightarrow> unat q div 4096 = k"
    using div_page[of "unat q - 4096 * k" k] by (auto simp: mult.commute dividend_less_times_div)
  also have "\<dots> \<longleftrightarrow> page q = t" using k by (simp add: word_unat_eq_iff unat_page)
  finally show ?thesis by (simp add: word_less_nat_alt)
qed

lemma page_add_aligned:
  assumes "aligned4 p" "i < 4"
  shows "page (p + of_nat i) = page p"
proof -
  obtain k where k: "unat p = 4 * k" "k < 1073741824" by (rule aligned_obtain[OF assms(1)])
  have i: "unat (of_nat i :: u32) = i" using assms(2) by (intro unat_of_nat_eq_32) simp
  have "unat (p + of_nat i) = unat p + unat (of_nat i :: u32)"
    using assms i k by (intro unat_add_lem[THEN iffD1]) simp
  then have u: "unat (p + of_nat i) = 4 * k + i" using k i by simp
  have "(4 * k + i) div 4096 = (4 * k + i) div 4 div 1024" by (simp add: div_mult2_eq [symmetric])
  also have "(4 * k + i) div 4 = k" using assms(2) by simp
  also have "k div 1024 = (4 * k) div 4096" by simp
  finally show ?thesis using u k by (simp add: page_eq_iff)
qed

lemma load_u32_memset_page [mem_simps]:
  assumes "page t = t" "aligned4 p"
  shows "load_u32 (luna_memset m t 0 4096) p = (if page p = t then 0 else load_u32 m p)"
proof (cases "page p = t")
  case True
  have "load_bytes (luna_memset m t 0 4096) p 4 = replicate 4 0"
  proof (rule nth_equalityI)
    fix i assume "i < length (load_bytes (luna_memset m t 0 4096) p 4)"
    then show "load_bytes (luna_memset m t 0 4096) p 4 ! i = replicate 4 0 ! i"
      using page_add_aligned[OF assms(2), of i] True
      by (simp add: load_bytes_nth luna_memset_fill fill_def in_page_iff[OF assms(1)])
  qed simp
  then show ?thesis using True by (simp add: load_u32_def numeral_eq_Suc)
next
  case False
  then have "load_u32 (luna_memset m t 0 4096) p = load_u32 m p"
    using page_add_aligned[OF assms(2)]
    by (intro load_u32_cong) (simp add: luna_memset_fill fill_def in_page_iff[OF assms(1)])
  with False show ?thesis by simp
qed

text \<open>Writes stay in their page.\<close>

lemma store_u32_page:
  assumes "aligned4 p" "page q \<noteq> page p"
  shows "store_u32 m p v q = m q"
proof -
  have "\<not> unat (q - p) < 4"
  proof
    assume "unat (q - p) < 4"
    then have "page (p + of_nat (unat (q - p))) = page p" by (intro page_add_aligned assms(1))
    with assms(2) show False by simp
  qed
  then show ?thesis by (simp add: store_u32_def store_bytes_lookup)
qed

lemma memset_page: "page t = t \<Longrightarrow> page q \<noteq> t \<Longrightarrow> luna_memset m t v 4096 q = m q"
  by (simp add: luna_memset_fill fill_def in_page_iff)

lemma load_zero: "load_u32 (\<lambda>_. 0) p = 0"
  by (simp add: load_u32_def numeral_eq_Suc)

end
