(* ===== verification/Framebuffer.thy ===== *)
theory Framebuffer
  imports Mem_Words
begin

text \<open>
  Pixels: the linear framebuffer \<^verbatim>\<open>drivers/gfx/framebuffer.c\<close>, the font renderer \<^verbatim>\<open>drivers/gfx/font.c\<close> and
  the flush routine of \<^verbatim>\<open>drivers/gfx/lvgl_bridge.c\<close>. All of them draw with \<^verbatim>\<open>fb_put_pixel\<close>; the locale
  \<open>canvas\<close> says what a pixel store promises, and that drawing a list of pixels leaves each position with
  the last colour drawn there.
\<close>

section \<open>Counting loops\<close>

text \<open>\<^verbatim>\<open>for (i = a; i < limit; i++)\<close> over \<^verbatim>\<open>uint32_t\<close>; the limit is evaluated before each round.\<close>

function for_loop :: "u32 \<Rightarrow> ('s \<Rightarrow> u32) \<Rightarrow> (u32 \<Rightarrow> 's \<Rightarrow> 's) \<Rightarrow> 's \<Rightarrow> 's" where
  "for_loop i lim body s = (if i < lim s then for_loop (i + 1) lim body (body i s) else s)"
  by pat_completeness auto
termination
proof (relation "measure (\<lambda>(i, lim, body, s). 2 ^ 32 - unat i)", simp, goal_cases)
  case (1 i lim body s)
  then have "unat (i + 1) = unat i + 1" using unat_inc[of i "lim s"] by (simp add: word_less_nat_alt)
  with u32_bound[of i] show ?case by simp
qed

declare for_loop.simps [simp del]

section \<open>The framebuffer\<close>

record framebuffer =
  fb_ptr :: u32
  lfb_pitch :: u32
  lfb_width :: u32
  lfb_height :: u32
  lfb_bpp :: u8

definition fb_init :: "u32 \<Rightarrow> u32 \<Rightarrow> u32 \<Rightarrow> u32 \<Rightarrow> u8 \<Rightarrow> framebuffer" where
  "fb_init addr pitch w h bpp = \<lparr>fb_ptr = addr, lfb_pitch = pitch, lfb_width = w, lfb_height = h, lfb_bpp = bpp\<rparr>"

definition fb_put_pixel :: "framebuffer \<Rightarrow> u32 \<Rightarrow> u32 \<Rightarrow> u32 \<Rightarrow> mem \<Rightarrow> mem" where
  "fb_put_pixel fb x y color m =
     (if x \<ge> lfb_width fb \<or> y \<ge> lfb_height fb \<or> fb_ptr fb = 0 then m
      else
        let offset = (y * lfb_pitch fb) div 4 + x
        in store_u32 m (fb_ptr fb + offset * 4) color)"

definition fb_fill_rect :: "framebuffer \<Rightarrow> u32 \<Rightarrow> u32 \<Rightarrow> u32 \<Rightarrow> u32 \<Rightarrow> u32 \<Rightarrow> mem \<Rightarrow> mem" where
  "fb_fill_rect fb x y w h color m =
     for_loop y (\<lambda>_. y + h) (\<lambda>cy. for_loop x (\<lambda>_. x + w) (\<lambda>cx. fb_put_pixel fb cx cy color)) m"

definition fb_clear :: "framebuffer \<Rightarrow> u32 \<Rightarrow> mem \<Rightarrow> mem" where
  "fb_clear fb color m = fb_fill_rect fb 0 0 (lfb_width fb) (lfb_height fb) color m"

definition fb_get_width :: "framebuffer \<Rightarrow> u32" where
  "fb_get_width fb = lfb_width fb"

definition fb_get_height :: "framebuffer \<Rightarrow> u32" where
  "fb_get_height fb = lfb_height fb"

section \<open>The font\<close>

definition PSF2_MAGIC :: u32 where "PSF2_MAGIC = 0x864ab572"

text \<open>The fields of a font header that the renderer reads, in memory at the address of the header.\<close>

definition psf_header_size :: "u32 \<Rightarrow> mem \<Rightarrow> u32" where "psf_header_size hdr m = load_u32 m (hdr + 8)"
definition psf_char_size :: "u32 \<Rightarrow> mem \<Rightarrow> u32" where "psf_char_size hdr m = load_u32 m (hdr + 20)"
definition psf_height :: "u32 \<Rightarrow> mem \<Rightarrow> u32" where "psf_height hdr m = load_u32 m (hdr + 24)"
definition psf_width :: "u32 \<Rightarrow> mem \<Rightarrow> u32" where "psf_width hdr m = load_u32 m (hdr + 28)"

text \<open>\<^verbatim>\<open>font_hdr\<close> is the argument \<open>hdr\<close>, zero for NULL.\<close>

definition font_init :: "mem \<Rightarrow> u32 \<Rightarrow> u32 \<Rightarrow> u32" where
  "font_init m psf2_binary hdr = (if load_u32 m psf2_binary = PSF2_MAGIC then psf2_binary else hdr)"

text \<open>A \<^verbatim>\<open>char\<close> is signed: the glyph offset of a byte from 0x80 on is negative.\<close>

definition glyph_addr :: "u32 \<Rightarrow> u8 \<Rightarrow> mem \<Rightarrow> u32" where
  "glyph_addr hdr c m = hdr + psf_header_size hdr m + scast c * psf_char_size hdr m"

definition glyph_bit :: "u32 \<Rightarrow> u32 \<Rightarrow> u32 \<Rightarrow> u32 \<Rightarrow> mem \<Rightarrow> bool" where
  "glyph_bit glyph pitch cx cy m \<longleftrightarrow> drop_bit (unat (7 - cx mod 8)) (m (glyph + (cy * pitch + cx div 8))) AND 1 \<noteq> 0"

definition font_draw_char :: "framebuffer \<Rightarrow> u32 \<Rightarrow> u32 \<Rightarrow> u32 \<Rightarrow> u8 \<Rightarrow> u32 \<Rightarrow> u32 \<Rightarrow> mem \<Rightarrow> mem" where
  "font_draw_char fb hdr x y c fg_color bg_color m =
     (if hdr = 0 then m
      else
        let glyph = glyph_addr hdr c m; pitch = (psf_width hdr m + 7) div 8 in
        for_loop 0 (psf_height hdr) (\<lambda>cy. for_loop 0 (psf_width hdr) (\<lambda>cx m.
          if glyph_bit glyph pitch cx cy m then fb_put_pixel fb (x + cx) (y + cy) fg_color m
          else if bg_color \<noteq> 0 then fb_put_pixel fb (x + cx) (y + cy) bg_color m
          else m)) m)"

partial_function (option) font_draw_string ::
  "framebuffer \<Rightarrow> u32 \<Rightarrow> u32 \<Rightarrow> u32 \<Rightarrow> u32 \<Rightarrow> u32 \<Rightarrow> u32 \<Rightarrow> mem \<Rightarrow> mem option" where
  [code]: "font_draw_string fb hdr cursor_x y str fg_color bg_color m =
     (if m str = 0 then Some m
      else
        let m = font_draw_char fb hdr cursor_x y (m str) fg_color bg_color m
        in font_draw_string fb hdr (cursor_x + (if hdr \<noteq> 0 then psf_width hdr m else 8)) y (str + 1) fg_color bg_color m)"

section \<open>The flush of the widget library\<close>

text \<open>The loops over signed coordinates; incrementing the largest one overflows. The pointer to the colours
  travels with the memory. \<open>ready\<close> stands for the notification of the library.\<close>

function flush_row :: "framebuffer \<Rightarrow> int \<Rightarrow> int \<Rightarrow> int \<Rightarrow> u32 \<times> mem \<Rightarrow> (u32 \<times> mem) result" where
  "flush_row fb y x x2 pm =
     (if x \<le> x2 then
        let (p, m) = pm; m = fb_put_pixel fb (of_int x) (of_int y) (load_u32 m p) m in
        if x = 2147483647 then Inl SignedOverflow else flush_row fb y (x + 1) x2 (p + 4, m)
      else Inr pm)"
  by pat_completeness auto
termination by (relation "measure (\<lambda>(fb, y, x, x2, pm). nat (x2 + 1 - x))") auto

function flush_rows :: "framebuffer \<Rightarrow> int \<Rightarrow> int \<Rightarrow> int \<Rightarrow> int \<Rightarrow> u32 \<times> mem \<Rightarrow> (u32 \<times> mem) result" where
  "flush_rows fb x1 y x2 y2 pm =
     (if y \<le> y2 then
        (case flush_row fb y x1 x2 pm of
           Inl e \<Rightarrow> Inl e
         | Inr pm \<Rightarrow> if y = 2147483647 then Inl SignedOverflow else flush_rows fb x1 (y + 1) x2 y2 pm)
      else Inr pm)"
  by pat_completeness auto
termination by (relation "measure (\<lambda>(fb, x1, y, x2, y2, pm). nat (y2 + 1 - y))") auto

definition luna_lvgl_flush :: "(mem \<Rightarrow> mem) \<Rightarrow> framebuffer \<Rightarrow> int \<Rightarrow> int \<Rightarrow> int \<Rightarrow> int \<Rightarrow> u32 \<Rightarrow> mem \<Rightarrow> mem result" where
  "luna_lvgl_flush ready fb x1 y1 x2 y2 color_p m =
     rbind (flush_rows fb x1 y1 x2 y2 (color_p, m)) (\<lambda>(p, m). Inr (ready m))"

declare flush_row.simps [simp del] flush_rows.simps [simp del]

section \<open>Drawing on a canvas\<close>

text \<open>A sequence of pixels, the last one drawn at a position wins.\<close>

type_synonym pixels = "(u32 \<times> u32 \<times> u32) list"

definition last_colour :: "pixels \<Rightarrow> u32 \<Rightarrow> u32 \<Rightarrow> u32 \<Rightarrow> u32" where
  "last_colour ps x y d = fold (\<lambda>(px, py, c) d. if px = x \<and> py = y then c else d) ps d"

lemma last_colour_simps [simp]:
  "last_colour [] x y d = d"
  "last_colour ((px, py, c) # ps) x y d = last_colour ps x y (if px = x \<and> py = y then c else d)"
  "last_colour (ps @ qs) x y d = last_colour qs x y (last_colour ps x y d)"
  by (simp_all add: last_colour_def)

text \<open>When all pixels drawn at a position have one colour, their order does not matter.\<close>

lemma last_colour_same:
  "\<forall>c. (x, y, c) \<in> set ps \<longrightarrow> c = k \<Longrightarrow> last_colour ps x y d = (if (\<exists>c. (x, y, c) \<in> set ps) then k else d)"
proof (induction ps arbitrary: d)
  case (Cons p ps)
  obtain px py c where "p = (px, py, c)" by (cases p)
  with Cons show ?case by auto
qed simp

definition draw :: "(u32 \<Rightarrow> u32 \<Rightarrow> u32 \<Rightarrow> 'm \<Rightarrow> 'm) \<Rightarrow> pixels \<Rightarrow> 'm \<Rightarrow> 'm" where
  "draw put ps m = fold (\<lambda>(px, py, c). put px py c) ps m"

lemma draw_simps [simp]:
  "draw put [] m = m"
  "draw put ((px, py, c) # ps) m = draw put ps (put px py c m)"
  "draw put (ps @ qs) m = draw put qs (draw put ps m)"
  by (simp_all add: draw_def)

text \<open>What a pixel store promises of the positions inside, and what it leaves alone.\<close>

locale canvas =
  fixes inside :: "u32 \<Rightarrow> u32 \<Rightarrow> bool" and get :: "'m \<Rightarrow> u32 \<Rightarrow> u32 \<Rightarrow> u32" and put :: "u32 \<Rightarrow> u32 \<Rightarrow> u32 \<Rightarrow> 'm \<Rightarrow> 'm"
    and outer :: "'m \<Rightarrow> 'o"
  assumes get_put: "inside x y \<Longrightarrow> get (put px py c m) x y = (if px = x \<and> py = y then c else get m x y)"
    and outer_put: "outer (put px py c m) = outer m"
begin

lemma get_draw: "inside x y \<Longrightarrow> get (draw put ps m) x y = last_colour ps x y (get m x y)"
proof (induction ps arbitrary: m)
  case (Cons p ps)
  obtain px py c where "p = (px, py, c)" by (cases p)
  with Cons show ?case by (simp add: get_put)
qed simp

lemma outer_draw: "outer (draw put ps m) = outer m"
proof (induction ps arbitrary: m)
  case (Cons p ps)
  obtain px py c where "p = (px, py, c)" by (cases p)
  with Cons show ?case by (simp add: outer_put)
qed simp

end

section \<open>The framebuffer is a canvas\<close>

text \<open>The framebuffer is an array of rows in the address space.\<close>

definition fb_ok :: "framebuffer \<Rightarrow> bool" where
  "fb_ok fb \<longleftrightarrow> fb_ptr fb \<noteq> 0 \<and> unat (fb_ptr fb) mod 4 = 0 \<and> unat (lfb_pitch fb) mod 4 = 0
     \<and> 4 * unat (lfb_width fb) \<le> unat (lfb_pitch fb)
     \<and> unat (fb_ptr fb) + unat (lfb_height fb) * unat (lfb_pitch fb) \<le> 2 ^ 32"

definition fb_inside :: "framebuffer \<Rightarrow> u32 \<Rightarrow> u32 \<Rightarrow> bool" where
  "fb_inside fb x y \<longleftrightarrow> fb_ok fb \<and> x < lfb_width fb \<and> y < lfb_height fb"

definition pix_addr :: "framebuffer \<Rightarrow> u32 \<Rightarrow> u32 \<Rightarrow> u32" where
  "pix_addr fb x y = fb_ptr fb + ((y * lfb_pitch fb) div 4 + x) * 4"

definition pixel :: "framebuffer \<Rightarrow> mem \<Rightarrow> u32 \<Rightarrow> u32 \<Rightarrow> u32" where
  "pixel fb m x y = load_u32 m (pix_addr fb x y)"

text \<open>The bytes outside the rows of a well-formed framebuffer.\<close>

definition in_rows :: "framebuffer \<Rightarrow> u32 \<Rightarrow> bool" where
  "in_rows fb q \<longleftrightarrow> unat (fb_ptr fb) \<le> unat q \<and> unat q < unat (fb_ptr fb) + unat (lfb_height fb) * unat (lfb_pitch fb)"

definition outside_fb :: "framebuffer \<Rightarrow> mem \<Rightarrow> mem" where
  "outside_fb fb m = (\<lambda>q. if fb_ok fb \<and> \<not> in_rows fb q then m q else 0)"

lemma row_bound:
  fixes x y w h p :: nat
  assumes "x < w" "y < h" "4 * w \<le> p"
  shows "y * p + 4 * x + 4 \<le> h * p"
proof -
  have "4 * x + 4 \<le> p" using assms by linarith
  moreover have "y * p + p \<le> h * p" using assms(2) mult_le_mono1[of "Suc y" h p] by simp
  ultimately show ?thesis by linarith
qed

lemma pix_addr_unat:
  assumes "fb_inside fb x y"
  shows "unat (pix_addr fb x y) = unat (fb_ptr fb) + unat y * unat (lfb_pitch fb) + 4 * unat x"
    and "unat (pix_addr fb x y) + 4 \<le> unat (fb_ptr fb) + unat (lfb_height fb) * unat (lfb_pitch fb)"
    and "aligned4 (pix_addr fb x y)"
proof -
  let ?p = "unat (fb_ptr fb)" and ?r = "unat y * unat (lfb_pitch fb)"
  obtain k where k: "unat (lfb_pitch fb) = 4 * k" using assms by (auto simp: fb_inside_def fb_ok_def mod_eq_0_iff_dvd)
  have b: "?r + 4 * unat x + 4 \<le> unat (lfb_height fb) * unat (lfb_pitch fb)" "?p + unat (lfb_height fb) * unat (lfb_pitch fb) \<le> 4294967296"
    using assms row_bound[of "unat x" "unat (lfb_width fb)" "unat y" "unat (lfb_height fb)" "unat (lfb_pitch fb)"]
    by (simp_all add: fb_inside_def fb_ok_def word_less_nat_alt)
  define a where "a = unat y * k"
  have ra: "?r = 4 * a" by (simp add: k a_def)
  have r: "unat (y * lfb_pitch fb) = 4 * a" using b by (simp add: unat_word_ariths ra)
  have d: "unat ((y * lfb_pitch fb) div 4) = a" by (simp add: unat_div r)
  have o: "unat ((y * lfb_pitch fb) div 4 + x) = a + unat x" using b ra by (simp add: unat_word_ariths d)
  have "unat (((y * lfb_pitch fb) div 4 + x) * 4) = ?r + 4 * unat x" using b ra by (simp add: unat_word_ariths o)
  then show u: "unat (pix_addr fb x y) = ?p + ?r + 4 * unat x" using b by (simp add: pix_addr_def unat_word_ariths)
  then show "unat (pix_addr fb x y) + 4 \<le> ?p + unat (lfb_height fb) * unat (lfb_pitch fb)" using b by simp
  have "4 dvd ?p" using assms by (auto simp: fb_inside_def fb_ok_def mod_eq_0_iff_dvd)
  then show "aligned4 (pix_addr fb x y)" by (simp add: aligned_unat u k mod_eq_0_iff_dvd)
qed

lemma row_unique:
  fixes x y x' y' p :: nat
  assumes "y * p + x = y' * p + x'" "x < p" "x' < p"
  shows "x = x' \<and> y = y'"
proof -
  have "(y * p + x) div p = y" "(y' * p + x') div p = y'" using assms(2,3) by simp_all
  with assms(1) show ?thesis by simp
qed

lemma pix_addr_inj:
  assumes "fb_inside fb x y" "fb_inside fb x' y'" "pix_addr fb x y = pix_addr fb x' y'"
  shows "x = x' \<and> y = y'"
proof -
  have "unat y * unat (lfb_pitch fb) + 4 * unat x = unat y' * unat (lfb_pitch fb) + 4 * unat x'"
    using pix_addr_unat(1)[OF assms(1)] pix_addr_unat(1)[OF assms(2)] assms(3) by simp
  moreover have "4 * unat x < unat (lfb_pitch fb)" "4 * unat x' < unat (lfb_pitch fb)"
    using assms by (auto simp: fb_inside_def fb_ok_def word_less_nat_alt)
  ultimately have "4 * unat x = 4 * unat x'" "unat y = unat y'" using row_unique by blast+
  then show ?thesis by (simp add: word_unat_eq_iff)
qed

lemma put_pixel_store:
  "fb_put_pixel fb x y c m =
     (if x < lfb_width fb \<and> y < lfb_height fb \<and> fb_ptr fb \<noteq> 0 then store_u32 m (pix_addr fb x y) c else m)"
  by (auto simp: fb_put_pixel_def pix_addr_def Let_def not_le)

lemma store_u32_elsewhere:
  assumes "unat p + 4 \<le> 2 ^ 32" "unat q < unat p \<or> unat p + 4 \<le> unat q"
  shows "store_u32 m p v q = m q"
proof -
  have "\<not> unat (q - p) < 4"
    using assms u32_bound[of q] by (auto simp: unat_sub_if')
  then show ?thesis by (simp add: store_u32_def store_bytes_lookup)
qed

interpretation screen: canvas "fb_inside fb" "pixel fb" "fb_put_pixel fb" "outside_fb fb" for fb
proof unfold_locales
  fix x y px py c m assume i: "fb_inside fb x y"
  show "pixel fb (fb_put_pixel fb px py c m) x y = (if px = x \<and> py = y then c else pixel fb m x y)"
  proof (cases "px < lfb_width fb \<and> py < lfb_height fb")
    case True
    with i have j: "fb_inside fb px py" by (simp add: fb_inside_def)
    have "fb_put_pixel fb px py c m = store_u32 m (pix_addr fb px py) c"
      using True i by (simp add: put_pixel_store fb_inside_def fb_ok_def)
    then show ?thesis
      using load_u32_store_other[OF pix_addr_unat(3)[OF j] pix_addr_unat(3)[OF i]] pix_addr_inj[OF j i]
      by (auto simp: pixel_def load_u32_store_same)
  next
    case False
    with i show ?thesis by (auto simp: put_pixel_store fb_inside_def)
  qed
next
  fix px py c m
  show "outside_fb fb (fb_put_pixel fb px py c m) = outside_fb fb m"
  proof (cases "fb_inside fb px py")
    case True
    have "store_u32 m (pix_addr fb px py) c q = m q" if "\<not> in_rows fb q" for q
      using that pix_addr_unat(1,2)[OF True] True
      by (intro store_u32_elsewhere) (auto simp: in_rows_def fb_inside_def fb_ok_def)
    then show ?thesis by (auto simp: put_pixel_store outside_fb_def)
  qed (auto simp: put_pixel_store outside_fb_def fb_inside_def)
qed

section \<open>Loops as lists of pixels\<close>

lemma for_loop_fold: "for_loop i (\<lambda>_. n) body s = fold body (map of_nat [unat i..<unat n]) s"
proof (induction "unat n - unat i" arbitrary: i s)
  case 0
  then show ?case by (simp add: for_loop.simps[of i] word_less_nat_alt)
next
  case (Suc k)
  then have lt: "unat i < unat n" by simp
  then have u: "unat (i + 1) = Suc (unat i)" using unat_inc[of i n] by simp
  then have "k = unat n - unat (i + 1)" using Suc.hyps(2) by simp
  from Suc.hyps(1)[OF this] lt u show ?case
    by (simp add: for_loop.simps[of i] word_less_nat_alt upt_conv_Cons)
qed

definition span :: "u32 \<Rightarrow> u32 \<Rightarrow> u32 list" where
  "span i n = map of_nat [unat i..<unat n]"

lemma set_span: "set (span i n) = {k. i \<le> k \<and> k < n}"
proof -
  have "k \<in> of_nat ` {unat i..<unat n}" if "i \<le> k" "k < n" for k :: u32
    using that by (intro image_eqI[of _ _ "unat k"]) (simp_all add: word_le_nat_alt word_less_nat_alt)
  moreover have "i \<le> of_nat k \<and> of_nat k < n" if "unat i \<le> k" "k < unat n" for k
  proof -
    have "unat (of_nat k :: u32) = k" using that u32_bound[of n] by (intro unat_of_nat_eq_32) simp
    with that show ?thesis by (simp add: word_le_nat_alt word_less_nat_alt)
  qed
  ultimately show ?thesis by (auto simp: span_def)
qed

lemma fold_draw: "fold (\<lambda>x m. draw put (f x) m) xs m = draw put (concat (map f xs)) m"
  by (induction xs arbitrary: m) auto

lemma fold_put: "fold (\<lambda>cx. put cx cy c) xs m = draw put (map (\<lambda>cx. (cx, cy, c)) xs) m"
  by (induction xs arbitrary: m) auto

text \<open>A loop whose body and limit depend only on what the body keeps.\<close>

lemma for_loop_inv:
  assumes "I s" "\<And>s. I s \<Longrightarrow> lim s = n" "\<And>k s. I s \<Longrightarrow> k < n \<Longrightarrow> I (body k s) \<and> body k s = body' k s"
  shows "I (for_loop i lim body s) \<and> for_loop i lim body s = for_loop i (\<lambda>_. n) body' s"
  using assms(1)
proof (induction "unat n - unat i" arbitrary: i s)
  case 0
  then have "\<not> i < n" by (simp add: word_less_nat_alt)
  with assms(2)[OF "0.prems"] "0.prems" show ?case by (simp add: for_loop.simps[of i])
next
  case (Suc k)
  then have lt: "i < n" by (simp add: word_less_nat_alt)
  then have "unat (i + 1) = Suc (unat i)" using unat_inc[of i n] by (simp add: word_less_nat_alt)
  then have k: "k = unat n - unat (i + 1)" using Suc.hyps(2) by simp
  have b: "body i s = body' i s" "I (body' i s)" using assms(3)[OF Suc.prems lt] by auto
  have "for_loop i lim body s = for_loop (i + 1) lim body (body' i s)"
    using lt assms(2)[OF Suc.prems] b(1) by (subst for_loop.simps) simp
  moreover have "for_loop i (\<lambda>_. n) body' s = for_loop (i + 1) (\<lambda>_. n) body' (body' i s)"
    using lt by (subst for_loop.simps) simp
  ultimately show ?case using Suc.hyps(1)[OF k b(2)] by metis
qed

lemma outside_same: "outside_fb fb m = outside_fb fb m' \<Longrightarrow> fb_ok fb \<Longrightarrow> \<not> in_rows fb q \<Longrightarrow> m q = m' q"
  by (drule fun_cong[of _ _ q]) (simp add: outside_fb_def)

lemma load_outside:
  assumes "outside_fb fb m = outside_fb fb m'" "fb_ok fb" "\<forall>i < 4. \<not> in_rows fb (p + of_nat i)"
  shows "load_u32 m p = load_u32 m' p"
  using outside_same[OF assms(1,2)] assms(3) by (intro load_u32_cong) blast

definition rect_pixels :: "u32 \<Rightarrow> u32 \<Rightarrow> u32 \<Rightarrow> u32 \<Rightarrow> u32 \<Rightarrow> pixels" where
  "rect_pixels x y w h c = concat (map (\<lambda>cy. map (\<lambda>cx. (cx, cy, c)) (span x (x + w))) (span y (y + h)))"

lemma fill_rect_draw: "fb_fill_rect fb x y w h c m = draw (fb_put_pixel fb) (rect_pixels x y w h c) m"
proof -
  have "(\<lambda>cy. for_loop x (\<lambda>_. x + w) (\<lambda>cx. fb_put_pixel fb cx cy c))
      = (\<lambda>cy m. draw (fb_put_pixel fb) (map (\<lambda>cx. (cx, cy, c)) (span x (x + w))) m)"
    by (simp add: for_loop_fold fold_put span_def fun_eq_iff)
  then show ?thesis by (simp add: fb_fill_rect_def for_loop_fold fold_draw rect_pixels_def span_def)
qed

lemma fill_rect_pixel:
  assumes "fb_inside fb px py"
  shows "pixel fb (fb_fill_rect fb x y w h c m) px py =
    (if x \<le> px \<and> px < x + w \<and> y \<le> py \<and> py < y + h then c else pixel fb m px py)"
proof -
  have "\<forall>d. (px, py, d) \<in> set (rect_pixels x y w h c) \<longrightarrow> d = c" by (auto simp: rect_pixels_def)
  moreover have "(\<exists>d. (px, py, d) \<in> set (rect_pixels x y w h c)) \<longleftrightarrow> x \<le> px \<and> px < x + w \<and> y \<le> py \<and> py < y + h"
    by (auto simp: rect_pixels_def set_span)
  ultimately show ?thesis
    by (simp add: fill_rect_draw screen.get_draw[OF assms] last_colour_same)
qed

section \<open>Glyphs\<close>

text \<open>The font lies outside the framebuffer: the header fields and the bits of the glyph.\<close>

definition glyph_apart :: "framebuffer \<Rightarrow> u32 \<Rightarrow> u8 \<Rightarrow> mem \<Rightarrow> bool" where
  "glyph_apart fb hdr c m \<longleftrightarrow> (\<forall>i < 32. \<not> in_rows fb (hdr + of_nat i)) \<and>
     (\<forall>cx < psf_width hdr m. \<forall>cy < psf_height hdr m.
        \<not> in_rows fb (glyph_addr hdr c m + (cy * ((psf_width hdr m + 7) div 8) + cx div 8)))"

definition glyph_pixel :: "u32 \<Rightarrow> u8 \<Rightarrow> u32 \<Rightarrow> u32 \<Rightarrow> mem \<Rightarrow> u32 \<Rightarrow> u32 \<Rightarrow> u32 option" where
  "glyph_pixel hdr c fg bg m cx cy =
     (if cx < psf_width hdr m \<and> cy < psf_height hdr m then
        if glyph_bit (glyph_addr hdr c m) ((psf_width hdr m + 7) div 8) cx cy m then Some fg
        else if bg \<noteq> 0 then Some bg else None
      else None)"

text \<open>A block of optional pixels at an offset, as glyphs and windows draw it.\<close>

definition block_pixels :: "u32 \<Rightarrow> u32 \<Rightarrow> u32 \<Rightarrow> u32 \<Rightarrow> (u32 \<Rightarrow> u32 \<Rightarrow> u32 option) \<Rightarrow> pixels" where
  "block_pixels x y w h f = concat (map (\<lambda>cy. concat (map (\<lambda>cx.
     case f cx cy of None \<Rightarrow> [] | Some c \<Rightarrow> [(x + cx, y + cy, c)]) (span 0 w))) (span 0 h))"

lemma block_colour:
  assumes "\<And>cx cy. f cx cy \<noteq> None \<Longrightarrow> cx < w \<and> cy < h"
  shows "last_colour (block_pixels x y w h f) px py d = (case f (px - x) (py - y) of None \<Rightarrow> d | Some c \<Rightarrow> c)"
proof -
  have m: "(px, py, c) \<in> set (block_pixels x y w h f) \<longleftrightarrow> f (px - x) (py - y) = Some c" for c
  proof
    assume "(px, py, c) \<in> set (block_pixels x y w h f)"
    then show "f (px - x) (py - y) = Some c" by (auto simp: block_pixels_def split: option.splits)
  next
    assume f: "f (px - x) (py - y) = Some c"
    with assms have x: "px - x \<in> set (span 0 w)" and y: "py - y \<in> set (span 0 h)" by (force simp: set_span)+
    show "(px, py, c) \<in> set (block_pixels x y w h f)"
      unfolding block_pixels_def set_concat set_map
      by (rule UN_I[OF imageI[OF y]], unfold set_concat set_map, rule UN_I[OF imageI[OF x]]) (simp add: f)
  qed
  show ?thesis
  proof (cases "f (px - x) (py - y)")
    case None
    then show ?thesis using last_colour_same[of px py "block_pixels x y w h f" 0 d] m by simp
  next
    case (Some k)
    then show ?thesis using last_colour_same[of px py "block_pixels x y w h f" k d] m by auto
  qed
qed

text \<open>A nested loop over a block whose body draws an optional pixel that depends only on memory outside the
  framebuffer.\<close>

lemma block_loop_draw:
  assumes same: "outside_fb fb m = outside_fb fb m0"
    and lw: "\<And>m. outside_fb fb m = outside_fb fb m0 \<Longrightarrow> lw m = w" and lh: "\<And>m. outside_fb fb m = outside_fb fb m0 \<Longrightarrow> lh m = h"
    and body: "\<And>m cx cy. outside_fb fb m = outside_fb fb m0 \<Longrightarrow> cx < w \<Longrightarrow> cy < h \<Longrightarrow>
      body cy cx m = (case f cx cy of None \<Rightarrow> m | Some c \<Rightarrow> fb_put_pixel fb (x + cx) (y + cy) c m)"
  shows "for_loop 0 lh (\<lambda>cy. for_loop 0 lw (body cy)) m = draw (fb_put_pixel fb) (block_pixels x y w h f) m"
proof -
  let ?I = "\<lambda>m. outside_fb fb m = outside_fb fb m0"
  let ?px = "\<lambda>cy cx. case f cx cy of None \<Rightarrow> [] | Some c \<Rightarrow> [(x + cx, y + cy, c)]"
  let ?row = "\<lambda>cy. concat (map (?px cy) (span 0 w))"
  have put: "(case f cx cy of None \<Rightarrow> m | Some c \<Rightarrow> fb_put_pixel fb (x + cx) (y + cy) c m) = draw (fb_put_pixel fb) (?px cy cx) m" for cx cy m
    by (simp split: option.split)
  have keep: "?I (draw (fb_put_pixel fb) ps m)" if "?I m" for ps m using that by (simp add: screen.outer_draw)
  have row: "for_loop 0 lw (body cy) m = draw (fb_put_pixel fb) (?row cy) m" if "?I m" "cy < h" for cy m
  proof -
    have "for_loop 0 lw (body cy) m = for_loop 0 (\<lambda>_. w) (\<lambda>cx. draw (fb_put_pixel fb) (?px cy cx)) m"
      using for_loop_inv[of ?I m lw w "body cy" "\<lambda>cx. draw (fb_put_pixel fb) (?px cy cx)" 0] that lw body keep put by simp
    then show ?thesis by (simp add: for_loop_fold fold_draw span_def)
  qed
  have "for_loop 0 lh (\<lambda>cy. for_loop 0 lw (body cy)) m = for_loop 0 (\<lambda>_. h) (\<lambda>cy. draw (fb_put_pixel fb) (?row cy)) m"
    using for_loop_inv[of ?I m lh h "\<lambda>cy. for_loop 0 lw (body cy)" "\<lambda>cy. draw (fb_put_pixel fb) (?row cy)" 0] same lh row keep by simp
  then show ?thesis by (simp add: for_loop_fold fold_draw block_pixels_def span_def)
qed

lemma draw_char_draw:
  assumes ok: "fb_ok fb" and ap: "glyph_apart fb hdr c m" and "hdr \<noteq> 0"
  shows "font_draw_char fb hdr x y c fg bg m =
    draw (fb_put_pixel fb) (block_pixels x y (psf_width hdr m) (psf_height hdr m) (glyph_pixel hdr c fg bg m)) m"
proof -
  let ?g = "glyph_addr hdr c m" and ?p = "(psf_width hdr m + 7) div 8"
  have four: "\<not> in_rows fb (hdr + of_nat n + of_nat i)" if "n + 4 \<le> 32" "i < 4" for n i
  proof -
    have "n + i < 32" using that by simp
    with ap have "\<not> in_rows fb (hdr + of_nat (n + i))" unfolding glyph_apart_def by blast
    then show ?thesis by (simp add: add.assoc)
  qed
  have field: "load_u32 m' (hdr + of_nat n) = load_u32 m (hdr + of_nat n)" if "outside_fb fb m' = outside_fb fb m" "n + 4 \<le> 32" for m' n
    using load_outside[OF that(1) ok] four[OF that(2)] by blast
  have dims: "psf_width hdr m' = psf_width hdr m" "psf_height hdr m' = psf_height hdr m" if "outside_fb fb m' = outside_fb fb m" for m'
    using field[OF that, of 28] field[OF that, of 24] by (simp_all add: psf_width_def psf_height_def)
  have bit: "glyph_bit ?g ?p cx cy m' = glyph_bit ?g ?p cx cy m"
    if "outside_fb fb m' = outside_fb fb m" "cx < psf_width hdr m" "cy < psf_height hdr m" for m' cx cy
    using outside_same[OF that(1) ok] ap that(2,3) by (simp add: glyph_bit_def glyph_apart_def)
  define body where "body = (\<lambda>cy cx m. if glyph_bit ?g ?p cx cy m then fb_put_pixel fb (x + cx) (y + cy) fg m
      else if bg \<noteq> 0 then fb_put_pixel fb (x + cx) (y + cy) bg m else m)"
  have "font_draw_char fb hdr x y c fg bg m = for_loop 0 (psf_height hdr) (\<lambda>cy. for_loop 0 (psf_width hdr) (body cy)) m"
    unfolding font_draw_char_def Let_def body_def using \<open>hdr \<noteq> 0\<close> by (rule if_not_P)
  also have "\<dots> = draw (fb_put_pixel fb) (block_pixels x y (psf_width hdr m) (psf_height hdr m) (glyph_pixel hdr c fg bg m)) m"
  proof (rule block_loop_draw[OF refl])
    fix m' cx cy assume m': "outside_fb fb m' = outside_fb fb m" "cx < psf_width hdr m" "cy < psf_height hdr m"
    show "body cy cx m' = (case glyph_pixel hdr c fg bg m cx cy of None \<Rightarrow> m' | Some c \<Rightarrow> fb_put_pixel fb (x + cx) (y + cy) c m')"
      using bit[OF m'] m'(2,3) by (simp add: body_def glyph_pixel_def)
  qed (rule dims, assumption)+
  finally show ?thesis .
qed

lemma draw_char_pixel:
  assumes "fb_inside fb px py" "glyph_apart fb hdr c m" "hdr \<noteq> 0"
  shows "pixel fb (font_draw_char fb hdr x y c fg bg m) px py =
    (case glyph_pixel hdr c fg bg m (px - x) (py - y) of None \<Rightarrow> pixel fb m px py | Some k \<Rightarrow> k)"
proof -
  have "fb_ok fb" using assms(1) by (simp add: fb_inside_def)
  moreover have "last_colour (block_pixels x y (psf_width hdr m) (psf_height hdr m) (glyph_pixel hdr c fg bg m)) px py d
      = (case glyph_pixel hdr c fg bg m (px - x) (py - y) of None \<Rightarrow> d | Some k \<Rightarrow> k)" for d
    by (rule block_colour) (auto simp: glyph_pixel_def split: if_splits)
  ultimately show ?thesis
    using assms by (simp add: draw_char_draw screen.get_draw)
qed

text \<open>The glyph of a byte with the sign bit lies below the glyph table, by one glyph for each step down
  from 256: with the header right before the table, the bytes 0x81 to 0xFF select memory before it.\<close>

lemma glyph_addr_signed:
  assumes "0x80 \<le> c"
  shows "glyph_addr hdr c m = hdr + psf_header_size hdr m - of_nat (256 - unat c) * psf_char_size hdr m"
proof -
  have u: "128 \<le> unat c" "unat c < 256" using assms unat_bound[of c] by (simp_all add: word_le_nat_alt)
  have mod: "(n + 128) mod 256 = n - 128" if "128 \<le> n" "n < 256" for n :: int
    using that by (simp add: mod_pos_geq mod_pos_pos_trivial)
  have n: "128 \<le> int (unat c)" "int (unat c) < 256" using u by linarith+
  have "sint c = take_bit 8 (int (unat c) + 128) - 128" by (simp add: sint_uint signed_take_bit_eq_take_bit_shift)
  then have "sint c = (int (unat c) + 128) mod 256 - 128" by (simp only: take_bit_eq_mod) simp
  then have "sint c = int (unat c) - 256" unfolding mod[OF n] by simp
  then have "(scast c :: u32) = of_int (int (unat c) - 256)" by (metis of_int_sint)
  also have "\<dots> = - of_nat (256 - unat c)" using u by (simp add: of_nat_diff)
  finally show ?thesis by (simp add: glyph_addr_def)
qed

section \<open>Properties\<close>

text \<open>Filling a rectangle of a well-formed framebuffer changes exactly its pixels: every position of the
  screen inside the rectangle, clipped to the screen, gets the colour, every other keeps its own, and no byte
  outside the framebuffer changes. When the far edge of the rectangle wraps around, nothing is drawn. In
  particular \<^verbatim>\<open>fb_clear\<close> colours every pixel.\<close>

theorem fill_rect_exact:
  assumes "fb_ok fb"
  shows "(\<forall>px py. px < lfb_width fb \<longrightarrow> py < lfb_height fb \<longrightarrow>
      pixel fb (fb_fill_rect fb x y w h c m) px py =
        (if x \<le> px \<and> px < x + w \<and> y \<le> py \<and> py < y + h then c else pixel fb m px py)
      \<and> pixel fb (fb_clear fb c m) px py = c)
    \<and> (\<forall>q. \<not> in_rows fb q \<longrightarrow> fb_fill_rect fb x y w h c m q = m q \<and> fb_clear fb c m q = m q)"
proof -
  have out: "fb_fill_rect fb x y w h c m q = m q" if "\<not> in_rows fb q" for x y w h q
    using fun_cong[OF screen.outer_draw[of fb "rect_pixels x y w h c" m], of q] that assms
    by (simp add: fill_rect_draw outside_fb_def)
  show ?thesis
    using fill_rect_pixel[of fb] assms out by (auto simp: fb_inside_def fb_clear_def)
qed

definition tiny_fb :: framebuffer where
  "tiny_fb = fb_init 0x1000 16 3 2 32"

theorem fill_rect_exact_witness:
  "pixel tiny_fb (fb_fill_rect tiny_fb 1 1 5 5 0xFF (\<lambda>_. 0)) 2 1 = 0xFF
   \<and> pixel tiny_fb (fb_fill_rect tiny_fb 1 1 5 5 0xFF (\<lambda>_. 0)) 0 1 = 0"
proof -
  have "fb_ok tiny_fb" by (simp add: fb_ok_def tiny_fb_def fb_init_def)
  moreover have "pixel tiny_fb (\<lambda>_. 0) 0 1 = 0" by (simp add: pixel_def load_zero)
  ultimately show ?thesis
    using fill_rect_exact[of tiny_fb 1 1 5 5 "0xFF" "\<lambda>_. 0"] by (simp add: tiny_fb_def fb_init_def)
qed

end
