(* ===== verification/Pmm.thy ===== *)
theory Pmm
  imports Luna_Prelude
begin

text \<open>
  The physical memory manager, \<^verbatim>\<open>kernel/pmm.c\<close>: a bitmap with one bit for each 4 KiB frame of
  the 4 GiB physical address space (1 = used), the counters beside it, the next-fit hint, and the
  operations that build it from the boot loader's memory map and hand frames out. The abstract view
  is the set of free frames; every operation is shown to act on that set as it should, and the
  interface other components rely on is the locale \<open>frame_allocator\<close>.
\<close>

section \<open>State and operations\<close>

definition FRAME_SIZE :: u32 where "FRAME_SIZE = 4096"

definition FRAMES_TOTAL :: u32 where "FRAMES_TOTAL = 1024 * 1024"

definition BITMAP_WORDS :: u32 where "BITMAP_WORDS = FRAMES_TOTAL div 32"

record pmm =
  bitmap :: "u32 \<Rightarrow> u32"
  total_frames :: u32
  free_frames :: u32
  last_alloc :: u32

text \<open>The statics before initialisation.\<close>

definition boot_pmm :: pmm where
  "boot_pmm = \<lparr>bitmap = (\<lambda>_. 0), total_frames = 0, free_frames = 0, last_alloc = 0\<rparr>"

definition frame_set :: "pmm \<Rightarrow> u32 \<Rightarrow> pmm" where
  "frame_set s f = s\<lparr>bitmap := (bitmap s)(f div 32 := bitmap s (f div 32) OR push_bit (unat (f mod 32)) 1)\<rparr>"

definition frame_clear :: "pmm \<Rightarrow> u32 \<Rightarrow> pmm" where
  "frame_clear s f =
     s\<lparr>bitmap := (bitmap s)(f div 32 := bitmap s (f div 32) AND NOT (push_bit (unat (f mod 32)) 1))\<rparr>"

definition frame_test :: "pmm \<Rightarrow> u32 \<Rightarrow> bool" where
  "frame_test s f \<longleftrightarrow> drop_bit (unat (f mod 32)) (bitmap s (f div 32)) AND 1 \<noteq> 0"

text \<open>The memory map entry of \<^verbatim>\<open>kernel/multiboot2.h\<close>.\<close>

record MB2_MmapEntry =
  base_addr :: u64
  len :: u64
  mtype :: u32
  reserved :: u32

definition MB2_MMAP_AVAILABLE :: u32 where "MB2_MMAP_AVAILABLE = 1"

definition KERNEL_PHYS_BASE :: u32 where "KERNEL_PHYS_BASE = 0x00100000"

text \<open>The inner loop of \<^verbatim>\<open>pmm_init\<close>: frames \<open>f\<close> up to \<open>lim\<close> are freed, stopping at the end of the
  bitmap.\<close>

function free_region :: "pmm \<Rightarrow> u32 \<Rightarrow> u32 \<Rightarrow> pmm" where
  "free_region s f lim =
     (if f < lim then
        if f \<ge> FRAMES_TOTAL then s
        else free_region ((frame_clear s f)\<lparr>free_frames := free_frames s + 1,
                                            total_frames := total_frames s + 1\<rparr>) (f + 1) lim
      else s)"
  by pat_completeness auto
termination
  by (relation "measure (\<lambda>(s, f, lim). unat lim - unat f)") (simp_all add: count_up_decreases)

text \<open>The frame range of an available entry, with the first megabyte cut off; None when the entry
  is skipped. The casts to 32 bits are those of the source.\<close>

definition entry_frames :: "MB2_MmapEntry \<Rightarrow> (u32 \<times> u32) option" where
  "entry_frames e =
     (if mtype e \<noteq> MB2_MMAP_AVAILABLE then None
      else if base_addr e < 0x100000 then
        let skip = 0x100000 - base_addr e in
        if skip \<ge> len e then None
        else Some (ucast ((base_addr e + skip) div 4096), ucast ((len e - skip) div 4096))
      else Some (ucast (base_addr e div 4096), ucast (len e div 4096)))"

definition free_entry :: "pmm \<Rightarrow> MB2_MmapEntry \<Rightarrow> pmm" where
  "free_entry s e =
     (case entry_frames e of
        None \<Rightarrow> s
      | Some (frame_start, frame_count) \<Rightarrow> free_region s frame_start (frame_start + frame_count))"

text \<open>One step of the loop that reserves the kernel image again. The loop runs over the frames from
  \<^verbatim>\<open>KERNEL_PHYS_BASE\<close> to \<^verbatim>\<open>k_end_frame\<close>, both included; \<^verbatim>\<open>k_end_frame\<close> is a quotient by 4096, so the
  counter cannot wrap.\<close>

definition reserve_frame :: "pmm \<Rightarrow> u32 \<Rightarrow> pmm" where
  "reserve_frame s f =
     (if \<not> frame_test s f then (frame_set s f)\<lparr>free_frames := free_frames s - 1\<rparr> else s)"

definition pmm_init :: "u32 \<Rightarrow> pmm \<Rightarrow> MB2_MmapEntry list \<Rightarrow> pmm" where
  "pmm_init kernel_end_phys s entries =
     (let s = s\<lparr>bitmap := (\<lambda>i. if i < BITMAP_WORDS then 0xFFFFFFFF else bitmap s i), free_frames := 0\<rparr>;
          s = foldl free_entry s entries;
          k_end_frame = (kernel_end_phys + FRAME_SIZE - 1) div FRAME_SIZE
      in foldl reserve_frame s
           (map of_nat [unat (KERNEL_PHYS_BASE div FRAME_SIZE)..<Suc (unat k_end_frame)]))"

function alloc_scan :: "pmm \<Rightarrow> u32 \<Rightarrow> (u32 \<times> pmm) result" where
  "alloc_scan s i =
     (if i < FRAMES_TOTAL then
        let f = (last_alloc s + i) mod FRAMES_TOTAL in
        if \<not> frame_test s f then
          Inr (f * FRAME_SIZE, (frame_set s f)\<lparr>free_frames := free_frames s - 1, last_alloc := f + 1\<rparr>)
        else alloc_scan s (i + 1)
      else kernel_panic ''PMM: Bitmap inconsistent'')"
  by pat_completeness auto
termination
  by (relation "measure (\<lambda>(s, i). unat FRAMES_TOTAL - unat i)") (simp_all add: count_up_decreases)

definition pmm_alloc_frame :: "pmm \<Rightarrow> (u32 \<times> pmm) result" where
  "pmm_alloc_frame s =
     (if free_frames s = 0 then kernel_panic ''PMM: Out of physical memory'' else alloc_scan s 0)"

text \<open>The loop that takes the frames \<open>k, \<dots>, lim - 1\<close> of a run.\<close>

function take_run :: "pmm \<Rightarrow> u32 \<Rightarrow> u32 \<Rightarrow> pmm" where
  "take_run s k lim =
     (if k < lim then take_run ((frame_set s k)\<lparr>free_frames := free_frames s - 1\<rparr>) (k + 1) lim else s)"
  by pat_completeness auto
termination
  by (relation "measure (\<lambda>(s, k, lim). unat lim - unat k)") (simp_all add: count_up_decreases)

function run_scan :: "pmm \<Rightarrow> u32 \<Rightarrow> u32 \<Rightarrow> u32 \<Rightarrow> u32 \<Rightarrow> (u32 \<times> pmm) result" where
  "run_scan s n f start run =
     (if f < FRAMES_TOTAL then
        if \<not> frame_test s f then
          let start = (if run = 0 then f else start); run = run + 1 in
          if run = n then Inr (start * FRAME_SIZE, take_run s start (start + n))
          else run_scan s n (f + 1) start run
        else run_scan s n (f + 1) start 0
      else kernel_panic ''PMM: No contiguous frames'')"
  by pat_completeness auto
termination
  by (relation "measure (\<lambda>(s, n, f, start, run). unat FRAMES_TOTAL - unat f)")
    (simp_all add: count_up_decreases)

definition pmm_alloc_frames :: "pmm \<Rightarrow> u32 \<Rightarrow> (u32 \<times> pmm) result" where
  "pmm_alloc_frames s n = run_scan s n 0 0 0"

definition pmm_free_frame :: "pmm \<Rightarrow> u32 \<Rightarrow> pmm" where
  "pmm_free_frame s phys_addr =
     (let f = phys_addr div FRAME_SIZE in
      if f \<ge> FRAMES_TOTAL then s
      else if \<not> frame_test s f then s
      else (frame_clear s f)\<lparr>free_frames := free_frames s + 1\<rparr>)"

definition pmm_free_frames :: "pmm \<Rightarrow> u32" where
  "pmm_free_frames s = free_frames s"

definition pmm_total_frames :: "pmm \<Rightarrow> u32" where
  "pmm_total_frames s = total_frames s"

definition pmm_free_kb :: "pmm \<Rightarrow> u32" where
  "pmm_free_kb s = (free_frames s * FRAME_SIZE) div 1024"

declare free_region.simps [simp del] alloc_scan.simps [simp del]
  take_run.simps [simp del] run_scan.simps [simp del]

section \<open>The free set and the invariant\<close>

definition free_set :: "pmm \<Rightarrow> u32 set" where
  "free_set s = {f. f < FRAMES_TOTAL \<and> \<not> frame_test s f}"

definition pmm_inv :: "pmm \<Rightarrow> bool" where
  "pmm_inv s \<longleftrightarrow> unat (free_frames s) = card (free_set s) \<and> last_alloc s \<le> FRAMES_TOTAL"

lemma frames_total_unat [simp]: "unat FRAMES_TOTAL = 1048576"
  by (simp add: FRAMES_TOTAL_def)

lemma finite_free_set [simp]: "finite (free_set s)"
  by simp

lemma card_free_set: "card (free_set s) \<le> 1048576"
proof -
  have "unat ` free_set s \<subseteq> {..<1048576}"
    by (auto simp: free_set_def word_less_nat_alt)
  then have "card (unat ` free_set s) \<le> 1048576"
    using card_mono[of "{..<1048576::nat}"] by simp
  moreover have "inj_on unat (free_set s)" by (auto simp: inj_on_def word_unat_eq_iff)
  ultimately show ?thesis by (simp add: card_image)
qed

subsection \<open>Single bits\<close>

lemma frame_test_bit: "frame_test s f \<longleftrightarrow> bit (bitmap s (f div 32)) (unat (f mod 32))"
  by (simp add: frame_test_def bit_iff_and_drop_bit_eq_1)
    (metis and_one_eq mod2_eq_if one_neq_zero)

lemma unat_mod_32: "unat (f mod 32 :: u32) < 32"
  by (simp add: unat_mod)

lemma div_mod_32_eq: "f div 32 = g div 32 \<Longrightarrow> unat (f mod 32) = unat (g mod 32) \<Longrightarrow> f = (g :: u32)"
  by (metis div_mult_mod_eq word_unat_eq_iff)

lemma frame_test_set [simp]: "frame_test (frame_set s f) g \<longleftrightarrow> frame_test s g \<or> f = g"
  using div_mod_32_eq[of f g] unat_mod_32[of f] unat_mod_32[of g]
  by (auto simp: frame_test_bit frame_set_def bit_simps)

lemma frame_test_clear [simp]: "frame_test (frame_clear s f) g \<longleftrightarrow> frame_test s g \<and> f \<noteq> g"
  using div_mod_32_eq[of f g] unat_mod_32[of f] unat_mod_32[of g]
  by (auto simp: frame_test_bit frame_clear_def bit_simps)

lemma frame_fields [simp]:
  "free_frames (frame_set s f) = free_frames s" "total_frames (frame_set s f) = total_frames s"
  "last_alloc (frame_set s f) = last_alloc s"
  "free_frames (frame_clear s f) = free_frames s" "total_frames (frame_clear s f) = total_frames s"
  "last_alloc (frame_clear s f) = last_alloc s"
  by (simp_all add: frame_set_def frame_clear_def)

lemma frame_test_counters [simp]:
  "frame_test (s\<lparr>free_frames := x\<rparr>) = frame_test s"
  "frame_test (s\<lparr>total_frames := x\<rparr>) = frame_test s"
  "frame_test (s\<lparr>last_alloc := x\<rparr>) = frame_test s"
  by (simp_all add: fun_eq_iff frame_test_def)

lemma free_set_counters [simp]:
  "free_set (s\<lparr>free_frames := x\<rparr>) = free_set s"
  "free_set (s\<lparr>total_frames := x\<rparr>) = free_set s"
  "free_set (s\<lparr>last_alloc := x\<rparr>) = free_set s"
  by (simp_all add: free_set_def)

lemma free_set_set [simp]: "free_set (frame_set s f) = free_set s - {f}"
  by (auto simp: free_set_def)

lemma free_set_clear [simp]: "f < FRAMES_TOTAL \<Longrightarrow> free_set (frame_clear s f) = insert f (free_set s)"
  by (auto simp: free_set_def)

subsection \<open>Taking and returning one frame\<close>

lemma inv_free_frames_0: "pmm_inv s \<Longrightarrow> free_frames s = 0 \<longleftrightarrow> free_set s = {}"
  by (auto simp: pmm_inv_def unat_eq_0 [symmetric])

lemma inv_take:
  assumes "pmm_inv s" "f \<in> free_set s"
  shows "pmm_inv ((frame_set s f)\<lparr>free_frames := free_frames s - 1\<rparr>)"
proof -
  have "free_frames s \<noteq> 0" using assms inv_free_frames_0 by auto
  then show ?thesis
    using assms by (simp add: pmm_inv_def unat_minus_one)
qed

lemma inv_give:
  assumes "pmm_inv s" "f < FRAMES_TOTAL" "frame_test s f"
  shows "pmm_inv ((frame_clear s f)\<lparr>free_frames := free_frames s + 1\<rparr>)"
proof -
  have "f \<notin> free_set s" using assms by (simp add: free_set_def)
  moreover have "unat (free_frames s + 1) = unat (free_frames s) + 1"
    using assms(1) card_free_set[of s]
    by (intro unat_inc[of _ "0x200000"]) (simp add: pmm_inv_def)
  ultimately show ?thesis using assms by (simp add: pmm_inv_def)
qed

lemma inv_last_alloc: "pmm_inv s \<Longrightarrow> x \<le> FRAMES_TOTAL \<Longrightarrow> pmm_inv (s\<lparr>last_alloc := x\<rparr>)"
  by (simp add: pmm_inv_def)

subsection \<open>Frame numbers and addresses\<close>

lemma frame_of_address: "f < FRAMES_TOTAL \<Longrightarrow> (f * FRAME_SIZE) div FRAME_SIZE = f"
  by (simp add: word_unat_eq_iff unat_div unat_mult_lem[THEN iffD1] FRAME_SIZE_def
      FRAMES_TOTAL_def word_less_nat_alt unat_word_ariths)

lemma address_frame_less: "(a :: u32) div FRAME_SIZE < FRAMES_TOTAL"
  using u32_bound[of a] by (simp add: FRAME_SIZE_def FRAMES_TOTAL_def word_less_nat_alt unat_div less_mult_imp_div_less)

lemma frame_address_aligned: "f < FRAMES_TOTAL \<Longrightarrow> (f * FRAME_SIZE) mod FRAME_SIZE = 0"
  by (simp add: word_unat_eq_iff unat_mod unat_word_ariths FRAME_SIZE_def FRAMES_TOTAL_def
      word_less_nat_alt)


section \<open>Allocation of one frame\<close>

text \<open>The state after frame \<open>f\<close> was handed out.\<close>

definition taken :: "pmm \<Rightarrow> u32 \<Rightarrow> pmm" where
  "taken s f = (frame_set s f)\<lparr>free_frames := free_frames s - 1, last_alloc := f + 1\<rparr>"

lemma free_set_taken [simp]: "free_set (taken s f) = free_set s - {f}"
  by (simp add: taken_def)

lemma pmm_inv_taken: "pmm_inv s \<Longrightarrow> f \<in> free_set s \<Longrightarrow> pmm_inv (taken s f)"
proof -
  assume a: "pmm_inv s" "f \<in> free_set s"
  have "f + 1 \<le> FRAMES_TOTAL"
    using a(2) unat_inc[of f FRAMES_TOTAL] by (simp add: free_set_def word_less_nat_alt word_le_nat_alt)
  from inv_last_alloc[OF inv_take[OF a] this] show ?thesis by (simp add: taken_def)
qed

text \<open>The position of the \<open>j\<close>-th probe of the cyclic search.\<close>

abbreviation probe :: "pmm \<Rightarrow> u32 \<Rightarrow> u32" where
  "probe s j \<equiv> (last_alloc s + j) mod FRAMES_TOTAL"

lemma probe_less: "probe s j < FRAMES_TOTAL"
  by (simp add: word_less_nat_alt unat_mod)

lemma alloc_scan_Inr:
  "alloc_scan s i = Inr (a, s') \<Longrightarrow>
   \<exists>j. i \<le> j \<and> j < FRAMES_TOTAL \<and> \<not> frame_test s (probe s j) \<and> (\<forall>k. i \<le> k \<and> k < j \<longrightarrow> frame_test s (probe s k))
     \<and> a = probe s j * FRAME_SIZE \<and> s' = taken s (probe s j)"
proof (induction s i rule: alloc_scan.induct)
  case (1 s i)
  from "1.prems" have i: "i < FRAMES_TOTAL" by (auto simp: alloc_scan.simps[of s i] split: if_splits)
  show ?case
  proof (cases "frame_test s (probe s i)")
    case False
    with "1.prems" i show ?thesis
      by (intro exI[of _ i]) (auto simp: alloc_scan.simps[of s i] Let_def taken_def)
  next
    case True
    with "1.prems" i have "alloc_scan s (i + 1) = Inr (a, s')"
      by (simp add: alloc_scan.simps[of s i] Let_def)
    with "1.IH"[OF i refl] True obtain j where j: "i + 1 \<le> j" "j < FRAMES_TOTAL"
      "\<not> frame_test s (probe s j)" "\<forall>k. i + 1 \<le> k \<and> k < j \<longrightarrow> frame_test s (probe s k)"
      "a = probe s j * FRAME_SIZE" "s' = taken s (probe s j)"
      by auto
    have step: "i + 1 \<le> k \<longleftrightarrow> i \<le> k \<and> i \<noteq> k" for k
      using unat_inc[of i FRAMES_TOTAL] i
      by (auto simp: word_less_nat_alt word_le_nat_alt word_unat_eq_iff)
    show ?thesis using j True by (intro exI[of _ j]) (auto simp: step)
  qed
qed

lemma alloc_scan_Inl:
  "alloc_scan s i = Inl e \<Longrightarrow> i \<le> j \<Longrightarrow> j < FRAMES_TOTAL \<Longrightarrow> frame_test s (probe s j)"
proof (induction s i rule: alloc_scan.induct)
  case (1 s i)
  then have i: "i < FRAMES_TOTAL" by simp
  with "1.prems" have t: "frame_test s (probe s i)" and r: "alloc_scan s (i + 1) = Inl e"
    by (auto simp: alloc_scan.simps[of s i] Let_def split: if_splits)
  show ?case
  proof (cases "i = j")
    case False
    then have "i + 1 \<le> j"
      using "1.prems" unat_inc[of i FRAMES_TOTAL] i
      by (auto simp: word_less_nat_alt word_le_nat_alt word_unat_eq_iff)
    with "1.IH"[OF i refl _ r] t "1.prems" show ?thesis by simp
  qed (use t in simp)
qed

text \<open>Every frame is reached by some probe.\<close>

lemma probe_surj:
  assumes "last_alloc s \<le> FRAMES_TOTAL" "f < FRAMES_TOTAL"
  obtains j where "j < FRAMES_TOTAL" "probe s j = f"
proof -
  let ?n = "(unat f + 1048576 - unat (last_alloc s)) mod 1048576"
  let ?j = "of_nat ?n :: u32"
  have l: "unat (last_alloc s) \<le> 1048576" and f: "unat f < 1048576"
    using assms by (simp_all add: word_le_nat_alt word_less_nat_alt)
  have n: "?n < 1048576" by simp
  then have uj: "unat ?j = ?n" by (intro unat_of_nat_eq_32) simp
  have "unat (last_alloc s + ?j) = unat (last_alloc s) + ?n"
    using l n uj by (subst unat_add_lem[THEN iffD1]) simp_all
  then have "unat (probe s ?j) = (unat (last_alloc s) + ?n) mod 1048576" by (simp add: unat_mod)
  also have "\<dots> = (unat (last_alloc s) + (unat f + 1048576 - unat (last_alloc s))) mod 1048576"
    by (rule mod_add_right_eq)
  also have "\<dots> = unat f" using l f by simp
  finally have "probe s ?j = f" by (simp add: word_unat_eq_iff)
  moreover have "?j < FRAMES_TOTAL" using n uj by (simp add: word_less_nat_alt)
  ultimately show ?thesis by (rule that[rotated])
qed

lemma pmm_alloc_frame_Inr:
  assumes "pmm_alloc_frame s = Inr (a, s')"
  obtains f where "f \<in> free_set s" "a = f * FRAME_SIZE" "s' = taken s f"
  using assms alloc_scan_Inr[of s 0 a s'] probe_less[of s] that
  by (auto simp: pmm_alloc_frame_def free_set_def split: if_splits)

lemma pmm_alloc_frame_Inl:
  assumes "pmm_inv s" "pmm_alloc_frame s = Inl e"
  shows "free_set s = {} \<and> e = KernelPanic ''PMM: Out of physical memory''"
proof (cases "free_frames s = 0")
  case True
  with assms show ?thesis by (simp add: inv_free_frames_0 pmm_alloc_frame_def kernel_panic_def)
next
  case False
  with assms(2) have scan: "alloc_scan s 0 = Inl e" by (simp add: pmm_alloc_frame_def)
  have "f \<notin> free_set s" for f
  proof
    assume f: "f \<in> free_set s"
    then obtain j where "j < FRAMES_TOTAL" "probe s j = f"
      using probe_surj[of s f] assms(1) by (auto simp: free_set_def pmm_inv_def)
    with alloc_scan_Inl[OF scan, of j] f show False by (auto simp: free_set_def)
  qed
  with False assms(1) show ?thesis by (auto simp: inv_free_frames_0)
qed


section \<open>Contiguous allocation\<close>

lemma take_run_spec:
  assumes "pmm_inv s" "{f. k \<le> f \<and> f < lim} \<subseteq> free_set s"
  shows "pmm_inv (take_run s k lim) \<and> free_set (take_run s k lim) = free_set s - {f. k \<le> f \<and> f < lim}"
  using assms
proof (induction s k lim rule: take_run.induct)
  case (1 s k lim)
  show ?case
  proof (cases "k < lim")
    case False
    have "{f. k \<le> f \<and> f < lim} = {}" using False by (auto dest: le_less_trans)
    then show ?thesis using False "1.prems"(1) by (simp only: take_run.simps[of s k] if_False Diff_empty simp_thms)
  next
    case True
    let ?s = "(frame_set s k)\<lparr>free_frames := free_frames s - 1\<rparr>"
    have k: "k \<in> free_set s" using True "1.prems"(2) by auto
    have split: "{f. k \<le> f \<and> f < lim} = insert k {f. k + 1 \<le> f \<and> f < lim}"
      using True unat_inc[of k lim]
      by (auto simp: word_less_nat_alt word_le_nat_alt word_unat_eq_iff)
    have notin: "k \<notin> {f. k + 1 \<le> f \<and> f < lim}"
      using True unat_inc[of k lim] by (simp add: word_less_nat_alt word_le_nat_alt)
    have "pmm_inv (take_run ?s (k + 1) lim) \<and>
        free_set (take_run ?s (k + 1) lim) = free_set ?s - {f. k + 1 \<le> f \<and> f < lim}"
      using "1.prems" k split notin by (intro "1.IH"[OF True] inv_take) auto
    with True split show ?thesis by (simp add: take_run.simps[of s k]) blast
  qed
qed

text \<open>Frames by number, and runs of \<open>n\<close> free frames from \<open>g\<close>.\<close>

definition free_at :: "pmm \<Rightarrow> nat \<Rightarrow> bool" where
  "free_at s k \<longleftrightarrow> k < 1048576 \<and> \<not> frame_test s (of_nat k)"

definition free_run :: "pmm \<Rightarrow> nat \<Rightarrow> nat \<Rightarrow> bool" where
  "free_run s n g \<longleftrightarrow> (\<forall>k \<in> {g..<g + n}. free_at s k)"

lemma free_at_unat: "free_at s (unat f) \<longleftrightarrow> f \<in> free_set s"
  by (simp add: free_at_def free_set_def word_less_nat_alt)

lemma free_run_bound: "free_run s n g \<Longrightarrow> 0 < n \<Longrightarrow> g + n \<le> 1048576"
  by (auto simp: free_run_def free_at_def dest!: bspec[where x = "g + n - 1"])

text \<open>What the scan has established when it reaches frame \<open>f\<close> with a current run of \<open>run\<close> frames.\<close>

definition scan_inv :: "pmm \<Rightarrow> u32 \<Rightarrow> u32 \<Rightarrow> u32 \<Rightarrow> u32 \<Rightarrow> bool" where
  "scan_inv s n f start run \<longleftrightarrow>
     unat f \<le> 1048576 \<and> run \<le> f \<and> run < n \<and> (run \<noteq> 0 \<longrightarrow> start = f - run)
     \<and> (\<forall>k. unat f - unat run \<le> k \<and> k < unat f \<longrightarrow> free_at s k)
     \<and> (run < f \<longrightarrow> \<not> free_at s (unat f - unat run - 1))
     \<and> (\<forall>g. g + unat n \<le> unat f \<longrightarrow> \<not> free_run s (unat n) g)"

lemma scan_inv_used:
  assumes "scan_inv s n f start run" "unat f < 1048576" "frame_test s f"
  shows "scan_inv s n (f + 1) start 0"
proof -
  have n: "0 < unat n" using assms(1) unat_bound[of run] by (simp add: scan_inv_def word_less_nat_alt)
  have f1: "unat (f + 1) = unat f + 1" using assms(2) unat_inc[of f FRAMES_TOTAL] by simp
  have nf: "\<not> free_at s (unat f)" using assms(3) by (simp add: free_at_unat free_set_def)
  have "\<not> free_run s (unat n) g" if "g + unat n \<le> unat f + 1" for g
  proof (cases "g + unat n \<le> unat f")
    case True
    with assms(1) show ?thesis by (simp add: scan_inv_def)
  next
    case False
    with that n have "unat f \<in> {g..<g + unat n}" by auto
    with nf show ?thesis by (auto simp: free_run_def)
  qed
  with n f1 nf assms(2) show ?thesis by (auto simp: scan_inv_def word_less_nat_alt)
qed

lemma scan_inv_free:
  assumes inv: "scan_inv s n f start run" and f: "unat f < 1048576" "\<not> frame_test s f"
    and more: "run + 1 \<noteq> n"
  shows "scan_inv s n (f + 1) (if run = 0 then f else start) (run + 1)"
proof -
  have rn: "unat run < unat n" and rf: "unat run \<le> unat f"
    using inv by (simp_all add: scan_inv_def word_less_nat_alt word_le_nat_alt)
  have f1: "unat (f + 1) = unat f + 1" using f unat_inc[of f FRAMES_TOTAL] by simp
  have r1: "unat (run + 1) = unat run + 1" using rn by (rule unat_inc)
  have lt: "unat run + 1 < unat n" using rn r1 more by (metis Suc_eq_plus1 Suc_lessI word_unat_eq_iff)
  have ff: "free_at s (unat f)" using f by (simp add: free_at_unat free_set_def word_less_nat_alt)
  have free: "free_at s k" if "unat f - unat run \<le> k" "k < unat f + 1" for k
    using that inv ff by (cases "k = unat f") (auto simp: scan_inv_def)
  have st: "(if run = 0 then f else start) = f + 1 - (run + 1)"
    using inv by (auto simp: scan_inv_def)
  have "\<not> free_run s (unat n) g" if g: "g + unat n \<le> unat f + 1" for g
  proof (cases "g + unat n \<le> unat f")
    case True
    with inv show ?thesis by (simp add: scan_inv_def)
  next
    case False
    with g lt have "unat f - unat run - 1 \<in> {g..<g + unat n}" "unat run < unat f" by auto
    moreover from this inv have "\<not> free_at s (unat f - unat run - 1)"
      by (simp add: scan_inv_def word_less_nat_alt)
    ultimately show ?thesis by (auto simp: free_run_def)
  qed
  moreover have "unat run < unat f \<Longrightarrow> \<not> free_at s (unat f - unat run - 1)"
    using inv by (simp add: scan_inv_def word_less_nat_alt)
  ultimately show ?thesis
    using f1 r1 lt rf f free st
    by (simp add: scan_inv_def word_less_nat_alt word_le_nat_alt)
qed

lemma run_scan_spec:
  "scan_inv s n f start run \<Longrightarrow>
   case run_scan s n f start run of
     Inr (a, s') \<Rightarrow> \<exists>g. free_run s (unat n) g \<and> (\<forall>h < g. \<not> free_run s (unat n) h)
       \<and> a = of_nat g * FRAME_SIZE \<and> s' = take_run s (of_nat g) (of_nat g + n)
   | Inl e \<Rightarrow> (\<forall>g. \<not> free_run s (unat n) g) \<and> e = KernelPanic ''PMM: No contiguous frames''"
proof (induction s n f start run rule: run_scan.induct)
  case (1 s n f start run)
  have n: "0 < unat n" using "1.prems" by (simp add: scan_inv_def word_less_nat_alt)
  show ?case
  proof (cases "f < FRAMES_TOTAL")
    case False
    have "\<not> free_run s (unat n) g" for g
      using "1.prems" False free_run_bound[of s "unat n" g] n
      by (auto simp: scan_inv_def word_less_nat_alt)
    with False show ?thesis by (simp add: run_scan.simps[of s] kernel_panic_def)
  next
    case True
    then have f: "unat f < 1048576" by (simp add: word_less_nat_alt)
    consider "frame_test s f" | "\<not> frame_test s f" "run + 1 \<noteq> n" | "\<not> frame_test s f" "run + 1 = n" by blast
    then show ?thesis
    proof cases
      case 1
      with True "1.IH"(2) scan_inv_used[OF "1.prems" f] show ?thesis
        by (simp add: run_scan.simps[of s n f])
    next
      case 2
      with True "1.IH"(1) scan_inv_free[OF "1.prems" f] show ?thesis
        by (simp add: run_scan.simps[of s n f] Let_def)
    next
      case 3
      let ?g = "unat f - unat run"
      have rf: "unat run \<le> unat f" and rn: "unat n = unat run + 1"
        using "1.prems" 3 unat_inc[of run n] by (auto simp: scan_inv_def word_less_nat_alt word_le_nat_alt)
      have ff: "free_at s (unat f)" using 3 True by (simp add: free_at_unat free_set_def)
      have "free_run s (unat n) ?g"
        unfolding free_run_def
      proof
        fix k assume "k \<in> {?g..<?g + unat n}"
        with "1.prems" ff rn rf show "free_at s k" by (cases "k = unat f") (auto simp: scan_inv_def)
      qed
      moreover have "\<forall>h < ?g. \<not> free_run s (unat n) h"
        using "1.prems" rn rf by (auto simp: scan_inv_def)
      moreover have "(if run = 0 then f else start) = of_nat ?g"
        using "1.prems" rf by (auto simp: scan_inv_def of_nat_diff)
      ultimately show ?thesis using True 3
        by (auto simp: run_scan.simps[of s n f] Let_def intro!: exI[of _ ?g])
    qed
  qed
qed

lemma run_scan_0:
  "unat run \<le> unat f \<Longrightarrow> run_scan s 0 f start run = kernel_panic ''PMM: No contiguous frames''"
proof (induction s "0 :: u32" f start run rule: run_scan.induct)
  case (1 s f start run)
  show ?case
  proof (cases "f < FRAMES_TOTAL")
    case True
    then have f1: "unat (f + 1) = unat f + 1" using unat_inc[of f FRAMES_TOTAL] by (simp add: word_less_nat_alt)
    with "1.prems" True have r1: "unat (run + 1) = unat run + 1"
      using unat_inc[of run FRAMES_TOTAL] by (simp add: word_less_nat_alt)
    then have "run + 1 \<noteq> 0" by (metis Suc_eq_plus1 nat.distinct(1) unat_0)
    with "1.hyps" "1.prems" True f1 r1 show ?thesis
      by (simp add: run_scan.simps[of s 0 f] Let_def)
  qed (simp add: run_scan.simps[of s 0 f])
qed

lemma pmm_alloc_frames_cases:
  assumes "n \<noteq> 0"
  shows "case pmm_alloc_frames s n of
     Inr (a, s') \<Rightarrow> \<exists>g. free_run s (unat n) g \<and> (\<forall>h < g. \<not> free_run s (unat n) h)
       \<and> a = of_nat g * FRAME_SIZE \<and> s' = take_run s (of_nat g) (of_nat g + n)
   | Inl e \<Rightarrow> (\<forall>g. \<not> free_run s (unat n) g) \<and> e = KernelPanic ''PMM: No contiguous frames''"
proof -
  have "0 < unat n" using assms by (simp add: unat_gt_0)
  then have "scan_inv s n 0 0 0" by (simp add: scan_inv_def word_less_nat_alt)
  from run_scan_spec[OF this] show ?thesis by (simp add: pmm_alloc_frames_def)
qed

lemma run_words:
  fixes n :: u32
  assumes "g + unat n \<le> 1048576"
  shows "{f. of_nat g \<le> f \<and> f < of_nat g + n} = of_nat ` {g..<g + unat n}"
proof -
  have g: "unat (of_nat g :: u32) = g" using assms by (intro unat_of_nat_eq_32) simp
  have gn: "unat (of_nat g + n :: u32) = g + unat n"
    using assms g by (subst unat_add_lem[THEN iffD1]) simp_all
  have "f \<in> of_nat ` {g..<g + unat n} \<longleftrightarrow> g \<le> unat f \<and> unat f < g + unat n" for f :: u32
  proof
    assume "f \<in> of_nat ` {g..<g + unat n}"
    then obtain k where "k \<in> {g..<g + unat n}" "f = of_nat k" by auto
    with assms show "g \<le> unat f \<and> unat f < g + unat n" by (simp add: unat_of_nat_eq_32)
  next
    assume "g \<le> unat f \<and> unat f < g + unat n"
    then show "f \<in> of_nat ` {g..<g + unat n}" by (intro image_eqI[of _ _ "unat f"]) simp_all
  qed
  with g gn show ?thesis by (auto simp: word_le_nat_alt word_less_nat_alt)
qed

lemma free_run_free_set:
  assumes "free_run s (unat n) g" "n \<noteq> 0"
  shows "{f. of_nat g \<le> f \<and> f < of_nat g + n} \<subseteq> free_set s"
proof -
  have "g + unat n \<le> 1048576" using free_run_bound[OF assms(1)] assms(2) by (simp add: unat_gt_0)
  note words = run_words[OF this]
  have "of_nat k \<in> free_set s" if "k \<in> {g..<g + unat n}" for k
  proof -
    have "free_at s k" using that assms(1) by (simp add: free_run_def)
    moreover from this have "unat (of_nat k :: u32) = k"
      by (intro unat_of_nat_eq_32) (simp add: free_at_def)
    ultimately show ?thesis using free_at_unat[of s "of_nat k"] by simp
  qed
  then show ?thesis unfolding words by blast
qed

lemma alloc_frames_Inr:
  assumes "pmm_inv s" "n \<noteq> 0" "pmm_alloc_frames s n = Inr (a, s')"
  obtains g where "a = of_nat g * FRAME_SIZE" "free_run s (unat n) g" "\<forall>h < g. \<not> free_run s (unat n) h"
    "g + unat n \<le> 1048576" "pmm_inv s'" "of_nat ` {g..<g + unat n} \<subseteq> free_set s"
    "free_set s' = free_set s - of_nat ` {g..<g + unat n}"
proof -
  have n: "0 < unat n" using assms(2) by (simp add: unat_gt_0)
  from pmm_alloc_frames_cases[OF assms(2), of s] assms(3) obtain g where g: "free_run s (unat n) g"
    "\<forall>h < g. \<not> free_run s (unat n) h" "a = of_nat g * FRAME_SIZE" "s' = take_run s (of_nat g) (of_nat g + n)" by auto
  note b = free_run_bound[OF g(1) n] and sub = free_run_free_set[OF g(1) assms(2)]
  show thesis
    using that[OF g(3,1,2) b] take_run_spec[OF assms(1) sub] sub unfolding run_words[OF b] g(4) by blast
qed

lemma alloc_frames_Inl:
  assumes "pmm_alloc_frames s n = Inl e"
  shows "(n = 0 \<or> (\<forall>g. \<not> free_run s (unat n) g)) \<and> e = KernelPanic ''PMM: No contiguous frames''"
proof (cases "n = 0")
  case True
  then show ?thesis using assms run_scan_0[of 0 0 s 0] by (simp add: pmm_alloc_frames_def kernel_panic_def)
next
  case False
  with pmm_alloc_frames_cases[OF False, of s] assms show ?thesis by simp
qed

section \<open>Initialisation from the memory map\<close>

definition region :: "u32 \<Rightarrow> u32 \<Rightarrow> u32 set" where
  "region f lim = {g. f \<le> g \<and> g < lim \<and> g < FRAMES_TOTAL}"

definition entry_region :: "MB2_MmapEntry \<Rightarrow> u32 set" where
  "entry_region e = (case entry_frames e of None \<Rightarrow> {} | Some (a, c) \<Rightarrow> region a (a + c))"

lemma region_step:
  assumes "f < lim" "f < FRAMES_TOTAL"
  shows "region f lim = insert f (region (f + 1) lim)" and "f \<notin> region (f + 1) lim"
  using assms unat_inc[of f lim]
  by (auto simp: region_def word_less_nat_alt word_le_nat_alt word_unat_eq_iff)

lemma region_empty: "\<not> (f < lim \<and> f < FRAMES_TOTAL) \<Longrightarrow> region f lim = {}"
  by (auto simp: region_def)

lemma pmm_inv_total [simp]: "pmm_inv (s\<lparr>total_frames := x\<rparr>) = pmm_inv s"
  by (simp add: pmm_inv_def)

lemma free_region_spec:
  assumes "pmm_inv s" "region f lim \<inter> free_set s = {}"
  shows "pmm_inv (free_region s f lim) \<and> free_set (free_region s f lim) = free_set s \<union> region f lim"
  using assms
proof (induction s f lim rule: free_region.induct)
  case (1 s f lim)
  show ?case
  proof (cases "f < lim \<and> f < FRAMES_TOTAL")
    case True
    let ?s = "(frame_clear s f)\<lparr>free_frames := free_frames s + 1, total_frames := total_frames s + 1\<rparr>"
    note r = region_step[OF conjunct1[OF True] conjunct2[OF True]]
    have "frame_test s f" using r "1.prems"(2) True by (auto simp: free_set_def)
    then have "pmm_inv ?s" using inv_give[OF "1.prems"(1)] True by simp
    then have "pmm_inv (free_region ?s (f + 1) lim) \<and>
        free_set (free_region ?s (f + 1) lim) = free_set ?s \<union> region (f + 1) lim"
      using r "1.prems"(2) True by (intro "1.IH") (auto simp: not_le)
    then show ?thesis using True r by (auto simp: free_region.simps[of s f])
  next
    case False
    with region_empty[OF this] "1.prems"(1) show ?thesis
      by (auto simp: free_region.simps[of s f] not_less)
  qed
qed

lemma free_entry_spec:
  assumes "pmm_inv s" "entry_region e \<inter> free_set s = {}"
  shows "pmm_inv (free_entry s e) \<and> free_set (free_entry s e) = free_set s \<union> entry_region e"
  using assms free_region_spec[of s] by (auto simp: free_entry_def entry_region_def split: option.splits)

definition disjoint_map :: "MB2_MmapEntry list \<Rightarrow> bool" where
  "disjoint_map es \<longleftrightarrow> sorted_wrt (\<lambda>e e'. entry_region e \<inter> entry_region e' = {}) es"

lemma free_entries_spec:
  assumes "pmm_inv s" "disjoint_map es" "\<forall>e \<in> set es. entry_region e \<inter> free_set s = {}"
  shows "pmm_inv (foldl free_entry s es)
    \<and> free_set (foldl free_entry s es) = free_set s \<union> (\<Union>e \<in> set es. entry_region e)"
  using assms
proof (induction es arbitrary: s)
  case (Cons e es)
  have s1: "pmm_inv (free_entry s e)" "free_set (free_entry s e) = free_set s \<union> entry_region e"
    using Cons.prems free_entry_spec[of s e] by auto
  have "\<forall>e' \<in> set es. entry_region e' \<inter> free_set (free_entry s e) = {}"
    using Cons.prems(2,3) by (auto simp: s1(2) disjoint_map_def)
  moreover have "disjoint_map es" using Cons.prems(2) by (simp add: disjoint_map_def)
  ultimately show ?case using Cons.IH[OF s1(1)] by (auto simp: s1(2))
qed simp

lemma reserve_frames_spec:
  assumes "pmm_inv s" "set fs \<subseteq> {f. f < FRAMES_TOTAL}"
  shows "pmm_inv (foldl reserve_frame s fs) \<and> free_set (foldl reserve_frame s fs) = free_set s - set fs"
  using assms
proof (induction fs arbitrary: s)
  case (Cons f fs)
  have "pmm_inv (reserve_frame s f) \<and> free_set (reserve_frame s f) = free_set s - {f}"
    using Cons.prems inv_take[of s f] by (auto simp: reserve_frame_def free_set_def)
  with Cons.IH[of "reserve_frame s f"] Cons.prems(2) show ?case by auto
qed simp

abbreviation k_end_frame :: "u32 \<Rightarrow> u32" where
  "k_end_frame k \<equiv> (k + FRAME_SIZE - 1) div FRAME_SIZE"

definition kernel_frames :: "u32 \<Rightarrow> u32 set" where
  "kernel_frames k = {f. 256 \<le> f \<and> f \<le> k_end_frame k}"

lemma kernel_frames_set:
  "set (map of_nat [unat (KERNEL_PHYS_BASE div FRAME_SIZE)..<Suc (unat (k_end_frame k))]) = kernel_frames k"
proof -
  have b: "unat (KERNEL_PHYS_BASE div FRAME_SIZE) = 256"
    by (simp add: KERNEL_PHYS_BASE_def FRAME_SIZE_def)
  have "of_nat ` {256..<Suc (unat e)} = {f. 256 \<le> f \<and> f \<le> (e :: u32)}" for e
  proof (intro set_eqI iffI)
    fix f :: u32 assume "f \<in> of_nat ` {256..<Suc (unat e)}"
    then obtain k where "256 \<le> k" "k \<le> unat e" "f = of_nat k" by auto
    with u32_bound[of e] show "f \<in> {f. 256 \<le> f \<and> f \<le> e}"
      by (simp add: word_le_nat_alt unat_of_nat_eq_32)
  next
    fix f assume "f \<in> {f. 256 \<le> f \<and> f \<le> e}"
    then show "f \<in> of_nat ` {256..<Suc (unat e)}"
      by (intro image_eqI[of _ _ "unat f"]) (auto simp: word_le_nat_alt)
  qed
  with b show ?thesis by (simp add: kernel_frames_def del: upt_Suc)
qed

lemma memset_bitmap_empty:
  "free_set (s\<lparr>bitmap := (\<lambda>i. if i < BITMAP_WORDS then 0xFFFFFFFF else bitmap s i)\<rparr>) = {}"
proof -
  have ones: "bit (0xFFFFFFFF :: u32) k" if "k < 32" for k
  proof -
    have "(0xFFFFFFFF :: u32) = mask 32" by (simp add: mask_eq_exp_minus_1)
    with that show ?thesis by (simp only: bit_mask_iff) simp
  qed
  have "f div 32 < BITMAP_WORDS" if "f < FRAMES_TOTAL" for f
    using that by (simp add: BITMAP_WORDS_def word_less_nat_alt unat_div less_mult_imp_div_less)
  with ones unat_mod_32 show ?thesis by (auto simp: free_set_def frame_test_bit)
qed

lemma pmm_init_spec:
  assumes "last_alloc s \<le> FRAMES_TOTAL" "disjoint_map es"
  shows "pmm_inv (pmm_init k s es)
    \<and> free_set (pmm_init k s es) = (\<Union>e \<in> set es. entry_region e) - kernel_frames k"
proof -
  let ?s = "s\<lparr>bitmap := (\<lambda>i. if i < BITMAP_WORDS then 0xFFFFFFFF else bitmap s i), free_frames := 0\<rparr>"
  have "pmm_inv ?s" using assms(1) memset_bitmap_empty[of s] by (simp add: pmm_inv_def)
  from free_entries_spec[OF this assms(2)] have e: "pmm_inv (foldl free_entry ?s es)"
    "free_set (foldl free_entry ?s es) = (\<Union>e \<in> set es. entry_region e)"
    by (simp_all add: memset_bitmap_empty)
  have "kernel_frames k \<subseteq> {f. f < FRAMES_TOTAL}"
    using address_frame_less[of "k + FRAME_SIZE - 1"] by (auto simp: kernel_frames_def)
  with reserve_frames_spec[OF e(1)] e(2) kernel_frames_set[of k] show ?thesis
    by (simp only: pmm_init_def Let_def)
qed

text \<open>An available entry with a page-aligned base below 4 GiB frees only whole frames that lie inside
  it and above the first megabyte.\<close>

definition entry_ok :: "MB2_MmapEntry \<Rightarrow> bool" where
  "entry_ok e \<longleftrightarrow> base_addr e mod 4096 = 0 \<and> unat (base_addr e) + unat (len e) \<le> 2 ^ 32"

lemma unat_ucast_u32: "unat (x :: u64) < 2 ^ 32 \<Longrightarrow> unat (ucast x :: u32) = unat x"
  by (simp add: unsigned_ucast_eq take_bit_nat_eq_self)

lemma entry_frames_inside:
  assumes ok: "entry_ok e" and ef: "entry_frames e = Some (a, c)"
  shows "mtype e = MB2_MMAP_AVAILABLE" "256 \<le> unat a" "unat (base_addr e) \<le> unat a * 4096"
    "(unat a + unat c) * 4096 \<le> unat (base_addr e) + unat (len e)" "unat (a + c) = unat a + unat c"
proof -
  let ?b = "unat (base_addr e)" and ?l = "unat (len e)"
  have b0: "?b mod 4096 = 0" and sum: "?b + ?l \<le> 2 ^ 32"
    using ok by (simp_all add: entry_ok_def word_unat_eq_iff unat_mod)
  show ty: "mtype e = MB2_MMAP_AVAILABLE" using ef by (simp add: entry_frames_def split: if_splits)
  have main: "256 \<le> unat a \<and> ?b \<le> unat a * 4096 \<and> (unat a + unat c) * 4096 \<le> ?b + ?l"
  proof (cases "base_addr e < 0x100000")
    case True
    let ?k = "0x100000 - ?b"
    have k: "unat (0x100000 - base_addr e) = ?k" "?b \<le> 0x100000"
      using unat_minus_numeral[OF less_imp_le[OF True]] True by (simp_all add: word_less_nat_alt)
    from ef ty True have lt: "?k < ?l" and ac: "a = ucast ((base_addr e + (0x100000 - base_addr e)) div 4096)"
        "c = ucast ((len e - (0x100000 - base_addr e)) div 4096)"
      using k by (auto simp: entry_frames_def Let_def word_le_nat_alt split: if_splits)
    have "base_addr e + (0x100000 - base_addr e) = 0x100000" by simp
    with ac(1) have ua: "unat a = 256" by simp
    have "unat (len e - (0x100000 - base_addr e)) = ?l - ?k"
      using k lt by (simp add: unat_minus_numeral word_le_nat_alt)
    then have "unat c = (?l - ?k) div 4096"
      using ac(2) sum by (simp add: unat_ucast_u32 unat_div)
    with ua lt k(2) b0 show ?thesis by auto
  next
    case False
    then have b: "0x100000 \<le> ?b" by (simp add: word_less_nat_alt not_less)
    from ef ty False have ac: "a = ucast (base_addr e div 4096)" "c = ucast (len e div 4096)"
      by (simp_all add: entry_frames_def)
    have "unat a = ?b div 4096" "unat c = ?l div 4096"
      unfolding ac using sum by (simp_all add: unat_ucast_u32 unat_div)
    moreover have "?b div 4096 * 4096 = ?b" using b0 by auto
    moreover have "256 \<le> ?b div 4096" using b by (simp add: less_eq_div_iff_mult_less_eq)
    ultimately show ?thesis by (simp add: algebra_simps)
  qed
  then show "256 \<le> unat a" "?b \<le> unat a * 4096" "(unat a + unat c) * 4096 \<le> ?b + ?l" by auto
  show "unat (a + c) = unat a + unat c"
    using main sum by (intro unat_add_lem[THEN iffD1]) simp
qed

lemma entry_region_inside:
  assumes "entry_ok e" "f \<in> entry_region e"
  shows "mtype e = MB2_MMAP_AVAILABLE" "256 \<le> unat f"
    "unat (base_addr e) \<le> unat f * 4096" "unat f * 4096 + 4096 \<le> unat (base_addr e) + unat (len e)"
proof -
  from assms(2) obtain a c where ac: "entry_frames e = Some (a, c)" and f: "a \<le> f" "f < a + c"
    by (auto simp: entry_region_def region_def split: option.splits)
  note in_e = entry_frames_inside[OF assms(1) ac]
  show "mtype e = MB2_MMAP_AVAILABLE" by (rule in_e(1))
  from f in_e(5) have "unat a \<le> unat f" "unat f < unat a + unat c"
    by (simp_all add: word_le_nat_alt word_less_nat_alt)
  moreover from this have "(unat f + 1) * 4096 \<le> (unat a + unat c) * 4096"
    by (intro mult_le_mono1) simp
  ultimately show "256 \<le> unat f" "unat (base_addr e) \<le> unat f * 4096"
    "unat f * 4096 + 4096 \<le> unat (base_addr e) + unat (len e)"
    using in_e(2,3,4) by simp_all
qed

lemma outside_kernel:
  assumes "f \<notin> kernel_frames k" "256 \<le> unat f" "unat k \<le> 0xFFFFF000"
  shows "unat k < unat f * 4096"
proof -
  have "unat (k + 4095) = unat k + 4095"
    using assms(3) by (subst unat_add_lem[THEN iffD1]) simp_all
  moreover have "k + FRAME_SIZE - 1 = k + 4095" by (simp add: FRAME_SIZE_def)
  ultimately have "unat (k + FRAME_SIZE - 1) = unat k + 4095" by (simp only:)
  then have "unat (k_end_frame k) = (unat k + 4095) div 4096" by (simp add: unat_div FRAME_SIZE_def)
  moreover have "unat (k_end_frame k) < unat f"
    using assms(1,2) by (auto simp: kernel_frames_def word_le_nat_alt)
  ultimately show ?thesis by linarith
qed

section \<open>The interface other components rely on\<close>

text \<open>An allocator of frames: what its clients know of the free set.\<close>

locale frame_allocator =
  fixes inv :: "'s \<Rightarrow> bool" and free :: "'s \<Rightarrow> u32 set"
    and alloc :: "'s \<Rightarrow> (u32 \<times> 's) result" and release :: "'s \<Rightarrow> u32 \<Rightarrow> 's"
  assumes alloc_Inr: "inv s \<Longrightarrow> alloc s = Inr (a, s') \<Longrightarrow>
      inv s' \<and> a mod 4096 = 0 \<and> a div 4096 \<in> free s \<and> free s' = free s - {a div 4096}"
    and alloc_Inl: "inv s \<Longrightarrow> alloc s = Inl e \<Longrightarrow> free s = {}"
    and alloc_empty: "free s = {} \<Longrightarrow> inv s \<Longrightarrow> \<exists>e. alloc s = Inl e"
    and release: "inv s \<Longrightarrow> inv (release s a) \<and> free (release s a) = insert (a div 4096) (free s)"

text \<open>A client that takes several frames one after the other.\<close>

fun alloc_n :: "('s \<Rightarrow> (u32 \<times> 's) result) \<Rightarrow> nat \<Rightarrow> 's \<Rightarrow> (u32 list \<times> 's) result" where
  "alloc_n al 0 s = Inr ([], s)"
| "alloc_n al (Suc n) s = rbind (al s) (\<lambda>(a, s). rbind (alloc_n al n s) (\<lambda>(as, s). Inr (a # as, s)))"

context frame_allocator
begin

lemma alloc_n_Inr:
  "inv s \<Longrightarrow> alloc_n alloc n s = Inr (as, s') \<Longrightarrow>
   inv s' \<and> length as = n \<and> distinct as \<and> (\<forall>a \<in> set as. a mod 4096 = 0)
   \<and> (\<lambda>a. a div 4096) ` set as \<subseteq> free s \<and> free s' = free s - (\<lambda>a. a div 4096) ` set as"
proof (induction n arbitrary: s as s')
  case (Suc n)
  then obtain a s1 as1 where a: "alloc s = Inr (a, s1)" "alloc_n alloc n s1 = Inr (as1, s')" "as = a # as1"
    by (auto simp: rbind_Inr_iff)
  note first = alloc_Inr[OF Suc.prems(1) a(1)]
  with Suc.IH[OF _ a(2)] have rest: "inv s'" "length as1 = n" "distinct as1" "\<forall>a \<in> set as1. a mod 4096 = 0"
    "(\<lambda>a. a div 4096) ` set as1 \<subseteq> free s1" "free s' = free s1 - (\<lambda>a. a div 4096) ` set as1" by auto
  have "a \<notin> set as1" using rest(5) first by auto
  with rest first a(3) show ?case by auto
qed simp

lemma alloc_n_total:
  "inv s \<Longrightarrow> n \<le> card (free s) \<longleftrightarrow> (\<exists>as s'. alloc_n alloc n s = Inr (as, s'))"
proof (induction n arbitrary: s)
  case (Suc n)
  show ?case
  proof (cases "alloc s")
    case (Inl e)
    with alloc_Inl[OF Suc.prems] show ?thesis by simp
  next
    case (Inr p)
    obtain a s1 where p: "p = (a, s1)" by (cases p)
    note first = alloc_Inr[OF Suc.prems Inr[unfolded p]]
    then have c: "card (free s1) = card (free s) - 1" "0 < card (free s)"
      by (auto simp: card_gt_0_iff)
    have "n \<le> card (free s1) \<longleftrightarrow> (\<exists>as s'. alloc_n alloc n s1 = Inr (as, s'))"
      using first by (intro Suc.IH) blast
    moreover have "Suc n \<le> card (free s) \<longleftrightarrow> n \<le> card (free s1)" using c by linarith
    moreover have "(\<exists>as s'. alloc_n alloc (Suc n) s = Inr (as, s')) \<longleftrightarrow> (\<exists>as s'. alloc_n alloc n s1 = Inr (as, s'))"
      by (auto simp: Inr p rbind_Inr_iff)
    ultimately show ?thesis by (simp only:)
  qed
qed simp

lemma release_all:
  "inv s \<Longrightarrow> inv (foldl release s as) \<and> free (foldl release s as) = free s \<union> (\<lambda>a. a div 4096) ` set as"
proof (induction as arbitrary: s)
  case (Cons a as)
  then show ?case using release[of s a] by auto
qed simp

lemma alloc_release_all:
  assumes "inv s" "alloc_n alloc n s = Inr (as, s')"
  shows "inv (foldl release s' as) \<and> free (foldl release s' as) = free s"
  using alloc_n_Inr[OF assms] release_all[of s' as] by auto

end

lemma pmm_free_frame_spec:
  assumes "pmm_inv s"
  shows "pmm_inv (pmm_free_frame s a) \<and> free_set (pmm_free_frame s a) = insert (a div FRAME_SIZE) (free_set s)"
  using assms address_frame_less[of a] inv_give[OF assms, of "a div FRAME_SIZE"]
  by (auto simp: pmm_free_frame_def Let_def free_set_def not_le)

interpretation pm: frame_allocator pmm_inv free_set pmm_alloc_frame pmm_free_frame
proof unfold_locales
  fix s a s' assume s: "pmm_inv s" "pmm_alloc_frame s = Inr (a, s')"
  obtain f where f: "f \<in> free_set s" "a = f * FRAME_SIZE" "s' = taken s f"
    by (rule pmm_alloc_frame_Inr[OF s(2)])
  then have "f < FRAMES_TOTAL" by (simp add: free_set_def)
  with f frame_of_address[of f] frame_address_aligned[of f] pmm_inv_taken[OF s(1) f(1)]
  show "pmm_inv s' \<and> a mod 4096 = 0 \<and> a div 4096 \<in> free_set s \<and> free_set s' = free_set s - {a div 4096}"
    by (simp add: FRAME_SIZE_def)
next
  fix s e assume "pmm_inv s" "pmm_alloc_frame s = Inl e"
  then show "free_set s = {}" using pmm_alloc_frame_Inl by blast
next
  fix s assume "free_set s = {}" "pmm_inv s"
  then show "\<exists>e. pmm_alloc_frame s = Inl e"
    by (auto simp: pmm_alloc_frame_def kernel_panic_def inv_free_frames_0)
next
  fix s a assume "pmm_inv s"
  from pmm_free_frame_spec[OF this, of a]
  show "pmm_inv (pmm_free_frame s a) \<and> free_set (pmm_free_frame s a) = insert (a div 4096) (free_set s)"
    by (simp add: FRAME_SIZE_def)
qed

text \<open>An allocator that also hands out runs of frames with consecutive addresses. A client that releases a
  run does it frame by frame, as \<^verbatim>\<open>ipc/shared_surface.c\<close> does.\<close>

definition run_addrs :: "u32 \<Rightarrow> u32 \<Rightarrow> u32 list" where
  "run_addrs a n = map (\<lambda>p. a + of_nat p * 4096) [0..<unat n]"

definition run_frames :: "u32 \<Rightarrow> u32 \<Rightarrow> u32 set" where
  "run_frames a n = (\<lambda>x. x div 4096) ` set (run_addrs a n)"

locale run_allocator = frame_allocator +
  fixes alloc_run :: "'a \<Rightarrow> u32 \<Rightarrow> (u32 \<times> 'a) result"
  assumes run_Inr: "inv s \<Longrightarrow> alloc_run s n = Inr (a, s') \<Longrightarrow>
      n \<noteq> 0 \<and> inv s' \<and> a mod 4096 = 0 \<and> run_frames a n \<subseteq> free s \<and> free s' = free s - run_frames a n"
begin

lemma release_run:
  "inv s \<Longrightarrow> inv (foldl release s (run_addrs a n)) \<and> free (foldl release s (run_addrs a n)) = free s \<union> run_frames a n"
  using release_all[of s "run_addrs a n"] by (simp add: run_frames_def)

lemma run_release_restores:
  assumes "inv s" "alloc_run s n = Inr (a, s')"
  shows "inv (foldl release s' (run_addrs a n)) \<and> free (foldl release s' (run_addrs a n)) = free s"
  using run_Inr[OF assms] release_run[of s' a n] by auto

end

lemma run_frames_of_nat:
  assumes "g + unat n \<le> 1048576"
  shows "run_frames (of_nat g * FRAME_SIZE) n = of_nat ` {g..<g + unat n}"
proof -
  have "(of_nat g * FRAME_SIZE + of_nat p * 4096) div 4096 = (of_nat (g + p) :: u32)" if "p < unat n" for p
  proof -
    have "of_nat g * FRAME_SIZE + of_nat p * 4096 = (of_nat (g + p) * FRAME_SIZE :: u32)"
      by (simp add: FRAME_SIZE_def algebra_simps)
    moreover have "(of_nat (g + p) :: u32) < FRAMES_TOTAL"
      using that assms by (simp add: word_less_nat_alt unat_of_nat_eq_32 del: of_nat_add)
    ultimately show ?thesis using frame_of_address[of "of_nat (g + p)"] by (simp only: FRAME_SIZE_def)
  qed
  then have "run_frames (of_nat g * FRAME_SIZE) n = (\<lambda>p. of_nat (g + p)) ` {0..<unat n}"
    unfolding run_frames_def run_addrs_def set_map set_upt image_image by (intro image_cong) auto
  also have "\<dots> = of_nat ` ((+) g ` {0..<unat n})" by (simp only: image_image)
  also have "(+) g ` {0..<unat n} = {g..<g + unat n}" by (simp add: add.commute)
  finally show ?thesis .
qed

interpretation pm_run: run_allocator pmm_inv free_set pmm_alloc_frame pmm_free_frame pmm_alloc_frames
proof unfold_locales
  fix s n a s' assume s: "pmm_inv s" "pmm_alloc_frames s n = Inr (a, s')"
  then have n: "n \<noteq> 0" using run_scan_0[of 0 0 s 0] by (auto simp: pmm_alloc_frames_def kernel_panic_def)
  obtain g where g: "a = of_nat g * FRAME_SIZE" "g + unat n \<le> 1048576" "pmm_inv s'"
    "of_nat ` {g..<g + unat n} \<subseteq> free_set s" "free_set s' = free_set s - of_nat ` {g..<g + unat n}"
    by (rule alloc_frames_Inr[OF s(1) n s(2)])
  have "0 < unat n" using n by (simp add: unat_gt_0)
  with g(2) have "(of_nat g :: u32) < FRAMES_TOTAL" by (simp add: word_less_nat_alt unat_of_nat_eq_32)
  with g n frame_address_aligned[of "of_nat g"]
  show "n \<noteq> 0 \<and> pmm_inv s' \<and> a mod 4096 = 0 \<and> run_frames a n \<subseteq> free_set s \<and> free_set s' = free_set s - run_frames a n"
    by (simp add: run_frames_of_nat[OF g(2), unfolded FRAME_SIZE_def] FRAME_SIZE_def)
qed

section \<open>A concrete machine\<close>

text \<open>A machine with one available entry of four frames at one megabyte and a kernel that ends inside
  the first of them.\<close>

definition sample_map :: "MB2_MmapEntry list" where
  "sample_map = [\<lparr>base_addr = 0, len = 0x9F000, mtype = 2, reserved = 0\<rparr>,
     \<lparr>base_addr = 0x100000, len = 0x4000, mtype = 1, reserved = 0\<rparr>]"

lemma sample_map_ok: "disjoint_map sample_map" "\<forall>e \<in> set sample_map. entry_ok e"
  by (simp_all add: sample_map_def disjoint_map_def entry_region_def entry_frames_def entry_ok_def
      MB2_MMAP_AVAILABLE_def)

abbreviation sample_pmm :: pmm where
  "sample_pmm \<equiv> (pmm_init 0x100800 boot_pmm sample_map)\<lparr>last_alloc := 0x100\<rparr>"

lemma sample_inv: "pmm_inv sample_pmm"
  using pmm_init_spec[OF _ sample_map_ok(1), of boot_pmm "0x100800"]
  by (intro inv_last_alloc) (simp_all add: boot_pmm_def FRAMES_TOTAL_def)

lemma sample_alloc: "(case pmm_alloc_frame sample_pmm of Inl e \<Rightarrow> 0 | Inr (a, s') \<Rightarrow> a) = 0x102000"
  by code_simp

lemma sample_alloc_2: "(case pmm_alloc_frames sample_pmm 2 of Inl e \<Rightarrow> 0 | Inr (a, s') \<Rightarrow> a) = 0x102000"
  by code_simp

lemma sample_alloc_n:
  "(case alloc_n pmm_alloc_frame 2 sample_pmm of Inl e \<Rightarrow> [] | Inr (as, s') \<Rightarrow> as) = [0x102000, 0x103000]"
  by code_simp

section \<open>Properties\<close>

text \<open>C2: For a memory map whose available entries do not overlap, are page aligned and lie below
  4 GiB, \<^verbatim>\<open>pmm_init\<close> establishes the invariant (the free counter is the number of clear bits), and every
  frame it leaves free lies wholly inside an available entry, above the first megabyte and above the
  end of the kernel image.\<close>

theorem pmm_init_sound:
  assumes "disjoint_map es" "\<forall>e \<in> set es. entry_ok e" "unat k \<le> 0xFFFFF000"
  shows "pmm_inv (pmm_init k boot_pmm es) \<and>
    (\<forall>f \<in> free_set (pmm_init k boot_pmm es). 0x100000 \<le> unat f * 4096 \<and> unat k < unat f * 4096 \<and>
       (\<exists>e \<in> set es. mtype e = MB2_MMAP_AVAILABLE \<and> unat (base_addr e) \<le> unat f * 4096
          \<and> unat f * 4096 + 4096 \<le> unat (base_addr e) + unat (len e)))"
proof -
  have init: "pmm_inv (pmm_init k boot_pmm es)"
    "free_set (pmm_init k boot_pmm es) = (\<Union>e \<in> set es. entry_region e) - kernel_frames k"
    using pmm_init_spec[OF _ assms(1), of boot_pmm k] by (simp_all add: boot_pmm_def)
  show ?thesis
  proof (intro conjI ballI)
    fix f assume "f \<in> free_set (pmm_init k boot_pmm es)"
    then obtain e where e: "e \<in> set es" "f \<in> entry_region e" "f \<notin> kernel_frames k"
      unfolding init(2) by blast
    note inside = entry_region_inside[OF assms(2)[rule_format, OF e(1)] e(2)]
    show "0x100000 \<le> unat f * 4096" using inside(2) by simp
    show "unat k < unat f * 4096" by (rule outside_kernel[OF e(3) inside(2) assms(3)])
    show "\<exists>e \<in> set es. mtype e = MB2_MMAP_AVAILABLE \<and> unat (base_addr e) \<le> unat f * 4096
        \<and> unat f * 4096 + 4096 \<le> unat (base_addr e) + unat (len e)"
      using e(1) inside by blast
  qed (rule init(1))
qed

theorem pmm_init_sound_witness: "pmm_inv (pmm_init 0x100800 boot_pmm sample_map)"
  using pmm_init_sound[of sample_map "0x100800"] sample_map_ok by simp

text \<open>C1: Under the invariant \<^verbatim>\<open>pmm_alloc_frame\<close> returns exactly when some frame is free, and panics
  with ``out of physical memory'' otherwise (its second panic is unreachable). It returns the page
  aligned address of the first free frame at or after the next-fit hint, in cyclic order, takes
  exactly that frame out of the free set, and keeps the invariant.\<close>

theorem pmm_alloc_frame_correct:
  assumes "pmm_inv s"
  shows "case pmm_alloc_frame s of
      Inl e \<Rightarrow> free_set s = {} \<and> e = KernelPanic ''PMM: Out of physical memory''
    | Inr (a, s') \<Rightarrow> pmm_inv s' \<and> a mod 4096 = 0 \<and> a div 4096 \<in> free_set s
        \<and> free_set s' = free_set s - {a div 4096}
        \<and> (\<exists>j < FRAMES_TOTAL. a = probe s j * FRAME_SIZE \<and> (\<forall>i < j. frame_test s (probe s i)))"
proof (cases "pmm_alloc_frame s")
  case (Inl e)
  with pmm_alloc_frame_Inl[OF assms Inl] show ?thesis by simp
next
  case (Inr p)
  obtain a s' where p: "p = (a, s')" by (cases p)
  have "alloc_scan s 0 = Inr (a, s')"
    using Inr p by (simp add: pmm_alloc_frame_def split: if_splits)
  from alloc_scan_Inr[OF this] pm.alloc_Inr[OF assms Inr[unfolded p]] Inr p show ?thesis by auto
qed

theorem pmm_alloc_frame_correct_witness:
  "\<exists>s'. pmm_alloc_frame sample_pmm = Inr (0x102000, s') \<and> pmm_inv s'"
  using pmm_alloc_frame_correct[OF sample_inv] sample_alloc
  by (cases "pmm_alloc_frame sample_pmm") auto

text \<open>C3: \<^verbatim>\<open>pmm_alloc_frames\<close> is first fit: for \<open>n > 0\<close> it returns exactly when there is a run of \<open>n\<close>
  free frames, the address is the lowest such run, all of its frames were free and are taken, no
  other frame changes and the invariant is kept; with no run it panics. A request for zero frames
  panics even when all memory is free.\<close>

theorem pmm_alloc_frames_first_fit:
  assumes "pmm_inv s"
  shows "case pmm_alloc_frames s n of
      Inl e \<Rightarrow> (n = 0 \<or> (\<forall>g. \<not> free_run s (unat n) g)) \<and> e = KernelPanic ''PMM: No contiguous frames''
    | Inr (a, s') \<Rightarrow> n \<noteq> 0 \<and> pmm_inv s' \<and> (\<exists>g. a = of_nat g * FRAME_SIZE \<and> free_run s (unat n) g
        \<and> (\<forall>h < g. \<not> free_run s (unat n) h) \<and> free_set s' = free_set s - of_nat ` {g..<g + unat n})"
proof (cases "n = 0")
  case True
  then show ?thesis using run_scan_0[of 0 0 s 0] by (simp add: pmm_alloc_frames_def kernel_panic_def)
next
  case False
  note r = pmm_alloc_frames_cases[OF False, of s]
  show ?thesis
  proof (cases "pmm_alloc_frames s n")
    case (Inr p)
    obtain a s' where p: "p = (a, s')" by (cases p)
    from alloc_frames_Inr[OF assms False Inr[unfolded p]] False show ?thesis by (simp add: Inr p) metis
  qed (use r in simp)
qed

theorem pmm_alloc_frames_first_fit_witness:
  "\<exists>s'. pmm_alloc_frames sample_pmm 2 = Inr (0x102000, s') \<and> pmm_inv s'"
  using pmm_alloc_frames_first_fit[OF sample_inv, of 2] sample_alloc_2
  by (cases "pmm_alloc_frames sample_pmm 2") auto

text \<open>C4: Taking \<open>n\<close> frames one by one succeeds exactly when at least \<open>n\<close> frames are free; the frames are
  distinct, page aligned and were free, and giving all of them back restores the free set and the
  invariant.\<close>

theorem pmm_alloc_release_restores:
  assumes "pmm_inv s"
  shows "(n \<le> card (free_set s) \<longleftrightarrow> (\<exists>as s'. alloc_n pmm_alloc_frame n s = Inr (as, s'))) \<and>
    (\<forall>as s'. alloc_n pmm_alloc_frame n s = Inr (as, s') \<longrightarrow>
       length as = n \<and> distinct as \<and> (\<forall>a \<in> set as. a mod 4096 = 0 \<and> a div 4096 \<in> free_set s)
       \<and> pmm_inv (foldl pmm_free_frame s' as) \<and> free_set (foldl pmm_free_frame s' as) = free_set s)"
proof (intro conjI allI impI)
  show "n \<le> card (free_set s) \<longleftrightarrow> (\<exists>as s'. alloc_n pmm_alloc_frame n s = Inr (as, s'))"
    by (rule pm.alloc_n_total[OF assms])
next
  fix as s' assume al: "alloc_n pmm_alloc_frame n s = Inr (as, s')"
  from pm.alloc_n_Inr[OF assms al] show "length as = n" "distinct as"
    "\<forall>a \<in> set as. a mod 4096 = 0 \<and> a div 4096 \<in> free_set s" by auto
  from pm.alloc_release_all[OF assms al] show "pmm_inv (foldl pmm_free_frame s' as)"
    "free_set (foldl pmm_free_frame s' as) = free_set s" by auto
qed

theorem pmm_alloc_release_restores_witness:
  "\<exists>s'. alloc_n pmm_alloc_frame 2 sample_pmm = Inr ([0x102000, 0x103000], s')
     \<and> free_set (foldl pmm_free_frame s' [0x102000, 0x103000]) = free_set sample_pmm"
  using pmm_alloc_release_restores[OF sample_inv, of 2] sample_alloc_n
  by (cases "alloc_n pmm_alloc_frame 2 sample_pmm") auto

end
