(* ===== verification/Surface.thy ===== *)
theory Surface
  imports Pmm
begin

text \<open>
  Shared surfaces, \<^verbatim>\<open>ipc/shared_surface.c\<close>: the table of 32 pixel buffers that the compositor and an
  application share. A surface owns a run of physical frames; the invariant says that no two surfaces
  share a frame, that none of their frames is free, and that their identifiers differ. The frame
  allocator enters through the locale \<open>run_allocator\<close>.
\<close>

section \<open>State and operations\<close>

definition MAX_SURFACES :: nat where "MAX_SURFACES = 32"

record SharedSurface =
  sid :: u32
  owner_pid :: u32
  width :: u32
  height :: u32
  pitch :: u32
  virt_addr_kernel :: u32
  virt_addr_user :: u32
  phys_base :: u32
  active :: bool

record surfs =
  surfaces :: "SharedSurface list"
  next_surface_id :: u32
  sframes :: pmm

definition zero_surface :: SharedSurface where
  "zero_surface = \<lparr>sid = 0, owner_pid = 0, width = 0, height = 0, pitch = 0, virt_addr_kernel = 0,
     virt_addr_user = 0, phys_base = 0, active = False\<rparr>"

definition surface_init :: "surfs \<Rightarrow> surfs" where
  "surface_init s = s\<lparr>surfaces := replicate MAX_SURFACES zero_surface\<rparr>"

text \<open>The page count both \<^verbatim>\<open>surface_create\<close> and \<^verbatim>\<open>surface_destroy\<close> compute from the size in pixels.\<close>

definition surface_pages :: "u32 \<Rightarrow> u32 \<Rightarrow> u32" where
  "surface_pages w h = (let size_bytes = w * h * 4 in (size_bytes + 4095) div 4096)"

text \<open>The pointer to a surface is its index in the table.\<close>

definition surface_create :: "u32 \<Rightarrow> u32 \<Rightarrow> u32 \<Rightarrow> surfs \<Rightarrow> (nat option \<times> surfs) result" where
  "surface_create pid w h s =
     (case first_slot (\<lambda>x. \<not> active x) (surfaces s) of
        None \<Rightarrow> Inr (None, s)
      | Some i \<Rightarrow>
          let x = (surfaces s ! i)\<lparr>sid := next_surface_id s, owner_pid := pid, width := w, height := h, pitch := w * 4\<rparr>;
              s = s\<lparr>next_surface_id := next_surface_id s + 1\<rparr> in
          rbind (pmm_alloc_frames (sframes s) (surface_pages w h)) (\<lambda>(base, fr).
            let x = x\<lparr>phys_base := base, virt_addr_kernel := base + 0xC0000000, virt_addr_user := 0, active := True\<rparr>
            in Inr (Some i, s\<lparr>surfaces := (surfaces s)[i := x], sframes := fr\<rparr>)))"

definition surface_get :: "u32 \<Rightarrow> surfs \<Rightarrow> nat option" where
  "surface_get n s = first_slot (\<lambda>x. active x \<and> sid x = n) (surfaces s)"

definition surface_destroy :: "u32 \<Rightarrow> surfs \<Rightarrow> surfs" where
  "surface_destroy n s =
     (case surface_get n s of
        None \<Rightarrow> s
      | Some i \<Rightarrow>
          let x = surfaces s ! i;
              fr = foldl (\<lambda>fr p. pmm_free_frame fr (phys_base x + of_nat p * 4096)) (sframes s)
                     [0..<unat (surface_pages (width x) (height x))]
          in s\<lparr>surfaces := (surfaces s)[i := x\<lparr>active := False\<rparr>], sframes := fr\<rparr>)"

section \<open>Invariant\<close>

definition surface_frames :: "SharedSurface \<Rightarrow> u32 set" where
  "surface_frames x = run_frames (phys_base x) (surface_pages (width x) (height x))"

definition apart :: "SharedSurface \<Rightarrow> SharedSurface \<Rightarrow> bool" where
  "apart x y \<longleftrightarrow> surface_frames x \<inter> surface_frames y = {} \<and> sid x \<noteq> sid y"

definition surf_inv :: "surfs \<Rightarrow> bool" where
  "surf_inv s \<longleftrightarrow> pmm_inv (sframes s) \<and>
     (\<forall>i < length (surfaces s). active (surfaces s ! i) \<longrightarrow>
        surface_frames (surfaces s ! i) \<inter> free_set (sframes s) = {} \<and>
        (\<forall>j < length (surfaces s). active (surfaces s ! j) \<longrightarrow> i \<noteq> j \<longrightarrow> apart (surfaces s ! i) (surfaces s ! j)))"

lemma surf_invI:
  assumes "pmm_inv (sframes s)"
    and "\<And>i. i < length (surfaces s) \<Longrightarrow> active (surfaces s ! i) \<Longrightarrow> surface_frames (surfaces s ! i) \<inter> free_set (sframes s) = {}"
    and "\<And>i j. i < length (surfaces s) \<Longrightarrow> active (surfaces s ! i) \<Longrightarrow> j < length (surfaces s) \<Longrightarrow> active (surfaces s ! j)
      \<Longrightarrow> i \<noteq> j \<Longrightarrow> apart (surfaces s ! i) (surfaces s ! j)"
  shows "surf_inv s"
  using assms by (simp add: surf_inv_def)

lemma surf_invD:
  assumes "surf_inv s"
  shows "pmm_inv (sframes s)"
    and "i < length (surfaces s) \<Longrightarrow> active (surfaces s ! i) \<Longrightarrow> surface_frames (surfaces s ! i) \<inter> free_set (sframes s) = {}"
    and "i < length (surfaces s) \<Longrightarrow> active (surfaces s ! i) \<Longrightarrow> j < length (surfaces s) \<Longrightarrow> active (surfaces s ! j)
      \<Longrightarrow> i \<noteq> j \<Longrightarrow> apart (surfaces s ! i) (surfaces s ! j)"
  using assms by (simp_all add: surf_inv_def)

lemma apart_sym: "apart x y \<Longrightarrow> apart y x"
  by (auto simp: apart_def)

definition surf_ids :: "surfs \<Rightarrow> u32 set" where
  "surf_ids s = {sid x |x. x \<in> set (surfaces s) \<and> active x}"

lemma surface_init_inv: "pmm_inv (sframes s) \<Longrightarrow> surf_inv (surface_init s) \<and> surf_ids (surface_init s) = {}"
  by (auto simp: surf_inv_def surf_ids_def surface_init_def zero_surface_def)

lemma destroy_frames:
  "foldl (\<lambda>fr p. pmm_free_frame fr (a + of_nat p * 4096)) fr [0..<unat n] = foldl pmm_free_frame fr (run_addrs a n)"
  by (simp add: run_addrs_def foldl_map)

lemma surface_get_active:
  assumes "surf_inv s" "i < length (surfaces s)" "active (surfaces s ! i)" "sid (surfaces s ! i) = n"
  shows "surface_get n s = Some i"
  unfolding surface_get_def by (rule first_slot_unique) (use assms in \<open>auto simp: surf_inv_def apart_def\<close>)

lemma surface_get_Some:
  "surface_get n s = Some i \<Longrightarrow> i < length (surfaces s) \<and> active (surfaces s ! i) \<and> sid (surfaces s ! i) = n"
  unfolding surface_get_def using first_slot_Some by fastforce

subsection \<open>Creating\<close>

lemma create_Some:
  assumes "surface_create pid w h s = Inr (Some i, s')"
  obtains x fr where "i < length (surfaces s)" "\<not> active (surfaces s ! i)"
    "pmm_alloc_frames (sframes s) (surface_pages w h) = Inr (phys_base x, fr)"
    "s' = s\<lparr>surfaces := (surfaces s)[i := x], next_surface_id := next_surface_id s + 1, sframes := fr\<rparr>"
    "active x" "sid x = next_surface_id s" "width x = w" "height x = h" "owner_pid x = pid" "pitch x = w * 4"
    "virt_addr_kernel x = phys_base x + 0xC0000000" "virt_addr_user x = 0"
proof -
  from assms obtain base fr where a: "first_slot (\<lambda>x. \<not> active x) (surfaces s) = Some i"
    "pmm_alloc_frames (sframes s) (surface_pages w h) = Inr (base, fr)"
    and s': "s' = s\<lparr>next_surface_id := next_surface_id s + 1, surfaces := (surfaces s)[i := (surfaces s ! i)\<lparr>sid := next_surface_id s,
        owner_pid := pid, width := w, height := h, pitch := w * 4, phys_base := base, virt_addr_kernel := base + 0xC0000000,
        virt_addr_user := 0, active := True\<rparr>], sframes := fr\<rparr>"
    by (auto simp: surface_create_def Let_def rbind_Inr_iff split: option.splits)
  show thesis
    by (rule that[where x = "surfaces s' ! i" and fr = fr]) (use first_slot_Some[OF a(1)] a(2) in \<open>simp_all add: s'\<close>)
qed

lemma surf_inv_add:
  assumes inv: "surf_inv s" and i: "i < length (surfaces s)" "pmm_inv fr"
    and x: "surface_frames x \<subseteq> free_set (sframes s)" "free_set fr = free_set (sframes s) - surface_frames x"
    and fresh: "sid x \<notin> surf_ids s"
  shows "surf_inv (s\<lparr>surfaces := (surfaces s)[i := x], next_surface_id := n, sframes := fr\<rparr>)"
proof (rule surf_invI, goal_cases)
  case (2 j)
  then show ?case using x surf_invD(2)[OF inv, of j] by (cases "j = i") auto
next
  case (3 j k)
  have old: "apart x (surfaces s ! j)" if "j < length (surfaces s)" "active (surfaces s ! j)" for j
  proof -
    have "sid (surfaces s ! j) \<in> surf_ids s" using that nth_mem[of j "surfaces s"] by (auto simp: surf_ids_def)
    with fresh x(1) surf_invD(2)[OF inv that] show ?thesis by (auto simp: apart_def)
  qed
  show ?case
  proof (cases "j = i \<or> k = i")
    case True
    with 3 i old[of j] old[of k] show ?thesis by (auto intro: apart_sym)
  next
    case False
    with 3 surf_invD(3)[OF inv, of j k] show ?thesis by simp
  qed
qed (use i in simp)

lemma surf_inv_drop:
  assumes inv: "surf_inv s" and i: "i < length (surfaces s)" "active (surfaces s ! i)" "pmm_inv fr"
    and fr: "free_set fr = free_set (sframes s) \<union> surface_frames (surfaces s ! i)" "\<not> active x"
  shows "surf_inv (s\<lparr>surfaces := (surfaces s)[i := x], sframes := fr\<rparr>)"
proof (rule surf_invI, goal_cases)
  case (2 j)
  then have j: "j \<noteq> i" "j < length (surfaces s)" "active (surfaces s ! j)"
    using i fr(2) by (auto simp: nth_list_update split: if_splits)
  from surf_invD(2)[OF inv j(2,3)] surf_invD(3)[OF inv j(2,3) i(1,2) j(1)] show ?case
    using j(1) by (auto simp: fr(1) apart_def)
next
  case (3 j k)
  then have "j \<noteq> i" "k \<noteq> i" using i fr(2) by auto
  with 3 surf_invD(3)[OF inv, of j k] show ?case by simp
qed (use i in simp)

subsection \<open>Create, look up, destroy\<close>

lemma create_ok:
  assumes inv: "surf_inv s" "next_surface_id s \<notin> surf_ids s" and c: "surface_create pid w h s = Inr (Some i, s')"
  shows "surf_inv s'" "surface_get (next_surface_id s) s' = Some i"
    "surface_frames (surfaces s' ! i) \<subseteq> free_set (sframes s)"
    "free_set (sframes s') = free_set (sframes s) - surface_frames (surfaces s' ! i)"
proof -
  obtain x fr where x: "i < length (surfaces s)" "\<not> active (surfaces s ! i)"
    "pmm_alloc_frames (sframes s) (surface_pages w h) = Inr (phys_base x, fr)"
    "s' = s\<lparr>surfaces := (surfaces s)[i := x], next_surface_id := next_surface_id s + 1, sframes := fr\<rparr>"
    "active x" "sid x = next_surface_id s" "width x = w" "height x = h"
    by (rule create_Some[OF c])
  have r: "pmm_inv fr" "surface_frames x \<subseteq> free_set (sframes s)" "free_set fr = free_set (sframes s) - surface_frames x"
    using pm_run.run_Inr[OF surf_invD(1)[OF inv(1)] x(3)] by (simp_all add: surface_frames_def x(7,8))
  show inv': "surf_inv s'" unfolding x(4) by (rule surf_inv_add) (use inv x r in simp_all)
  show "surface_frames (surfaces s' ! i) \<subseteq> free_set (sframes s)"
    "free_set (sframes s') = free_set (sframes s) - surface_frames (surfaces s' ! i)" using x r by simp_all
  show "surface_get (next_surface_id s) s' = Some i" by (rule surface_get_active[OF inv']) (use x in simp_all)
qed

lemma destroy_ok:
  assumes inv: "surf_inv s" and g: "surface_get n s = Some i"
  shows "surf_inv (surface_destroy n s)"
    "free_set (sframes (surface_destroy n s)) = free_set (sframes s) \<union> surface_frames (surfaces s ! i)"
    "surfaces (surface_destroy n s) = (surfaces s)[i := (surfaces s ! i)\<lparr>active := False\<rparr>]"
    "surface_get n (surface_destroy n s) = None"
proof -
  let ?x = "surfaces s ! i" and ?r = "run_addrs (phys_base (surfaces s ! i)) (surface_pages (width (surfaces s ! i)) (height (surfaces s ! i)))"
  note i = surface_get_Some[OF g]
  have d: "surface_destroy n s = s\<lparr>surfaces := (surfaces s)[i := ?x\<lparr>active := False\<rparr>], sframes := foldl pmm_free_frame (sframes s) ?r\<rparr>"
    by (simp add: surface_destroy_def g Let_def destroy_frames)
  note r = pm_run.release_run[OF surf_invD(1)[OF inv], of "phys_base ?x" "surface_pages (width ?x) (height ?x)"]
  show "free_set (sframes (surface_destroy n s)) = free_set (sframes s) \<union> surface_frames (surfaces s ! i)"
    "surfaces (surface_destroy n s) = (surfaces s)[i := ?x\<lparr>active := False\<rparr>]"
    using r by (simp_all add: d surface_frames_def)
  show "surf_inv (surface_destroy n s)" unfolding d
    by (rule surf_inv_drop) (use inv i r in \<open>simp_all add: surface_frames_def\<close>)
  have "\<not> (active ((surfaces s)[i := ?x\<lparr>active := False\<rparr>] ! j) \<and> sid ((surfaces s)[i := ?x\<lparr>active := False\<rparr>] ! j) = n)"
    if "j < length (surfaces s)" for j
    using that i surf_invD(3)[OF inv that, of i] by (cases "j = i") (auto simp: apart_def)
  then show "surface_get n (surface_destroy n s) = None"
    by (simp add: surface_get_def d first_slot_None all_set_conv_all_nth)
qed

lemma surface_pages_unat: "unat (surface_pages w h) = ((unat w * unat h * 4) mod 4294967296 + 4095) mod 4294967296 div 4096"
  by (simp add: surface_pages_def Let_def unat_div unat_word_ariths mod_simps)

section \<open>Properties\<close>

text \<open>C26: A surface has its frames to itself and gives them back. On a sound table, with an identifier that is
  not in use, \<^verbatim>\<open>surface_create\<close> returns NULL exactly when all slots are active, and panics exactly when a
  slot is free but the page count is zero or no run of that length is free. Otherwise it fills an inactive
  slot with a surface whose frames were all free and are taken, leaves the other surfaces alone and keeps
  the table sound; \<^verbatim>\<open>surface_get\<close> finds the surface, and \<^verbatim>\<open>surface_destroy\<close> restores the free set, after
  which the identifier is unknown again.\<close>

theorem surface_life_cycle:
  assumes "surf_inv s" "next_surface_id s \<notin> surf_ids s"
  shows "case surface_create pid w h s of
      Inl e \<Rightarrow> (\<exists>x \<in> set (surfaces s). \<not> active x) \<and> e = KernelPanic ''PMM: No contiguous frames''
        \<and> (surface_pages w h = 0 \<or> (\<forall>g. \<not> free_run (sframes s) (unat (surface_pages w h)) g))
    | Inr (None, s') \<Rightarrow> s' = s \<and> (\<forall>x \<in> set (surfaces s). active x)
    | Inr (Some i, s') \<Rightarrow> i < length (surfaces s) \<and> \<not> active (surfaces s ! i)
        \<and> surfaces s' = (surfaces s)[i := surfaces s' ! i] \<and> surf_inv s'
        \<and> surface_frames (surfaces s' ! i) \<subseteq> free_set (sframes s)
        \<and> free_set (sframes s') = free_set (sframes s) - surface_frames (surfaces s' ! i)
        \<and> surface_get (next_surface_id s) s' = Some i
        \<and> (let d = surface_destroy (next_surface_id s) s'
           in surf_inv d \<and> free_set (sframes d) = free_set (sframes s) \<and> surface_get (next_surface_id s) d = None)"
proof (cases "first_slot (\<lambda>x. \<not> active x) (surfaces s)")
  case None
  then have "\<forall>x \<in> set (surfaces s). active x" by (simp add: first_slot_None)
  with None show ?thesis by (simp add: surface_create_def)
next
  case (Some i)
  note slot = first_slot_Some[OF Some]
  show ?thesis
  proof (cases "surface_create pid w h s")
    case (Inl e)
    then have al: "pmm_alloc_frames (sframes s) (surface_pages w h) = Inl e"
      using Some by (auto simp: surface_create_def Let_def rbind_Inl_iff)
    have "e = KernelPanic ''PMM: No contiguous frames''
      \<and> (surface_pages w h = 0 \<or> (\<forall>g. \<not> free_run (sframes s) (unat (surface_pages w h)) g))"
      using alloc_frames_Inl[OF al] by blast
    with slot Inl show ?thesis by auto
  next
    case (Inr p)
    then obtain s' where c: "surface_create pid w h s = Inr (Some i, s')" and p: "p = (Some i, s')"
      using Some by (auto simp: surface_create_def Let_def rbind_Inr_iff)
    note ok = create_ok[OF assms c]
    note d = destroy_ok[OF ok(1,2)]
    have "surfaces s' = (surfaces s)[i := surfaces s' ! i]"
      by (rule create_Some[OF c]) (use slot in simp)
    moreover have "free_set (sframes (surface_destroy (next_surface_id s) s')) = free_set (sframes s)"
      using ok(3,4) unfolding d(2) by blast
    ultimately show ?thesis using slot ok d(1,4) by (simp add: Inr p Let_def)
  qed
qed

definition sample_surfs :: surfs where
  "sample_surfs = \<lparr>surfaces = replicate MAX_SURFACES zero_surface, next_surface_id = 1, sframes = sample_pmm\<rparr>"

lemma sample_surfs_ok: "surf_inv sample_surfs" "next_surface_id sample_surfs \<notin> surf_ids sample_surfs"
proof -
  have "sample_surfs = surface_init sample_surfs" by (simp add: sample_surfs_def surface_init_def)
  moreover have "pmm_inv (sframes sample_surfs)" by (simp add: sample_surfs_def sample_inv del: pmm_inv_total)
  ultimately show "surf_inv sample_surfs" "next_surface_id sample_surfs \<notin> surf_ids sample_surfs"
    using surface_init_inv[of sample_surfs] by auto
qed

lemma sample_create:
  "(case surface_create 7 32 32 sample_surfs of Inr (Some i, s) \<Rightarrow> (i, phys_base (surfaces s ! i)) | _ \<Rightarrow> (1, 0)) = (0, 0x102000)"
  by code_simp

theorem surface_life_cycle_witness:
  "\<exists>s'. surface_create 7 32 32 sample_surfs = Inr (Some 0, s') \<and> phys_base (surfaces s' ! 0) = 0x102000
     \<and> free_set (sframes (surface_destroy 1 s')) = free_set (sframes sample_surfs)"
proof -
  have "next_surface_id sample_surfs = 1" by (simp add: sample_surfs_def)
  with surface_life_cycle[OF sample_surfs_ok, where pid = 7 and w = 32 and h = 32] sample_create show ?thesis
    by (auto simp: Let_def split: sum.splits option.splits)
qed

text \<open>The page count covers the pixels exactly when the surface has at most \<open>0xFFFFF000\<close> bytes. Beyond that the
  32-bit product or the rounding wraps: \<^verbatim>\<open>surface_create\<close> takes fewer frames than the surface needs, or
  none at all and panics, whatever memory is free.\<close>

theorem surface_pages_cover:
  "unat w * unat h * 4 \<le> unat (surface_pages w h) * 4096 \<longleftrightarrow> unat w * unat h * 4 \<le> 0xFFFFF000"
proof -
  define z where "z = unat w * unat h * 4"
  have pages: "unat (surface_pages w h) = (z mod 4294967296 + 4095) mod 4294967296 div 4096"
    unfolding surface_pages_unat z_def ..
  show ?thesis
  proof (cases "z \<le> 0xFFFFF000")
    case True
    then have "unat (surface_pages w h) = (z + 4096 - 1) div 4096" by (simp add: pages)
    with round_up_bounds(1)[of 4096 z] True show ?thesis by (simp flip: z_def)
  next
    case False
    have "unat (surface_pages w h) \<le> 1048575" unfolding pages by simp
    with False show ?thesis by (simp flip: z_def)
  qed
qed

end
