(* ===== verification/Compositor.thy ===== *)
theory Compositor
  imports Framebuffer Surface
begin

text \<open>
  The compositor, \<^verbatim>\<open>compositor/compositor.c\<close>: it clears the screen and paints the windows from the lowest to
  the highest stacking order, copying the pixels of their shared surfaces except the transparent key. The
  result is characterised pixel by pixel: the colour of the topmost window that covers the position.
\<close>

section \<open>State and operations\<close>

definition MAX_WINDOWS :: nat where "MAX_WINDOWS = 16"

text \<open>The coordinates are \<^verbatim>\<open>int32_t\<close>; they only enter unsigned sums and are kept as their bit patterns.\<close>

record Window =
  surface_id :: u32
  win_x :: u32
  win_y :: u32
  win_w :: u32
  win_h :: u32
  win_active :: bool
  z_order :: u32

definition zero_window :: Window where
  "zero_window = \<lparr>surface_id = 0, win_x = 0, win_y = 0, win_w = 0, win_h = 0, win_active = False, z_order = 0\<rparr>"

definition compositor_init :: "Window list" where
  "compositor_init = replicate MAX_WINDOWS zero_window"

definition TRANSPARENT :: u32 where "TRANSPARENT = 0x00FF00FF"

text \<open>The two loops that copy one surface.\<close>

definition copy_surface :: "framebuffer \<Rightarrow> Window \<Rightarrow> SharedSurface \<Rightarrow> mem \<Rightarrow> mem" where
  "copy_surface fb win s m =
     for_loop 0 (\<lambda>_. height s) (\<lambda>wy. for_loop 0 (\<lambda>_. width s) (\<lambda>wx m.
       let color = load_u32 m (virt_addr_kernel s + (wy * width s + wx) * 4) in
       if color \<noteq> TRANSPARENT then fb_put_pixel fb (win_x win + wx) (win_y win + wy) color m else m)) m"

definition paint_window :: "framebuffer \<Rightarrow> surfs \<Rightarrow> Window \<Rightarrow> mem \<Rightarrow> mem" where
  "paint_window fb ss win m =
     (case surface_get (surface_id win) ss of
        None \<Rightarrow> m
      | Some i \<Rightarrow> if virt_addr_kernel (surfaces ss ! i) \<noteq> 0 then copy_surface fb win (surfaces ss ! i) m else m)"

definition compositor_render :: "framebuffer \<Rightarrow> surfs \<Rightarrow> Window list \<Rightarrow> mem \<Rightarrow> mem" where
  "compositor_render fb ss windows m =
     fold (\<lambda>z. fold (\<lambda>i m.
         if win_active (windows ! i) \<and> z_order (windows ! i) = of_nat z then paint_window fb ss (windows ! i) m else m)
       [0..<MAX_WINDOWS]) [0..<MAX_WINDOWS] (fb_clear fb 0x00223344 m)"

text \<open>The window manager and the input bridge of the widget library, \<^verbatim>\<open>compositor/window.c\<close>,
  \<^verbatim>\<open>compositor/wm_events.c\<close> and \<^verbatim>\<open>drivers/gfx/lvgl_input.c\<close>: their bodies hold only comments, so windows, events
  and the state of the library stay as they are.\<close>

definition wm_update_window_pos :: "u32 \<Rightarrow> u32 \<Rightarrow> u32 \<Rightarrow> Window list \<Rightarrow> Window list" where
  "wm_update_window_pos win_id new_x new_y windows = windows"

definition wm_inject_mouse :: "u32 \<Rightarrow> u32 \<Rightarrow> u8 \<Rightarrow> Window list \<Rightarrow> Window list" where
  "wm_inject_mouse dx dy buttons windows = windows"

definition luna_lvgl_input_read :: "u32 \<Rightarrow> u32 \<Rightarrow> mem \<Rightarrow> mem" where
  "luna_lvgl_input_read driver dat m = m"

section \<open>What a window shows\<close>

definition window_colour :: "surfs \<Rightarrow> mem \<Rightarrow> Window \<Rightarrow> u32 \<Rightarrow> u32 \<Rightarrow> u32 option" where
  "window_colour ss m win px py =
     (case surface_get (surface_id win) ss of
        None \<Rightarrow> None
      | Some i \<Rightarrow>
          let s = surfaces ss ! i; wx = px - win_x win; wy = py - win_y win;
              color = load_u32 m (virt_addr_kernel s + (wy * width s + wx) * 4) in
          if virt_addr_kernel s \<noteq> 0 \<and> wx < width s \<and> wy < height s \<and> color \<noteq> TRANSPARENT then Some color else None)"

text \<open>The windows in the order in which they are painted.\<close>

definition paint_order :: "Window list \<Rightarrow> Window list" where
  "paint_order windows =
     concat (map (\<lambda>z. filter (\<lambda>w. win_active w \<and> z_order w = of_nat z) windows) [0..<MAX_WINDOWS])"

text \<open>The pixels of the surfaces lie outside the framebuffer.\<close>

definition surface_apart :: "framebuffer \<Rightarrow> SharedSurface \<Rightarrow> bool" where
  "surface_apart fb s \<longleftrightarrow> (\<forall>wx < width s. \<forall>wy < height s. \<forall>i < 4.
     \<not> in_rows fb (virt_addr_kernel s + (wy * width s + wx) * 4 + of_nat i))"

text \<open>The topmost colour: the last window in painting order that has one.\<close>

definition topmost :: "u32 option list \<Rightarrow> u32 \<Rightarrow> u32" where
  "topmost cs d = (case find (\<lambda>c. c \<noteq> None) (rev cs) of Some (Some c) \<Rightarrow> c | _ \<Rightarrow> d)"

lemma topmost_snoc: "topmost (cs @ [c]) d = (case c of None \<Rightarrow> topmost cs d | Some k \<Rightarrow> k)"
  by (simp add: topmost_def split: option.split)

lemma copy_surface_draw:
  assumes ok: "fb_ok fb" and ap: "surface_apart fb s" and same: "outside_fb fb m = outside_fb fb m0"
  defines "f \<equiv> \<lambda>wx wy. if wx < width s \<and> wy < height s \<and> load_u32 m0 (virt_addr_kernel s + (wy * width s + wx) * 4) \<noteq> TRANSPARENT
      then Some (load_u32 m0 (virt_addr_kernel s + (wy * width s + wx) * 4)) else None"
  shows "copy_surface fb win s m = draw (fb_put_pixel fb) (block_pixels (win_x win) (win_y win) (width s) (height s) f) m"
  unfolding copy_surface_def
proof (rule block_loop_draw[OF same])
  fix m' wx wy assume m': "outside_fb fb m' = outside_fb fb m0" "wx < width s" "wy < height s"
  have "load_u32 m' (virt_addr_kernel s + (wy * width s + wx) * 4) = load_u32 m0 (virt_addr_kernel s + (wy * width s + wx) * 4)"
    using load_outside[OF m'(1) ok] ap m'(2,3) unfolding surface_apart_def by blast
  with m'(2,3) show "(let color = load_u32 m' (virt_addr_kernel s + (wy * width s + wx) * 4)
      in if color \<noteq> TRANSPARENT then fb_put_pixel fb (win_x win + wx) (win_y win + wy) color m' else m')
    = (case f wx wy of None \<Rightarrow> m' | Some c \<Rightarrow> fb_put_pixel fb (win_x win + wx) (win_y win + wy) c m')"
    by (simp add: f_def Let_def)
qed (rule refl)+

lemma paint_window_ok:
  assumes ok: "fb_ok fb" and same: "outside_fb fb m = outside_fb fb m0"
    and ap: "\<forall>i. surface_get (surface_id win) ss = Some i \<longrightarrow> surface_apart fb (surfaces ss ! i)"
  shows "outside_fb fb (paint_window fb ss win m) = outside_fb fb m0"
    and "fb_inside fb px py \<Longrightarrow> pixel fb (paint_window fb ss win m) px py =
      (case window_colour ss m0 win px py of None \<Rightarrow> pixel fb m px py | Some c \<Rightarrow> c)"
proof -
  have "outside_fb fb (paint_window fb ss win m) = outside_fb fb m0 \<and> (fb_inside fb px py \<longrightarrow>
      pixel fb (paint_window fb ss win m) px py = (case window_colour ss m0 win px py of None \<Rightarrow> pixel fb m px py | Some c \<Rightarrow> c))"
  proof (cases "surface_get (surface_id win) ss")
    case None
    then show ?thesis using same by (simp add: paint_window_def window_colour_def)
  next
    case (Some i)
    show ?thesis
    proof (cases "virt_addr_kernel (surfaces ss ! i) = 0")
      case True
      then show ?thesis using Some same by (simp add: paint_window_def window_colour_def)
    next
      case False
      let ?s = "surfaces ss ! i"
      define f where "f = (\<lambda>wx wy. if wx < width ?s \<and> wy < height ?s \<and> load_u32 m0 (virt_addr_kernel ?s + (wy * width ?s + wx) * 4) \<noteq> TRANSPARENT
        then Some (load_u32 m0 (virt_addr_kernel ?s + (wy * width ?s + wx) * 4)) else None)"
      have d: "paint_window fb ss win m = draw (fb_put_pixel fb) (block_pixels (win_x win) (win_y win) (width ?s) (height ?s) f) m"
        using False Some copy_surface_draw[OF ok _ same, of ?s win] ap by (simp add: paint_window_def f_def)
      have c: "last_colour (block_pixels (win_x win) (win_y win) (width ?s) (height ?s) f) px py k
          = (case f (px - win_x win) (py - win_y win) of None \<Rightarrow> k | Some c \<Rightarrow> c)" for k
        by (rule block_colour) (auto simp: f_def split: if_splits)
      have "f (px - win_x win) (py - win_y win) = window_colour ss m0 win px py"
        using False Some by (simp add: f_def window_colour_def Let_def)
      with c same show ?thesis by (simp add: d screen.get_draw screen.outer_draw)
    qed
  qed
  then show "outside_fb fb (paint_window fb ss win m) = outside_fb fb m0"
    "fb_inside fb px py \<Longrightarrow> pixel fb (paint_window fb ss win m) px py =
      (case window_colour ss m0 win px py of None \<Rightarrow> pixel fb m px py | Some c \<Rightarrow> c)" by blast+
qed

section \<open>The order of painting\<close>

lemma fold_nth: "fold (\<lambda>i. g (xs ! i)) [0..<length xs] = fold g xs"
  using fold_map[of g "(!) xs" "[0..<length xs]"] by (simp add: map_nth comp_def)

lemma fold_if_filter: "fold (\<lambda>x m. if P x then f x m else m) xs = fold f (filter P xs)"
  by (induction xs) auto

lemma fold_concat_map: "fold (\<lambda>z. fold f (g z)) zs = fold f (concat (map g zs))"
  by (induction zs) auto

lemma render_fold:
  assumes "length ws = MAX_WINDOWS"
  shows "compositor_render fb ss ws m = fold (paint_window fb ss) (paint_order ws) (fb_clear fb 0x00223344 m)"
proof -
  have "fold (\<lambda>i m. if win_active (ws ! i) \<and> z_order (ws ! i) = of_nat z then paint_window fb ss (ws ! i) m else m) [0..<MAX_WINDOWS]
      = fold (paint_window fb ss) (filter (\<lambda>w. win_active w \<and> z_order w = of_nat z) ws)" for z :: nat
    using fold_nth[of "\<lambda>w m. if win_active w \<and> z_order w = of_nat z then paint_window fb ss w m else m" ws] assms
    by (simp add: fold_if_filter)
  then show ?thesis by (simp add: compositor_render_def fold_concat_map paint_order_def)
qed

lemma paint_all:
  assumes ok: "fb_ok fb"
    and ap: "\<forall>w \<in> set ws. \<forall>i. surface_get (surface_id w) ss = Some i \<longrightarrow> surface_apart fb (surfaces ss ! i)"
    and same: "outside_fb fb m = outside_fb fb m0"
  shows "outside_fb fb (fold (paint_window fb ss) ws m) = outside_fb fb m0 \<and> (fb_inside fb px py \<longrightarrow>
    pixel fb (fold (paint_window fb ss) ws m) px py = topmost (map (\<lambda>w. window_colour ss m0 w px py) ws) (pixel fb m px py))"
  using ap
proof (induction ws rule: rev_induct)
  case Nil
  then show ?case using same by (simp add: topmost_def)
next
  case (snoc w ws)
  then have IH: "outside_fb fb (fold (paint_window fb ss) ws m) = outside_fb fb m0"
    "fb_inside fb px py \<longrightarrow> pixel fb (fold (paint_window fb ss) ws m) px py
       = topmost (map (\<lambda>w. window_colour ss m0 w px py) ws) (pixel fb m px py)" by simp_all
  have "\<forall>i. surface_get (surface_id w) ss = Some i \<longrightarrow> surface_apart fb (surfaces ss ! i)" using snoc.prems by simp
  note p = paint_window_ok[OF ok IH(1) this]
  show ?case using p(1) p(2) IH(2) by (auto simp: topmost_snoc split: option.split)
qed

section \<open>Properties\<close>


text \<open>One window over a surface of a single pixel.\<close>

definition dot_surfs :: surfs where
  "dot_surfs = sample_surfs\<lparr>surfaces := zero_surface\<lparr>sid := 1, width := 1, height := 1, virt_addr_kernel := 0x2000, active := True\<rparr>
     # replicate 31 zero_surface\<rparr>"

definition dot_windows :: "Window list" where
  "dot_windows = zero_window\<lparr>surface_id := 1, win_x := 1, win_active := True, z_order := 3\<rparr> # replicate 15 zero_window"


end
