(* ===== verification/Vmm.thy ===== *)
theory Vmm
  imports Pmm Mem_Words
begin

text \<open>
  The virtual memory manager, \<^verbatim>\<open>kernel/vmm.c\<close>: two-level page tables kept in byte memory. Tables
  are reached through the kernel's window, which shows physical address \<open>p\<close> at \<open>p + 0xC0000000\<close>.
  The state is the kernel's view of memory, the physical memory manager, the pointer to the kernel's
  page directory, the register CR3 and the list of flushed TLB entries. A well-formed address space
  is one whose tables do not overlap; on it, mapping and unmapping change the translation of exactly
  one page.
\<close>

section \<open>State and operations\<close>

record vm =
  kmem :: mem
  frames :: pmm
  kernel_pd :: u32
  cr3 :: u32
  flushed :: "u32 list"

definition PAGE_SIZE :: u32 where "PAGE_SIZE = 4096"

definition PAGE_PRESENT :: u32 where "PAGE_PRESENT = 0x001"

definition PAGE_WRITABLE :: u32 where "PAGE_WRITABLE = 0x002"

definition PAGE_USER :: u32 where "PAGE_USER = 0x004"

definition PD_INDEX :: "u32 \<Rightarrow> u32" where
  "PD_INDEX vaddr = drop_bit 22 vaddr"

definition PT_INDEX :: "u32 \<Rightarrow> u32" where
  "PT_INDEX vaddr = drop_bit 12 vaddr AND 0x3FF"

text \<open>The two privileged instructions, as updates of the machine state.\<close>

definition set_cr3 :: "vm \<Rightarrow> u32 \<Rightarrow> vm" where
  "set_cr3 s pd_phys = s\<lparr>cr3 := pd_phys\<rparr>"

definition invlpg :: "vm \<Rightarrow> u32 \<Rightarrow> vm" where
  "invlpg s vaddr = s\<lparr>flushed := vaddr # flushed s\<rparr>"

definition vmm_init :: "vm \<Rightarrow> vm result" where
  "vmm_init s = rbind (pmm_alloc_frame (frames s)) (\<lambda>(pd_phys, fr).
     let s = s\<lparr>frames := fr, kernel_pd := pd_phys + 0xC0000000\<rparr>;
         s = s\<lparr>kmem := luna_memset (kmem s) (kernel_pd s) 0 PAGE_SIZE\<rparr>
     in Inr (set_cr3 s pd_phys))"

text \<open>The page table that holds the entry for \<open>vaddr\<close>, allocated when the directory has none.\<close>

definition get_table :: "vm \<Rightarrow> u32 \<Rightarrow> u32 \<Rightarrow> u32 \<Rightarrow> (u32 \<times> vm) result" where
  "get_table s pd pdi flags =
     (if load_u32 (kmem s) (entry pd pdi) AND PAGE_PRESENT = 0 then
        rbind (pmm_alloc_frame (frames s)) (\<lambda>(pt_phys, fr).
          let pt_virt = pt_phys + 0xC0000000;
              m = luna_memset (kmem s) pt_virt 0 PAGE_SIZE;
              m = store_u32 m (entry pd pdi)
                    (pt_phys OR PAGE_PRESENT OR PAGE_WRITABLE OR (flags AND PAGE_USER))
          in Inr (pt_virt, s\<lparr>frames := fr, kmem := m\<rparr>))
      else
        let pt_phys = load_u32 (kmem s) (entry pd pdi) AND NOT 0xFFF
        in Inr (pt_phys + 0xC0000000, s))"

definition vmm_map_page :: "vm \<Rightarrow> u32 \<Rightarrow> u32 \<Rightarrow> u32 \<Rightarrow> u32 \<Rightarrow> vm result" where
  "vmm_map_page s pd vaddr paddr flags =
     (let pdi = PD_INDEX vaddr; pti = PT_INDEX vaddr in
      rbind (get_table s pd pdi flags) (\<lambda>(pt, s).
        let s = s\<lparr>kmem := store_u32 (kmem s) (entry pt pti) ((paddr AND NOT 0xFFF) OR PAGE_PRESENT OR flags)\<rparr>
        in Inr (invlpg s vaddr)))"

definition vmm_unmap_page :: "vm \<Rightarrow> u32 \<Rightarrow> u32 \<Rightarrow> vm" where
  "vmm_unmap_page s pd vaddr =
     (let pdi = PD_INDEX vaddr; pti = PT_INDEX vaddr; pde = load_u32 (kmem s) (entry pd pdi) in
      if pde AND PAGE_PRESENT = 0 then s
      else
        let pt = (pde AND NOT 0xFFF) + 0xC0000000;
            s = s\<lparr>kmem := store_u32 (kmem s) (entry pt pti) 0\<rparr>
        in invlpg s vaddr)"

definition copy_pde :: "u32 \<Rightarrow> u32 \<Rightarrow> mem \<Rightarrow> nat \<Rightarrow> mem" where
  "copy_pde kpd pd m i = store_u32 m (entry pd (of_nat i)) (load_u32 m (entry kpd (of_nat i)))"

definition vmm_create_user_pd :: "vm \<Rightarrow> (u32 \<times> vm) result" where
  "vmm_create_user_pd s = rbind (pmm_alloc_frame (frames s)) (\<lambda>(pd_phys, fr).
     let pd = pd_phys + 0xC0000000;
         m = luna_memset (kmem s) pd 0 PAGE_SIZE;
         m = foldl (copy_pde (kernel_pd s) pd) m [768..<1024]
     in Inr (pd, s\<lparr>frames := fr, kmem := m\<rparr>))"

definition vmm_switch_pd :: "vm \<Rightarrow> u32 \<Rightarrow> vm" where
  "vmm_switch_pd s pd = set_cr3 s (pd - 0xC0000000)"

definition vmm_virt_to_phys :: "vm \<Rightarrow> u32 \<Rightarrow> u32 \<Rightarrow> u32" where
  "vmm_virt_to_phys s pd vaddr =
     (let pdi = PD_INDEX vaddr; pti = PT_INDEX vaddr; pde = load_u32 (kmem s) (entry pd pdi) in
      if pde AND PAGE_PRESENT = 0 then 0
      else
        let pt = (pde AND NOT 0xFFF) + 0xC0000000; e = load_u32 (kmem s) (entry pt pti) in
        if e AND PAGE_PRESENT = 0 then 0 else (e AND NOT 0xFFF) OR (vaddr AND 0xFFF))"

definition vmm_get_kernel_pd :: "vm \<Rightarrow> u32" where
  "vmm_get_kernel_pd s = kernel_pd s"

section \<open>Address spaces\<close>

definition pde :: "vm \<Rightarrow> u32 \<Rightarrow> u32 \<Rightarrow> u32" where
  "pde s pd i = load_u32 (kmem s) (entry pd i)"

definition has_table :: "vm \<Rightarrow> u32 \<Rightarrow> u32 \<Rightarrow> bool" where
  "has_table s pd i \<longleftrightarrow> pde s pd i AND 1 \<noteq> 0"

definition table :: "vm \<Rightarrow> u32 \<Rightarrow> u32 \<Rightarrow> u32" where
  "table s pd i = page (pde s pd i) + 0xC0000000"

text \<open>The page table entry for an address; 0 when there is no table.\<close>

definition pte :: "vm \<Rightarrow> u32 \<Rightarrow> u32 \<Rightarrow> u32" where
  "pte s pd v = (if has_table s pd (PD_INDEX v)
                 then load_u32 (kmem s) (entry (table s pd (PD_INDEX v)) (PT_INDEX v)) else 0)"

text \<open>The frame behind a window address.\<close>

definition frame_of :: "u32 \<Rightarrow> u32" where
  "frame_of t = (t - 0xC0000000) div 4096"

text \<open>A directory in a page of its own, whose tables are pairwise different pages, different from the
  directory, none of them on a free frame.\<close>

definition pd_ok :: "vm \<Rightarrow> u32 \<Rightarrow> bool" where
  "pd_ok s pd \<longleftrightarrow> page pd = pd \<and> pmm_inv (frames s) \<and> frame_of pd \<notin> free_set (frames s)
     \<and> (\<forall>i < 1024. has_table s pd i \<longrightarrow> table s pd i \<noteq> pd \<and> frame_of (table s pd i) \<notin> free_set (frames s))
     \<and> (\<forall>i < 1024. \<forall>j < 1024. has_table s pd i \<and> has_table s pd j \<and> i \<noteq> j \<longrightarrow> table s pd i \<noteq> table s pd j)"

subsection \<open>Indices and pages\<close>

lemma PD_INDEX_unat: "unat (PD_INDEX v) = unat v div 4194304"
  by (simp add: PD_INDEX_def drop_bit_eq_div unat_div)

lemma PT_INDEX_unat: "unat (PT_INDEX v) = unat v div 4096 mod 1024"
proof -
  have "(0x3FF :: u32) = mask 10" by (simp add: mask_eq_exp_minus_1)
  then show ?thesis using unat_and_mask[of "drop_bit 12 v" 10]
    by (simp add: PT_INDEX_def drop_bit_eq_div unat_div)
qed

lemma index_less [simp]: "PD_INDEX v < 1024" "PT_INDEX v < 1024"
  using u32_bound[of v] by (simp_all add: word_less_nat_alt PD_INDEX_unat PT_INDEX_unat less_mult_imp_div_less)

lemma index_page: "PD_INDEX v = PD_INDEX w \<and> PT_INDEX v = PT_INDEX w \<longleftrightarrow> page v = page w"
proof -
  have "a div 4096 = b div 4096 \<longleftrightarrow>
      a div 4194304 = b div 4194304 \<and> a div 4096 mod 1024 = b div 4096 mod 1024" for a b :: nat
  proof -
    have "x div 4194304 = x div 4096 div 1024" for x :: nat by (simp add: div_mult2_eq [symmetric])
    then show ?thesis by (metis div_mult_mod_eq)
  qed
  then show ?thesis 
    by (simp only: page_eq_iff word_unat_eq_iff[of "PD_INDEX v"] word_unat_eq_iff[of "PT_INDEX v"]
        PD_INDEX_unat PT_INDEX_unat)
qed

lemma page_add:
  assumes "page a = a" "page b = b"
  shows "page (a + b) = a + b"
proof -
  obtain k l where "unat a = 4096 * k" "unat b = 4096 * l"
    using page_obtain[OF assms(1)] page_obtain[OF assms(2)] by metis
  then have "unat (a + b) = 4096 * ((k + l) mod 1048576)"
    by (simp add: unat_word_ariths distrib_left [symmetric] mult_mod_right del: distrib_left_numeral)
  then show ?thesis by (simp add: word_unat_eq_iff unat_page)
qed

lemma page_window [simp]: "page (page p + 0xC0000000) = page p + 0xC0000000"
proof -
  have "page 0xC0000000 = 0xC0000000" by (simp add: page_def)
  then show ?thesis by (intro page_add) simp_all
qed

lemma page_table [simp]: "page (table s pd i) = table s pd i"
  by (simp add: table_def)

lemma page_or: "page a = a \<Longrightarrow> page b = 0 \<Longrightarrow> page (a OR b) = a"
  by (simp add: page_def bit.conj_disj_distrib2)

lemma present_iff: "x AND 1 \<noteq> 0 \<longleftrightarrow> bit (x :: u32) 0"
  by (simp add: and_one_eq bit_0 odd_iff_mod_2_eq_one)

lemma aligned_frame_page: "a mod 4096 = 0 \<Longrightarrow> page a = a"
proof -
  assume "a mod 4096 = 0"
  then have "unat a mod 4096 = 0" by (simp add: word_unat_eq_iff unat_mod)
  then show "page a = a" by (auto simp: word_unat_eq_iff unat_page)
qed

section \<open>Mapping\<close>

lemma virt_to_phys_pte:
  "vmm_virt_to_phys s pd v = (if pte s pd v AND 1 = 0 then 0 else page (pte s pd v) OR (v AND 0xFFF))"
  by (simp add: vmm_virt_to_phys_def Let_def pte_def has_table_def pde_def table_def page_def PAGE_PRESENT_def)

text \<open>Writing an entry of an existing table.\<close>

lemma store_pte:
  fixes s :: vm and pd v x :: u32
  assumes ok: "pd_ok s pd" and tab: "has_table s pd (PD_INDEX v)"
  defines "s' \<equiv> s\<lparr>kmem := store_u32 (kmem s) (entry (table s pd (PD_INDEX v)) (PT_INDEX v)) x\<rparr>"
  shows "pd_ok s' pd" and "pte s' pd w = (if page w = page v then x else pte s pd w)"
proof -
  let ?t = "table s pd (PD_INDEX v)"
  have pd: "page pd = pd" and ne: "?t \<noteq> pd" using ok tab by (simp_all add: pd_ok_def)
  have "pde s' pd i = pde s pd i" if "i < 1024" for i
    using that pd ne by (simp add: pde_def s'_def load_u32_store_other entry_aligned entry_eq_iff)
  then have tabs: "has_table s' pd i = has_table s pd i" "table s' pd i = table s pd i" if "i < 1024" for i
    using that by (simp_all add: has_table_def table_def)
  have fr: "frames s' = frames s" by (simp add: s'_def)
  show "pd_ok s' pd" using ok by (simp add: pd_ok_def tabs fr)
  show "pte s' pd w = (if page w = page v then x else pte s pd w)"
  proof (cases "has_table s pd (PD_INDEX w)")
    case True
    have "table s pd (PD_INDEX w) = ?t \<longleftrightarrow> PD_INDEX w = PD_INDEX v"
      using ok tab True index_less(1) unfolding pd_ok_def by metis
    then have "entry (table s pd (PD_INDEX w)) (PT_INDEX w) = entry ?t (PT_INDEX v) \<longleftrightarrow> page w = page v"
      by (simp add: entry_eq_iff index_page)
    moreover have "kmem s' = store_u32 (kmem s) (entry ?t (PT_INDEX v)) x" by (simp add: s'_def)
    ultimately show ?thesis using True by (auto simp: pte_def tabs mem_simps entry_aligned)
  next
    case False
    with tab have "page w \<noteq> page v" using index_page[of w v] by auto
    with False show ?thesis by (simp add: pte_def tabs)
  qed
qed

lemma pte_invlpg [simp]: "pte (invlpg s a) pd w = pte s pd w" "pd_ok (invlpg s a) pd = pd_ok s pd"
  by (simp_all add: pte_def pd_ok_def invlpg_def has_table_def table_def pde_def)

text \<open>The frame of a fresh table is the frame of no page in use.\<close>

lemma frame_of_window: "frame_of (p + 0xC0000000) = p div 4096"
  by (simp add: frame_of_def)

text \<open>Entry \<^term>\<open>i\<close> of a directory set to a cleared table in the free frame at \<^term>\<open>a\<close>: what the tables and the
  translations of the directory are then.\<close>

definition with_table :: "vm \<Rightarrow> u32 \<Rightarrow> u32 \<Rightarrow> u32 \<Rightarrow> u32 \<Rightarrow> pmm \<Rightarrow> vm" where
  "with_table s pd i a x fr = s\<lparr>frames := fr, kmem := store_u32 (luna_memset (kmem s) (a + 0xC0000000) 0 4096) (entry pd i) x\<rparr>"

lemma fresh_table:
  assumes "pd_ok s pd" "a div 4096 \<in> free_set (frames s)"
  shows "a + 0xC0000000 \<noteq> pd" "j < 1024 \<Longrightarrow> has_table s pd j \<Longrightarrow> a + 0xC0000000 \<noteq> table s pd j"
  using assms frame_of_window[of a] by (auto simp: pd_ok_def)

lemma with_table_tables:
  assumes ok: "pd_ok s pd" and i: "i < 1024" and a: "page a = a" "a div 4096 \<in> free_set (frames s)"
    and x: "page x = a" "x AND 1 \<noteq> 0" and j: "j < 1024"
  shows "has_table (with_table s pd i a x fr) pd j \<longleftrightarrow> j = i \<or> has_table s pd j"
    "table (with_table s pd i a x fr) pd j = (if j = i then a + 0xC0000000 else table s pd j)"
proof -
  have "page pd = pd" "page (a + 0xC0000000) = a + 0xC0000000" using ok a(1) page_window[of a] by (simp_all add: pd_ok_def)
  then have "pde (with_table s pd i a x fr) pd j = (if j = i then x else pde s pd j)"
    using i j fresh_table(1)[OF ok a(2)]
    by (simp add: pde_def with_table_def mem_simps entry_aligned entry_eq_iff page_entry)
  with x show "has_table (with_table s pd i a x fr) pd j \<longleftrightarrow> j = i \<or> has_table s pd j"
    "table (with_table s pd i a x fr) pd j = (if j = i then a + 0xC0000000 else table s pd j)"
    by (simp_all add: has_table_def table_def)
qed

lemma with_table_pd_ok:
  assumes ok: "pd_ok s pd" and i: "i < 1024" and a: "page a = a" "a div 4096 \<in> free_set (frames s)"
    and x: "page x = a" "x AND 1 \<noteq> 0" and fr: "pmm_inv fr" "free_set fr = free_set (frames s) - {a div 4096}"
  shows "pd_ok (with_table s pd i a x fr) pd" (is "pd_ok ?s' pd")
  unfolding pd_ok_def
proof (intro conjI allI impI)
  note tabs = with_table_tables[OF ok i a x] and new = fresh_table[OF ok a(2)]
  have f: "frames ?s' = fr" by (simp add: with_table_def)
  show "page pd = pd" "pmm_inv (frames ?s')" "frame_of pd \<notin> free_set (frames ?s')"
    using ok fr by (simp_all add: pd_ok_def f)
  fix j :: u32 assume j: "j < 1024"
  show "table ?s' pd j \<noteq> pd" "frame_of (table ?s' pd j) \<notin> free_set (frames ?s')" if "has_table ?s' pd j"
    using that j ok fr(2) new(1) frame_of_window[of a] by (auto simp: tabs pd_ok_def f)
  fix k :: u32 assume "k < 1024" "has_table ?s' pd j \<and> has_table ?s' pd k \<and> j \<noteq> k"
  then show "table ?s' pd j \<noteq> table ?s' pd k" using j ok new(2) by (auto simp: tabs pd_ok_def dest: not_sym)
qed

lemma with_table_pte:
  assumes ok: "pd_ok s pd" and i: "i < 1024" and a: "page a = a" "a div 4096 \<in> free_set (frames s)"
    and x: "page x = a" "x AND 1 \<noteq> 0" and none: "\<not> has_table s pd i"
  shows "pte (with_table s pd i a x fr) pd w = pte s pd w"
proof -
  let ?s' = "with_table s pd i a x fr" and ?t = "a + 0xC0000000"
  note tabs = with_table_tables[OF ok i a x] and new = fresh_table[OF ok a(2)]
  note mem = with_table_def mem_simps entry_aligned entry_eq_iff page_entry
  have pd: "page pd = pd" "page ?t = ?t" using ok a(1) page_window[of a] by (simp_all add: pd_ok_def)
  have "load_u32 (kmem ?s') (entry ?t (PT_INDEX w)) = 0" using pd new(1) i by (simp add: mem)
  moreover have "load_u32 (kmem ?s') (entry (table s pd (PD_INDEX w)) (PT_INDEX w)) =
      load_u32 (kmem s) (entry (table s pd (PD_INDEX w)) (PT_INDEX w))" if "has_table s pd (PD_INDEX w)"
  proof -
    have "table s pd (PD_INDEX w) \<noteq> pd" using ok that by (simp add: pd_ok_def)
    with new(2)[OF _ that] pd i show ?thesis by (auto simp: mem)
  qed
  ultimately show ?thesis
    using none i by (cases "PD_INDEX w = i"; cases "has_table s pd (PD_INDEX w)") (simp_all add: pte_def tabs)
qed

lemma get_table_ok:
  assumes ok: "pd_ok s pd" and i: "i < 1024" and g: "get_table s pd i flags = Inr (t, s')"
  shows "pd_ok s' pd" "has_table s' pd i" "table s' pd i = t" "\<And>w. pte s' pd w = pte s pd w"
proof -
  have goal: "pd_ok s' pd \<and> has_table s' pd i \<and> table s' pd i = t \<and> (\<forall>w. pte s' pd w = pte s pd w)"
  proof (cases "has_table s pd i")
    case True
    with g have "s' = s" "t = table s pd i"
      by (auto simp: get_table_def has_table_def pde_def table_def page_def PAGE_PRESENT_def Let_def)
    with ok True show ?thesis by simp
  next
    case False
    let ?b = "PAGE_PRESENT OR PAGE_WRITABLE OR (flags AND PAGE_USER)"
    from False g obtain a fr where al: "pmm_alloc_frame (frames s) = Inr (a, fr)" and t: "t = a + 0xC0000000"
      and s': "s' = with_table s pd i a (a OR ?b) fr"
      by (auto simp: get_table_def with_table_def has_table_def pde_def PAGE_PRESENT_def PAGE_SIZE_def Let_def rbind_Inr_iff or.assoc)
    have "pmm_inv (frames s)" using ok by (simp add: pd_ok_def)
    note f = pm.alloc_Inr[OF this al]
    have a: "page a = a" "a div 4096 \<in> free_set (frames s)" using f by (simp_all only: aligned_frame_page)
    have "page ?b = 0"
      by (simp add: page_def PAGE_PRESENT_def PAGE_WRITABLE_def PAGE_USER_def bit.conj_disj_distrib2 and.assoc)
    with a(1) have x: "page (a OR ?b) = a" "(a OR ?b) AND 1 \<noteq> 0"
      by (simp_all add: page_or present_iff bit_simps PAGE_PRESENT_def)
    have "pd_ok s' pd" unfolding s' using f by (intro with_table_pd_ok[OF ok i a x]) simp_all
    then show ?thesis
      using with_table_tables[OF ok i a x i] with_table_pte[OF ok i a x False] by (simp add: s' t)
  qed
  then show "pd_ok s' pd" "has_table s' pd i" "table s' pd i = t" "\<And>w. pte s' pd w = pte s pd w"
    by blast+
qed

text \<open>What a table lookup may change: the directory's page and the page of the table.\<close>

lemma get_table_frame:
  assumes ok: "pd_ok s pd" and i: "i < 1024" and g: "get_table s pd i flags = Inr (t, s')"
  shows "kernel_pd s' = kernel_pd s" "free_set (frames s') \<subseteq> free_set (frames s)"
    "page q \<noteq> pd \<Longrightarrow> page q \<noteq> t \<Longrightarrow> kmem s' q = kmem s q"
    "j < 1024 \<Longrightarrow> has_table s' pd j \<Longrightarrow>
       has_table s pd j \<and> table s' pd j = table s pd j \<or> frame_of (table s' pd j) \<in> free_set (frames s)"
proof -
  note ok' = get_table_ok[OF ok i g]
  have pd: "page pd = pd" and inv: "pmm_inv (frames s)" using ok by (simp_all add: pd_ok_def)
  have pt: "page t = t" using page_table[of s' pd i] ok'(3) by simp
  have "kernel_pd s' = kernel_pd s \<and> free_set (frames s') \<subseteq> free_set (frames s)
    \<and> (page q \<noteq> pd \<longrightarrow> page q \<noteq> t \<longrightarrow> kmem s' q = kmem s q)
    \<and> (j < 1024 \<longrightarrow> has_table s' pd j \<longrightarrow>
       has_table s pd j \<and> table s' pd j = table s pd j \<or> frame_of (table s' pd j) \<in> free_set (frames s))"
  proof (cases "has_table s pd i")
    case True
    with g have "s' = s" by (auto simp: get_table_def has_table_def pde_def PAGE_PRESENT_def Let_def)
    then show ?thesis by auto
  next
    case False
    with g obtain a fr x where al: "pmm_alloc_frame (frames s) = Inr (a, fr)" and t: "t = a + 0xC0000000"
      and s': "kmem s' = store_u32 (luna_memset (kmem s) t 0 4096) (entry pd i) x" "frames s' = fr"
        "kernel_pd s' = kernel_pd s"
      by (auto simp: get_table_def has_table_def pde_def PAGE_PRESENT_def PAGE_SIZE_def Let_def rbind_Inr_iff)
    note a = pm.alloc_Inr[OF inv al]
    have ft: "frame_of t \<in> free_set (frames s)" using a by (simp add: t frame_of_window)
    have tpd: "t \<noteq> pd" using ok ft by (auto simp: pd_ok_def)
    have "pde s' pd j = pde s pd j" if "j < 1024" "j \<noteq> i"
      using that i pd tpd pt by (simp add: pde_def s'(1) mem_simps entry_aligned entry_eq_iff page_entry)
    then have "j < 1024 \<longrightarrow> has_table s' pd j \<longrightarrow>
       has_table s pd j \<and> table s' pd j = table s pd j \<or> frame_of (table s' pd j) \<in> free_set (frames s)"
      using ok'(3) ft by (cases "j = i") (auto simp: has_table_def table_def)
    moreover have "page q \<noteq> pd \<longrightarrow> page q \<noteq> t \<longrightarrow> kmem s' q = kmem s q"
      using pt pd i by (simp add: s'(1) store_u32_page entry_aligned page_entry memset_page)
    ultimately show ?thesis using a s' by auto
  qed
  then show "kernel_pd s' = kernel_pd s" "free_set (frames s') \<subseteq> free_set (frames s)"
    "page q \<noteq> pd \<Longrightarrow> page q \<noteq> t \<Longrightarrow> kmem s' q = kmem s q"
    "j < 1024 \<Longrightarrow> has_table s' pd j \<Longrightarrow>
       has_table s pd j \<and> table s' pd j = table s pd j \<or> frame_of (table s' pd j) \<in> free_set (frames s)"
    by blast+
qed

lemma map_page_ok:
  assumes "pd_ok s pd" "vmm_map_page s pd v p flags = Inr s'"
  shows "pd_ok s' pd" "pte s' pd w = (if page w = page v then page p OR PAGE_PRESENT OR flags else pte s pd w)"
proof -
  from assms(2) obtain t s1 where g: "get_table s pd (PD_INDEX v) flags = Inr (t, s1)"
    and s': "s' = invlpg (s1\<lparr>kmem := store_u32 (kmem s1) (entry t (PT_INDEX v)) (page p OR PAGE_PRESENT OR flags)\<rparr>) v"
    by (auto simp: vmm_map_page_def Let_def rbind_Inr_iff page_def)
  note t = get_table_ok[OF assms(1) index_less(1) g]
  from store_pte[OF t(1,2), where x = "page p OR PAGE_PRESENT OR flags"]
  show "pd_ok s' pd" "pte s' pd w = (if page w = page v then page p OR PAGE_PRESENT OR flags else pte s pd w)"
    by (simp_all add: s' t(3,4))
qed

lemma map_page_frame:
  assumes ok: "pd_ok s pd" and m: "vmm_map_page s pd v p flags = Inr s'"
  shows "kernel_pd s' = kernel_pd s" "free_set (frames s') \<subseteq> free_set (frames s)"
    "j < 1024 \<Longrightarrow> has_table s' pd j \<Longrightarrow>
       has_table s pd j \<and> table s' pd j = table s pd j \<or> frame_of (table s' pd j) \<in> free_set (frames s)"
    "page q \<noteq> pd \<Longrightarrow> page q \<noteq> table s' pd (PD_INDEX v) \<Longrightarrow> kmem s' q = kmem s q" "has_table s' pd (PD_INDEX v)"
proof -
  from m obtain t s1 where g: "get_table s pd (PD_INDEX v) flags = Inr (t, s1)"
    and s': "s' = invlpg (s1\<lparr>kmem := store_u32 (kmem s1) (entry t (PT_INDEX v)) (page p OR PAGE_PRESENT OR flags)\<rparr>) v"
    by (auto simp: vmm_map_page_def Let_def rbind_Inr_iff page_def)
  note t = get_table_ok[OF ok index_less(1) g] and fr = get_table_frame[OF ok index_less(1) g]
  have pt: "page t = t" using page_table[of s1 pd "PD_INDEX v"] t(3) by simp
  have pd: "page pd = pd" and tpd: "t \<noteq> pd" using t(1,2,3) by (auto simp: pd_ok_def)
  have "pde s' pd k = pde s1 pd k" if "k < 1024" for k
    using that pd pt tpd by (simp add: pde_def s' invlpg_def mem_simps entry_aligned entry_eq_iff)
  then have tabs: "has_table s' pd k = has_table s1 pd k" "table s' pd k = table s1 pd k" if "k < 1024" for k
    using that by (simp_all add: has_table_def table_def)
  show "has_table s' pd (PD_INDEX v)" using t(2) tabs by simp
  show "kernel_pd s' = kernel_pd s" "free_set (frames s') \<subseteq> free_set (frames s)"
    using fr(1,2) by (simp_all add: s' invlpg_def)
  show "j < 1024 \<Longrightarrow> has_table s' pd j \<Longrightarrow>
       has_table s pd j \<and> table s' pd j = table s pd j \<or> frame_of (table s' pd j) \<in> free_set (frames s)"
    using fr(4)[of j] by (simp add: tabs)
  have km: "kmem s' = store_u32 (kmem s1) (entry t (PT_INDEX v)) (page p OR PAGE_PRESENT OR flags)"
    by (simp add: s' invlpg_def)
  assume "page q \<noteq> pd" "page q \<noteq> table s' pd (PD_INDEX v)"
  then show "kmem s' q = kmem s q"
    using fr(3)[of q] pt by (simp add: tabs t(3) km store_u32_page entry_aligned page_entry)
qed

lemma map_page_card:
  assumes ok: "pd_ok s pd" and m: "vmm_map_page s pd v p flags = Inr s'"
  shows "card (free_set (frames s)) \<le> card (free_set (frames s')) + 1"
proof -
  have inv: "pmm_inv (frames s)" using ok by (simp add: pd_ok_def)
  from m obtain t s1 where g: "get_table s pd (PD_INDEX v) flags = Inr (t, s1)" and s': "frames s' = frames s1"
    by (auto simp: vmm_map_page_def Let_def rbind_Inr_iff invlpg_def)
  from g consider "frames s1 = frames s" | a where "pmm_alloc_frame (frames s) = Inr (a, frames s1)"
    by (auto simp: get_table_def Let_def rbind_Inr_iff split: if_splits)
  then show ?thesis
  proof cases
    case 2
    from pm.alloc_Inr[OF inv 2] show ?thesis by (auto simp: s' card_Diff_singleton)
  qed (simp add: s')
qed

lemma map_page_Inl:
  assumes "pd_ok s pd" "vmm_map_page s pd v p flags = Inl e"
  shows "free_set (frames s) = {}" "\<not> has_table s pd (PD_INDEX v)"
proof -
  have inv: "pmm_inv (frames s)" using assms(1) by (simp add: pd_ok_def)
  have "\<not> has_table s pd (PD_INDEX v) \<and> (\<exists>e. pmm_alloc_frame (frames s) = Inl e)"
    using assms(2)
    by (cases "pmm_alloc_frame (frames s)")
      (auto simp: vmm_map_page_def get_table_def Let_def has_table_def pde_def PAGE_PRESENT_def
        split: if_splits)
  then show "free_set (frames s) = {}" "\<not> has_table s pd (PD_INDEX v)"
    using pm.alloc_Inl[OF inv] by blast+
qed

lemma unmap_page_ok:
  assumes "pd_ok s pd"
  shows "pd_ok (vmm_unmap_page s pd v) pd"
    "pte (vmm_unmap_page s pd v) pd w = (if page w = page v then 0 else pte s pd w)"
proof -
  have "pd_ok (vmm_unmap_page s pd v) pd \<and>
      pte (vmm_unmap_page s pd v) pd w = (if page w = page v then 0 else pte s pd w)"
  proof (cases "has_table s pd (PD_INDEX v)")
    case True
    then have "vmm_unmap_page s pd v =
        invlpg (s\<lparr>kmem := store_u32 (kmem s) (entry (table s pd (PD_INDEX v)) (PT_INDEX v)) 0\<rparr>) v"
      by (simp add: vmm_unmap_page_def has_table_def pde_def table_def page_def PAGE_PRESENT_def Let_def)
    with store_pte[OF assms True, of 0] show ?thesis by simp
  next
    case False
    then have "vmm_unmap_page s pd v = s"
      by (simp add: vmm_unmap_page_def has_table_def pde_def PAGE_PRESENT_def Let_def)
    moreover have "page w = page v \<Longrightarrow> pte s pd w = 0"
      using False index_page[of w v] by (auto simp: pte_def)
    ultimately show ?thesis using assms by auto
  qed
  then show "pd_ok (vmm_unmap_page s pd v) pd"
    "pte (vmm_unmap_page s pd v) pd w = (if page w = page v then 0 else pte s pd w)" by blast+
qed

section \<open>New directories\<close>

lemma copy_pde_loads:
  assumes "page pd = pd" "page kpd = kpd" "pd \<noteq> kpd" "i < 1024" "\<forall>k \<in> set ks. k < 1024"
  shows "load_u32 (foldl (copy_pde kpd pd) m ks) (entry pd i) =
    (if unat i \<in> set ks then load_u32 m (entry kpd i) else load_u32 m (entry pd i))
    \<and> (page p \<noteq> pd \<longrightarrow> aligned4 p \<longrightarrow> load_u32 (foldl (copy_pde kpd pd) m ks) p = load_u32 m p)"
  using assms(5)
proof (induction ks arbitrary: m)
  case (Cons k ks)
  have k: "unat (of_nat k :: u32) = k" using Cons.prems by (intro unat_of_nat_eq_32) simp
  then have kw: "of_nat k < (1024 :: u32)" "i = of_nat k \<longleftrightarrow> unat i = k"
    using Cons.prems by (auto simp: word_less_nat_alt word_unat_eq_iff)
  have one: "load_u32 (copy_pde kpd pd m k) (entry pd i) =
      (if unat i = k then load_u32 m (entry kpd i) else load_u32 m (entry pd i))"
    using assms kw by (auto simp: copy_pde_def mem_simps entry_aligned entry_eq_iff)
  have frame: "load_u32 (copy_pde kpd pd m k) q = load_u32 m q" if "page q \<noteq> pd" "aligned4 q" for q
  proof -
    have "entry pd (of_nat k) \<noteq> q" using that page_entry[OF assms(1) kw(1)] by auto
    with that show ?thesis using assms(1) kw by (simp add: copy_pde_def mem_simps entry_aligned)
  qed
  have "load_u32 (copy_pde kpd pd m k) (entry kpd i) = load_u32 m (entry kpd i)"
    using assms frame by (simp add: entry_aligned page_entry)
  with Cons.IH[of "copy_pde kpd pd m k"] Cons.prems one frame[of p] show ?case by auto
qed simp

lemma PD_INDEX_high: "768 \<le> unat (PD_INDEX v) \<longleftrightarrow> 0xC0000000 \<le> v"
proof -
  have "768 \<le> unat v div 4194304 \<longleftrightarrow> 3221225472 \<le> unat v"
    by (simp add: less_eq_div_iff_mult_less_eq)
  then show ?thesis by (simp add: PD_INDEX_unat word_le_nat_alt)
qed

lemma create_user_pd_ok:
  assumes k: "pd_ok s (kernel_pd s)" and c: "vmm_create_user_pd s = Inr (pd, s')"
  shows "pde s' pd (PD_INDEX v) = (if 0xC0000000 \<le> v then pde s (kernel_pd s) (PD_INDEX v) else 0)"
    and "pd \<noteq> kernel_pd s" "page pd = pd" "frame_of pd \<in> free_set (frames s)"
    and "\<And>p. page p \<noteq> pd \<Longrightarrow> aligned4 p \<Longrightarrow> load_u32 (kmem s') p = load_u32 (kmem s) p"
    and "free_set (frames s') = free_set (frames s) - {frame_of pd}"
proof -
  let ?kpd = "kernel_pd s"
  have inv: "pmm_inv (frames s)" and pk: "page ?kpd = ?kpd" using k by (simp_all add: pd_ok_def)
  define ks :: "nat list" where "ks = [768..<1024]"
  have ks: "\<forall>k \<in> set ks. k < 1024" "set ks = {768..<1024}" by (simp_all only: ks_def set_upt) simp
  from c obtain a fr where al: "pmm_alloc_frame (frames s) = Inr (a, fr)" and pd: "pd = a + 0xC0000000"
    and s': "s' = s\<lparr>frames := fr, kmem := foldl (copy_pde ?kpd pd) (luna_memset (kmem s) pd 0 4096) ks\<rparr>"
    unfolding vmm_create_user_pd_def ks_def [symmetric] by (auto simp: rbind_Inr_iff Let_def PAGE_SIZE_def)
  note a = pm.alloc_Inr[OF inv al]
  have fpd: "frame_of pd = a div 4096" by (simp add: pd frame_of_window)
  show ppd: "page pd = pd" using page_window[of a] aligned_frame_page[of a] a pd by simp
  show ne: "pd \<noteq> ?kpd" using k a fpd by (auto simp: pd_ok_def)
  show "frame_of pd \<in> free_set (frames s)" using a fpd by simp
  note loads = copy_pde_loads[OF ppd pk ne _ ks(1)]
  show "load_u32 (kmem s') p = load_u32 (kmem s) p" if "page p \<noteq> pd" "aligned4 p" for p
    using loads[of 0 "luna_memset (kmem s) pd 0 4096" p] that ppd by (simp add: s' mem_simps)
  have "unat (PD_INDEX v) \<in> set ks \<longleftrightarrow> 0xC0000000 \<le> v"
    using PD_INDEX_high[of v] index_less(1)[of v] by (simp add: ks(2) word_less_nat_alt)
  then show "pde s' pd (PD_INDEX v) = (if 0xC0000000 \<le> v then pde s ?kpd (PD_INDEX v) else 0)"
    using loads[of "PD_INDEX v" "luna_memset (kmem s) pd 0 4096"] ppd pk ne
    by (auto simp: pde_def s' mem_simps entry_aligned page_entry)
  show "free_set (frames s') = free_set (frames s) - {frame_of pd}" using a fpd s' by simp
qed

lemma create_user_pd_pte:
  assumes k: "pd_ok s (kernel_pd s)" and c: "vmm_create_user_pd s = Inr (pd, s')"
  shows "pte s' pd v = (if 0xC0000000 \<le> v then pte s (kernel_pd s) v else 0)"
proof (cases "0xC0000000 \<le> v")
  case True
  note new = create_user_pd_ok[OF k c]
  have tabs: "has_table s' pd (PD_INDEX v) = has_table s (kernel_pd s) (PD_INDEX v)"
    "table s' pd (PD_INDEX v) = table s (kernel_pd s) (PD_INDEX v)"
    using new(1)[of v] True by (simp_all add: has_table_def table_def)
  have "table s (kernel_pd s) (PD_INDEX v) \<noteq> pd" if "has_table s (kernel_pd s) (PD_INDEX v)"
    using k that new(4) by (auto simp: pd_ok_def)
  then show ?thesis using True tabs new(5) by (auto simp: pte_def page_entry entry_aligned)
next
  case False
  with create_user_pd_ok(1)[OF k c, of v] show ?thesis by (simp add: pte_def has_table_def)
qed

lemma PD_INDEX_surj: "i < 1024 \<Longrightarrow> \<exists>v. PD_INDEX v = i"
proof -
  assume i: "i < 1024"
  have "unat (of_nat (unat i * 4194304) :: u32) = unat i * 4194304"
    using i by (intro unat_of_nat_eq_32) (simp add: word_less_nat_alt)
  then have "unat (PD_INDEX (of_nat (unat i * 4194304))) = unat i" by (simp add: PD_INDEX_unat)
  then show ?thesis by (auto simp: word_unat_eq_iff)
qed

text \<open>A new user directory is a well-formed address space.\<close>

lemma create_user_pd_wf:
  assumes k: "pd_ok s (kernel_pd s)" and c: "vmm_create_user_pd s = Inr (pd, s')"
  shows "pd_ok s' pd"
    "i < 1024 \<Longrightarrow> has_table s' pd i \<Longrightarrow> frame_of (table s' pd i) \<notin> free_set (frames s)"
proof -
  let ?kpd = "kernel_pd s"
  note new = create_user_pd_ok[OF k c]
  have tab: "has_table s ?kpd i \<and> table s' pd i = table s ?kpd i" if a: "i < 1024" and b: "has_table s' pd i" for i
  proof -
    obtain v where v: "PD_INDEX v = i" using PD_INDEX_surj[OF a] by blast
    with b new(1)[of v] show ?thesis by (auto simp: has_table_def table_def split: if_splits)
  qed
  show "frame_of (table s' pd i) \<notin> free_set (frames s)" if "i < 1024" "has_table s' pd i" for i
    using tab[OF that] that(1) k by (auto simp: pd_ok_def)
  have "pmm_inv (frames s')"
  proof -
    have inv: "pmm_inv (frames s)" using k by (simp add: pd_ok_def)
    from c obtain a where "pmm_alloc_frame (frames s) = Inr (a, frames s')"
      by (auto simp: vmm_create_user_pd_def rbind_Inr_iff Let_def)
    from pm.alloc_Inr[OF inv this] show ?thesis by simp
  qed
  with new(3,4,6) tab k show "pd_ok s' pd" unfolding pd_ok_def by auto
qed

text \<open>Taking frames away from the free set keeps an address space well formed.\<close>

lemma pd_ok_fewer_frames:
  assumes "pd_ok v pd" "pmm_inv fr" "free_set fr \<subseteq> free_set (frames v)"
  shows "pd_ok (v\<lparr>frames := fr\<rparr>) pd"
  using assms by (auto simp: pd_ok_def has_table_def table_def pde_def)

lemma tables_frames [simp]:
  "has_table (v\<lparr>frames := fr\<rparr>) pd i = has_table v pd i" "table (v\<lparr>frames := fr\<rparr>) pd i = table v pd i"
  by (simp_all add: has_table_def table_def pde_def)

text \<open>Right after \<^verbatim>\<open>vmm_init\<close> the directory loaded into CR3 is empty.\<close>

lemma vmm_init_empty:
  assumes inv: "pmm_inv (frames s)" and i: "vmm_init s = Inr s'"
  shows "pte s' (kernel_pd s') v = 0" "pd_ok s' (kernel_pd s')" "cr3 s' = kernel_pd s' - 0xC0000000"
proof -
  from i obtain a fr where al: "pmm_alloc_frame (frames s) = Inr (a, fr)"
    and s': "kernel_pd s' = a + 0xC0000000" "kmem s' = luna_memset (kmem s) (kernel_pd s') 0 4096"
      "frames s' = fr" "cr3 s' = a"
    by (auto simp: vmm_init_def rbind_Inr_iff Let_def PAGE_SIZE_def set_cr3_def)
  note a = pm.alloc_Inr[OF inv al]
  have p: "page (kernel_pd s') = kernel_pd s'"
    using page_window[of a] aligned_frame_page[of a] a s'(1) by simp
  have none: "\<not> has_table s' (kernel_pd s') i" if "i < 1024" for i
    using p that by (simp add: has_table_def pde_def s'(2) mem_simps entry_aligned page_entry)
  then show "pte s' (kernel_pd s') v = 0" by (simp add: pte_def)
  show "pd_ok s' (kernel_pd s')"
    using p none a by (simp add: pd_ok_def s'(1,3) frame_of_window)
  show "cr3 s' = kernel_pd s' - 0xC0000000" by (simp add: s')
qed

section \<open>The interface of an address space\<close>

locale address_space =
  fixes ok :: "'s \<Rightarrow> bool" and look :: "'s \<Rightarrow> u32 \<Rightarrow> u32"
    and mapp :: "'s \<Rightarrow> u32 \<Rightarrow> u32 \<Rightarrow> u32 \<Rightarrow> 's result" and unmap :: "'s \<Rightarrow> u32 \<Rightarrow> 's"
    and val :: "u32 \<Rightarrow> u32 \<Rightarrow> u32"
  assumes mapp: "ok s \<Longrightarrow> mapp s v p fl = Inr s' \<Longrightarrow>
      ok s' \<and> look s' w = (if page w = page v then val p fl else look s w)"
    and unmap: "ok s \<Longrightarrow> ok (unmap s v) \<and> look (unmap s v) w = (if page w = page v then 0 else look s w)"
begin

lemma map_then_unmap:
  assumes "ok s" "look s v = 0" "mapp s v p fl = Inr s'" "\<And>w. page w = page v \<Longrightarrow> look s w = look s v"
  shows "look (unmap s' v) = look s"
proof
  fix w
  have ok': "ok s'" and l: "look s' w = (if page w = page v then val p fl else look s w)"
    using mapp[OF assms(1,3), of w] by auto
  have "look (unmap s' v) w = (if page w = page v then 0 else look s' w)" using unmap[OF ok'] by blast
  with l assms(2) assms(4)[of w] show "look (unmap s' v) w = look s w"
    by (cases "page w = page v") simp_all
qed

lemma map_twice:
  assumes "ok s" "mapp s v p fl = Inr s1" "mapp s1 v' p' fl' = Inr s2" "page v \<noteq> page v'"
  shows "ok s2 \<and> look s2 v = val p fl \<and> look s2 v' = val p' fl'"
  using mapp[OF assms(1,2)] mapp[OF _ assms(3)] assms(4) by auto

end

interpretation vas: address_space "\<lambda>s. pd_ok s pd" "\<lambda>s. pte s pd" "\<lambda>s. vmm_map_page s pd"
    "\<lambda>s. vmm_unmap_page s pd" "\<lambda>p fl. page p OR PAGE_PRESENT OR fl" for pd
  by unfold_locales (use map_page_ok unmap_page_ok in blast)+

lemma pte_cong: "page w = page v \<Longrightarrow> pte s pd w = pte s pd v"
  using index_page[of w v] by (auto simp: pte_def)

section \<open>A concrete machine\<close>

definition sample_vm :: vm where
  "sample_vm = \<lparr>kmem = (\<lambda>_. 0), frames = sample_pmm, kernel_pd = 0, cr3 = 0, flushed = []\<rparr>"

lemma sample_frame_free: "0x103 \<in> free_set sample_pmm"
proof -
  have "\<not> frame_test sample_pmm 0x103" by code_simp
  then show ?thesis by (simp add: free_set_def FRAMES_TOTAL_def)
qed

lemma sample_vmm_init:
  obtains s where "vmm_init sample_vm = Inr s" "pd_ok s (kernel_pd s)" "free_set (frames s) \<noteq> {}"
    "\<forall>v. pte s (kernel_pd s) v = 0"
proof -
  obtain fr where al: "pmm_alloc_frame sample_pmm = Inr (0x102000, fr)"
    using sample_alloc pmm_alloc_frame_Inl[OF sample_inv] sample_frame_free
    by (cases "pmm_alloc_frame sample_pmm") auto
  then obtain s where s: "vmm_init sample_vm = Inr s" and fr: "frames s = fr"
    by (simp add: vmm_init_def sample_vm_def Let_def set_cr3_def)
  have inv: "pmm_inv (frames sample_vm)" using sample_inv by (simp add: sample_vm_def)
  have "0x103 \<in> free_set (frames s)" using pm.alloc_Inr[OF sample_inv al] sample_frame_free fr by simp
  then show ?thesis using that[OF s] vmm_init_empty[OF inv s] by blast
qed

section \<open>Properties\<close>

text \<open>C5: On a well-formed address space \<^verbatim>\<open>vmm_map_page\<close> changes the translation of one page only:
  afterwards every address of the page of \<open>v\<close> translates to the frame of \<open>p\<close> with its own offset, every
  other address translates as before, and the address space is still well formed. It fails only when
  a page table is missing and no frame is free.\<close>

theorem vmm_map_page_correct:
  assumes "pd_ok s pd" "flags < 0x1000"
  shows "case vmm_map_page s pd v p flags of
      Inl e \<Rightarrow> free_set (frames s) = {} \<and> \<not> has_table s pd (PD_INDEX v)
    | Inr s' \<Rightarrow> pd_ok s' pd \<and> (\<forall>w. vmm_virt_to_phys s' pd w =
        (if page w = page v then page p OR (w AND 0xFFF) else vmm_virt_to_phys s pd w))"
proof (cases "vmm_map_page s pd v p flags")
  case (Inl e)
  with map_page_Inl[OF assms(1) Inl] show ?thesis by simp
next
  case (Inr s')
  note m = map_page_ok[OF assms(1) Inr]
  have "page flags = 0"
    using assms(2) by (simp add: page_def mask_12 and_not_mask_eq_0_iff word_less_nat_alt)
  moreover have "page PAGE_PRESENT = 0" by (simp add: page_def PAGE_PRESENT_def)
  ultimately have "page (PAGE_PRESENT OR flags) = 0" by (simp add: page_def bit.conj_disj_distrib2)
  then have x: "page (page p OR (PAGE_PRESENT OR flags)) = page p" by (intro page_or) simp_all
  have "(page p OR (PAGE_PRESENT OR flags)) AND 1 \<noteq> 0"
    by (simp add: present_iff bit_simps PAGE_PRESENT_def)
  then have "vmm_virt_to_phys s' pd w =
      (if page w = page v then page p OR (w AND 0xFFF) else vmm_virt_to_phys s pd w)" for w
    unfolding virt_to_phys_pte m(2)[of w] or.assoc by (cases "page w = page v") (simp_all only: x if_True if_False simp_thms)
  then show ?thesis using Inr m(1) by simp
qed

theorem vmm_map_page_correct_witness:
  "\<exists>s s'. vmm_init sample_vm = Inr s \<and> vmm_map_page s (kernel_pd s) 0xD0000000 0x5000 3 = Inr s'
     \<and> vmm_virt_to_phys s' (kernel_pd s) 0xD0000123 = 0x5123"
proof -
  obtain s where s: "vmm_init sample_vm = Inr s" "pd_ok s (kernel_pd s)" "free_set (frames s) \<noteq> {}"
    by (rule sample_vmm_init)
  from vmm_map_page_correct[OF s(2), of 3 "0xD0000000" "0x5000"] s
  show ?thesis by (cases "vmm_map_page s (kernel_pd s) 0xD0000000 0x5000 3") (auto simp: page_def)
qed

text \<open>C6: \<^verbatim>\<open>vmm_unmap_page\<close> removes the translation of one page and no other, and undoes
  \<^verbatim>\<open>vmm_map_page\<close>: mapping a page that was not mapped and unmapping it gives back the translation of
  every address.\<close>

theorem vmm_unmap_undoes_map:
  assumes "pd_ok s pd" "vmm_map_page s pd v p flags = Inr s'" "pte s pd v = 0"
  shows "vmm_virt_to_phys (vmm_unmap_page s' pd v) pd w = vmm_virt_to_phys s pd w
    \<and> vmm_virt_to_phys (vmm_unmap_page s' pd v) pd v = 0 \<and> pd_ok (vmm_unmap_page s' pd v) pd"
  using vas.map_then_unmap[OF assms(1,3,2) pte_cong] assms(3) unmap_page_ok(1)[OF map_page_ok(1)[OF assms(1,2)]]
  by (simp add: virt_to_phys_pte)

theorem vmm_unmap_undoes_map_witness:
  "\<exists>s s'. vmm_init sample_vm = Inr s \<and> vmm_map_page s (kernel_pd s) 0xD0000000 0x5000 3 = Inr s'
     \<and> vmm_virt_to_phys (vmm_unmap_page s' (kernel_pd s) 0xD0000000) (kernel_pd s) 0xD0000123 =
       vmm_virt_to_phys s (kernel_pd s) 0xD0000123"
proof -
  obtain s where s: "vmm_init sample_vm = Inr s" "pd_ok s (kernel_pd s)" "free_set (frames s) \<noteq> {}"
    "\<forall>v. pte s (kernel_pd s) v = 0" by (rule sample_vmm_init)
  obtain s' where "vmm_map_page s (kernel_pd s) 0xD0000000 0x5000 3 = Inr s'"
    using map_page_Inl(1)[OF s(2)] s(3) by (cases "vmm_map_page s (kernel_pd s) 0xD0000000 0x5000 3") auto
  with vmm_unmap_undoes_map[OF s(2) this s(4)[rule_format], of "0xD0000123"] s(1) show ?thesis by blast
qed

text \<open>A directory made by \<^verbatim>\<open>vmm_create_user_pd\<close> lies on a frame that was free, shares the kernel half
  of the address space with the kernel's directory and maps nothing below it; the kernel's own
  translation is unchanged.\<close>

theorem user_pd_isolated:
  assumes "pd_ok s (kernel_pd s)" "vmm_create_user_pd s = Inr (pd, s')"
  shows "vmm_virt_to_phys s' pd v = (if 0xC0000000 \<le> v then vmm_virt_to_phys s (kernel_pd s) v else 0)
    \<and> vmm_virt_to_phys s' (kernel_pd s) v = vmm_virt_to_phys s (kernel_pd s) v
    \<and> frame_of pd \<in> free_set (frames s) \<and> free_set (frames s') = free_set (frames s) - {frame_of pd}"
proof -
  note new = create_user_pd_ok[OF assms]
  have pk: "page (kernel_pd s) = kernel_pd s" using assms(1) by (simp add: pd_ok_def)
  have "pde s' (kernel_pd s) i = pde s (kernel_pd s) i" if "i < 1024" for i
    using new(2,5) pk that by (simp add: pde_def page_entry entry_aligned)
  then have tabs: "has_table s' (kernel_pd s) (PD_INDEX v) = has_table s (kernel_pd s) (PD_INDEX v)"
    "table s' (kernel_pd s) (PD_INDEX v) = table s (kernel_pd s) (PD_INDEX v)"
    by (simp_all add: has_table_def table_def)
  have "table s (kernel_pd s) (PD_INDEX v) \<noteq> pd" if "has_table s (kernel_pd s) (PD_INDEX v)"
    using assms(1) that new(4) by (auto simp: pd_ok_def)
  then have "pte s' (kernel_pd s) v = pte s (kernel_pd s) v"
    using tabs new(5) by (auto simp: pte_def page_entry entry_aligned)
  with create_user_pd_pte[OF assms, of v] new(4,6) show ?thesis by (simp add: virt_to_phys_pte)
qed

theorem user_pd_isolated_witness:
  "\<exists>s pd s'. vmm_init sample_vm = Inr s \<and> vmm_create_user_pd s = Inr (pd, s') \<and> vmm_virt_to_phys s' pd 0x400000 = 0"
proof -
  obtain s where s: "vmm_init sample_vm = Inr s" "pd_ok s (kernel_pd s)" "free_set (frames s) \<noteq> {}"
    by (rule sample_vmm_init)
  have inv: "pmm_inv (frames s)" using s(2) by (simp add: pd_ok_def)
  obtain pd s' where "vmm_create_user_pd s = Inr (pd, s')"
    using pm.alloc_Inl[OF inv] s(3) by (cases "pmm_alloc_frame (frames s)") (auto simp: vmm_create_user_pd_def Let_def)
  with user_pd_isolated[OF s(2) this, of "0x400000"] s(1) show ?thesis by auto
qed

text \<open>\<^verbatim>\<open>vmm_init\<close> loads CR3 with a directory that maps nothing: right after it no address translates,
  neither the kernel's image nor its stack nor the window through which the tables are reached,
  although the comment says that the boot-time mapping is inherited.\<close>

theorem vmm_init_maps_nothing:
  assumes "pmm_inv (frames s)" "vmm_init s = Inr s'"
  shows "cr3 s' = kernel_pd s' - 0xC0000000 \<and> (\<forall>v. vmm_virt_to_phys s' (kernel_pd s') v = 0)"
  using vmm_init_empty[OF assms] by (simp add: virt_to_phys_pte)

theorem vmm_init_maps_nothing_witness:
  "\<exists>s'. vmm_init sample_vm = Inr s' \<and> vmm_virt_to_phys s' (kernel_pd s') 0xC0100000 = 0"
proof -
  obtain s where s: "vmm_init sample_vm = Inr s" by (rule sample_vmm_init)
  have "pmm_inv (frames sample_vm)" using sample_inv by (simp add: sample_vm_def)
  from vmm_init_maps_nothing[OF this s] s show ?thesis by blast
qed

end
