(* ===== verification/Gdt.thy ===== *)
theory Gdt
  imports Luna_Prelude
begin

text \<open>
  The global descriptor table and the task state segment of \<^verbatim>\<open>arch/x86/gdt.c\<close>, with what the two
  assembly routines of \<^verbatim>\<open>arch/x86/gdt_flush.asm\<close> load into the processor. The addresses the linker
  gives to the static objects are parameters.
\<close>

section \<open>State\<close>

record GDT_Entry =
  limit_low :: u16
  base_low :: u16
  base_middle :: u8
  access :: u8
  granularity :: u8
  base_high :: u8

record TSS =
  prev_tss :: u32
  esp0 :: u32
  ss0 :: u32
  esp1 :: u32
  ss1 :: u32
  esp2 :: u32
  ss2 :: u32
  tss_cr3 :: u32
  tss_eip :: u32
  tss_eflags :: u32
  tss_regs :: "u32 list"
  tss_segs :: "u32 list"
  ldt :: u32
  trap :: u16
  iomap_base :: u16

record GDT_Ptr =
  gp_limit :: u16
  gp_base :: u32

text \<open>The tables, and the registers that the flush routines load: the table register, the code and data
  segment selectors and the task register.\<close>

record gdt_state =
  gdt :: "GDT_Entry list"
  gdt_ptr :: GDT_Ptr
  kernel_tss :: TSS
  reg_gdtr :: GDT_Ptr
  reg_cs :: u16
  reg_ds :: u16
  reg_tr :: u16

definition GDT_ENTRIES :: nat where "GDT_ENTRIES = 6"
definition GDT_KERNEL_CODE :: u16 where "GDT_KERNEL_CODE = 0x08"
definition GDT_KERNEL_DATA :: u16 where "GDT_KERNEL_DATA = 0x10"
definition GDT_USER_CODE :: u16 where "GDT_USER_CODE = 0x1B"
definition GDT_USER_DATA :: u16 where "GDT_USER_DATA = 0x23"
definition GDT_TSS_SEG :: u16 where "GDT_TSS_SEG = 0x28"

definition ACC_PRESENT :: u8 where "ACC_PRESENT = 0x80"
definition ACC_DPL0 :: u8 where "ACC_DPL0 = 0x00"
definition ACC_DPL3 :: u8 where "ACC_DPL3 = 0x60"
definition ACC_SEG :: u8 where "ACC_SEG = 0x10"
definition ACC_EXEC :: u8 where "ACC_EXEC = 0x08"
definition ACC_RW :: u8 where "ACC_RW = 0x02"
definition ACC_TSS_32 :: u8 where "ACC_TSS_32 = 0x09"
definition GRAN_4K_32 :: u8 where "GRAN_4K_32 = 0xCF"

lemmas access_flags = ACC_PRESENT_def ACC_DPL0_def ACC_DPL3_def ACC_SEG_def ACC_EXEC_def ACC_RW_def ACC_TSS_32_def GRAN_4K_32_def
lemmas selectors = GDT_KERNEL_CODE_def GDT_KERNEL_DATA_def GDT_USER_CODE_def GDT_USER_DATA_def GDT_TSS_SEG_def

definition SIZEOF_TSS :: u32 where "SIZEOF_TSS = 104"

text \<open>The cleared segment; its general registers and segment registers are kept as two lists.\<close>

definition zero_tss :: TSS where
  "zero_tss = \<lparr>prev_tss = 0, esp0 = 0, ss0 = 0, esp1 = 0, ss1 = 0, esp2 = 0, ss2 = 0, tss_cr3 = 0, tss_eip = 0,
     tss_eflags = 0, tss_regs = replicate 8 0, tss_segs = replicate 6 0, ldt = 0, trap = 0, iomap_base = 0\<rparr>"

section \<open>Operations\<close>

definition make_entry :: "u32 \<Rightarrow> u32 \<Rightarrow> u8 \<Rightarrow> u8 \<Rightarrow> GDT_Entry" where
  "make_entry base limit acc gran =
     \<lparr>limit_low = ucast (limit AND 0xFFFF), base_low = ucast (base AND 0xFFFF),
      base_middle = ucast (drop_bit 16 base AND 0xFF), access = acc,
      granularity = ucast ((ucast (gran AND 0xF0) :: u32) OR (drop_bit 16 limit AND 0x0F)),
      base_high = ucast (drop_bit 24 base AND 0xFF)\<rparr>"

text \<open>The table has six entries; an index outside it is out of bounds.\<close>

definition gdt_set_entry :: "nat \<Rightarrow> u32 \<Rightarrow> u32 \<Rightarrow> u8 \<Rightarrow> u8 \<Rightarrow> gdt_state \<Rightarrow> gdt_state result" where
  "gdt_set_entry idx base limit acc gran s =
     (if idx < length (gdt s) then Inr (s\<lparr>gdt := (gdt s)[idx := make_entry base limit acc gran]\<rparr>) else Inl OutOfBounds)"

definition tss_install :: "u32 \<Rightarrow> nat \<Rightarrow> gdt_state \<Rightarrow> gdt_state result" where
  "tss_install tss_addr idx s =
     (let base = tss_addr; limit = SIZEOF_TSS - 1;
          t = zero_tss\<lparr>ss0 := ucast GDT_KERNEL_DATA, iomap_base := ucast SIZEOF_TSS\<rparr>;
          e = \<lparr>limit_low = ucast (limit AND 0xFFFF), base_low = ucast (base AND 0xFFFF),
               base_middle = ucast (drop_bit 16 base AND 0xFF), access = ACC_PRESENT OR ACC_TSS_32,
               granularity = ucast (drop_bit 16 limit AND 0x0F), base_high = ucast (drop_bit 24 base AND 0xFF)\<rparr>
      in if idx < length (gdt s) then Inr (s\<lparr>kernel_tss := t, gdt := (gdt s)[idx := e]\<rparr>) else Inl OutOfBounds)"

text \<open>The assembly routines: the table register, the far jump that reloads the code segment and the data
  segments; the task register.\<close>

definition gdt_flush :: "gdt_state \<Rightarrow> gdt_state" where
  "gdt_flush s = s\<lparr>reg_gdtr := gdt_ptr s, reg_cs := 0x08, reg_ds := 0x10\<rparr>"

definition tss_flush :: "gdt_state \<Rightarrow> gdt_state" where
  "tss_flush s = s\<lparr>reg_tr := 0x28\<rparr>"

definition gdt_install :: "u32 \<Rightarrow> u32 \<Rightarrow> gdt_state \<Rightarrow> gdt_state result" where
  "gdt_install gdt_addr tss_addr s =
     rbind (gdt_set_entry 0 0 0 0 0 s) (\<lambda>s.
     rbind (gdt_set_entry 1 0 0xFFFFF (ACC_PRESENT OR ACC_DPL0 OR ACC_SEG OR ACC_EXEC OR ACC_RW) GRAN_4K_32 s) (\<lambda>s.
     rbind (gdt_set_entry 2 0 0xFFFFF (ACC_PRESENT OR ACC_DPL0 OR ACC_SEG OR ACC_RW) GRAN_4K_32 s) (\<lambda>s.
     rbind (gdt_set_entry 3 0 0xFFFFF (ACC_PRESENT OR ACC_DPL3 OR ACC_SEG OR ACC_EXEC OR ACC_RW) GRAN_4K_32 s) (\<lambda>s.
     rbind (gdt_set_entry 4 0 0xFFFFF (ACC_PRESENT OR ACC_DPL3 OR ACC_SEG OR ACC_RW) GRAN_4K_32 s) (\<lambda>s.
     rbind (tss_install tss_addr 5 s) (\<lambda>s.
       let s = s\<lparr>gdt_ptr := \<lparr>gp_limit = 6 * 8 - 1, gp_base = gdt_addr\<rparr>\<rparr>
       in Inr (tss_flush (gdt_flush s))))))))"

definition gdt_set_tss_stack :: "u32 \<Rightarrow> gdt_state \<Rightarrow> gdt_state" where
  "gdt_set_tss_stack esp s = s\<lparr>kernel_tss := (kernel_tss s)\<lparr>esp0 := esp\<rparr>\<rparr>"

section \<open>The processor's reading of a descriptor\<close>

definition seg_base :: "GDT_Entry \<Rightarrow> u32" where
  "seg_base e = ucast (base_low e) OR push_bit 16 (ucast (base_middle e)) OR push_bit 24 (ucast (base_high e))"

definition seg_limit :: "GDT_Entry \<Rightarrow> u32" where
  "seg_limit e = ucast (limit_low e) OR push_bit 16 (ucast (granularity e AND 0x0F))"

definition seg_dpl :: "GDT_Entry \<Rightarrow> u8" where
  "seg_dpl e = drop_bit 5 (access e) AND 3"

definition seg_present :: "GDT_Entry \<Rightarrow> bool" where
  "seg_present e = bit (access e) 7"

definition seg_code :: "GDT_Entry \<Rightarrow> bool" where
  "seg_code e \<longleftrightarrow> bit (access e) 4 \<and> bit (access e) 3"

text \<open>Bytes addressed by a segment: the limit counts pages when the granularity flag is set.\<close>

definition seg_last :: "GDT_Entry \<Rightarrow> nat" where
  "seg_last e = (if bit (granularity e) 7 then (unat (seg_limit e) + 1) * 4096 - 1 else unat (seg_limit e))"

text \<open>The entry a selector names; its privilege is in the two low bits.\<close>

definition selected :: "gdt_state \<Rightarrow> u16 \<Rightarrow> GDT_Entry" where
  "selected s sel = gdt s ! (unat sel div 8)"

lemma mask_FFFF: "(0xFFFF :: u32) = mask 16" by (simp add: mask_eq_exp_minus_1)
lemma mask_FF: "(0xFF :: u32) = mask 8" by (simp add: mask_eq_exp_minus_1)
lemma mask_F: "(0x0F :: u32) = mask 4" "(0x0F :: u8) = mask 4" by (simp_all add: mask_eq_exp_minus_1)

lemma entry_base: "seg_base (make_entry base limit acc gran) = base"
proof (rule bit_word_eqI)
  fix n assume "n < LENGTH(32)"
  then show "bit (seg_base (make_entry base limit acc gran)) n = bit base n"
    unfolding seg_base_def make_entry_def mask_FFFF mask_FF
    by (cases "n < 16"; cases "n < 24") (auto simp: bit_simps)
qed

lemma nibble_high: "bit (0xF0 :: int) n \<longleftrightarrow> 4 \<le> n \<and> n < 8"
proof -
  have e: "(0xF0 :: int) = push_bit 4 (mask 4)" by (simp add: mask_eq_exp_minus_1 push_bit_eq_mult)
  show ?thesis unfolding e by (auto simp: bit_simps)
qed

lemma entry_limit:
  assumes "limit < 0x100000"
  shows "seg_limit (make_entry base limit acc gran) = limit"
proof (rule bit_word_eqI)
  fix n assume n: "n < LENGTH(32)"
  have "limit = take_bit 20 limit"
    using assms by (simp add: word_unat_eq_iff unsigned_take_bit_eq take_bit_nat_eq_self word_less_nat_alt)
  then have hi: "bit limit n \<Longrightarrow> n < 20" by (metis bit_take_bit_iff)
  show "bit (seg_limit (make_entry base limit acc gran)) n = bit limit n"
    unfolding seg_limit_def make_entry_def mask_FFFF mask_F
    using n hi by (cases "n < 16"; cases "n < 20") (auto simp: bit_simps nibble_high)
qed

lemma entry_access [simp]: "access (make_entry base limit acc gran) = acc"
  by (simp add: make_entry_def)

lemma entry_page_granular: "bit (granularity (make_entry base limit acc gran)) 7 = bit gran 7"
  unfolding make_entry_def mask_F by (simp add: bit_simps nibble_high)

section \<open>Properties\<close>

text \<open>After \<^verbatim>\<open>gdt_install\<close> the selectors the kernel uses name the right segments: each of the four
  code and data segments is present and covers all 4 GiB from address zero, the kernel's have privilege
  level 0 and the user's level 3, matching the level in the selector, and only the code selectors name
  code; the descriptor in the task register has the address and size of the task state segment, whose
  ring 0 stack segment is the kernel data selector. The null descriptor is not present.\<close>

theorem gdt_install_segments:
  assumes "length (gdt s) = GDT_ENTRIES"
  shows "\<exists>s'. gdt_install gdt_addr tss_addr s = Inr s'
    \<and> reg_gdtr s' = \<lparr>gp_limit = 47, gp_base = gdt_addr\<rparr> \<and> reg_cs s' = GDT_KERNEL_CODE \<and> reg_ds s' = GDT_KERNEL_DATA
    \<and> reg_tr s' = GDT_TSS_SEG \<and> \<not> seg_present (selected s' 0)
    \<and> (\<forall>sel \<in> {GDT_KERNEL_CODE, GDT_KERNEL_DATA, GDT_USER_CODE, GDT_USER_DATA}.
          seg_present (selected s' sel) \<and> seg_base (selected s' sel) = 0 \<and> seg_last (selected s' sel) = 2 ^ 32 - 1
        \<and> seg_dpl (selected s' sel) = ucast (sel AND 3)
        \<and> seg_code (selected s' sel) = (sel \<in> {GDT_KERNEL_CODE, GDT_USER_CODE}))
    \<and> seg_present (selected s' GDT_TSS_SEG) \<and> seg_base (selected s' GDT_TSS_SEG) = tss_addr
    \<and> seg_last (selected s' GDT_TSS_SEG) = 103 \<and> ss0 (kernel_tss s') = ucast GDT_KERNEL_DATA"
proof -
  have len: "length (gdt s) = 6" using assms by (simp add: GDT_ENTRIES_def)
  define e where "e acc = make_entry 0 0xFFFFF acc GRAN_4K_32" for acc
  define t where "t = make_entry tss_addr (SIZEOF_TSS - 1) (ACC_PRESENT OR ACC_TSS_32) 0"
  define s' where "s' = tss_flush (gdt_flush (s\<lparr>kernel_tss := zero_tss\<lparr>ss0 := ucast GDT_KERNEL_DATA, iomap_base := ucast SIZEOF_TSS\<rparr>,
    gdt := (gdt s)[0 := make_entry 0 0 0 0, 1 := e 0x9A, 2 := e 0x92, 3 := e 0xFA, 4 := e 0xF2, 5 := t],
    gdt_ptr := \<lparr>gp_limit = 47, gp_base = gdt_addr\<rparr>\<rparr>))"
  have s': "gdt_install gdt_addr tss_addr s = Inr s'"
    using len by (simp add: s'_def gdt_install_def gdt_set_entry_def tss_install_def Let_def access_flags e_def t_def make_entry_def)
  have g: "gdt s' = (gdt s)[0 := make_entry 0 0 0 0, 1 := e 0x9A, 2 := e 0x92, 3 := e 0xFA, 4 := e 0xF2, 5 := t]"
    and r: "reg_gdtr s' = \<lparr>gp_limit = 47, gp_base = gdt_addr\<rparr>" "reg_cs s' = GDT_KERNEL_CODE" "reg_ds s' = GDT_KERNEL_DATA"
      "reg_tr s' = GDT_TSS_SEG" "ss0 (kernel_tss s') = ucast GDT_KERNEL_DATA"
    by (simp_all add: s'_def tss_flush_def gdt_flush_def selectors)
  have seg: "seg_base (e acc) = 0" "seg_last (e acc) = 2 ^ 32 - 1" "access (e acc) = acc" for acc
    using entry_base[of 0 "0xFFFFF" acc GRAN_4K_32] entry_limit[of "0xFFFFF" 0 acc GRAN_4K_32]
    by (simp_all add: e_def seg_last_def entry_page_granular GRAN_4K_32_def)
  have tss: "seg_base t = tss_addr" "seg_last t = 103" "access t = 0x89"
    using entry_base[of tss_addr "SIZEOF_TSS - 1"] entry_limit[of "SIZEOF_TSS - 1" tss_addr]
    by (simp_all add: t_def seg_last_def entry_page_granular SIZEOF_TSS_def access_flags)
  from s' g r seg tss len show ?thesis
    by (simp add: selected_def selectors seg_present_def seg_dpl_def seg_code_def)
qed

definition boot_gdt :: gdt_state where
  "boot_gdt = \<lparr>gdt = replicate 6 (make_entry 0 0 0 0), gdt_ptr = \<lparr>gp_limit = 0, gp_base = 0\<rparr>, kernel_tss = zero_tss,
     reg_gdtr = \<lparr>gp_limit = 0, gp_base = 0\<rparr>, reg_cs = 0, reg_ds = 0, reg_tr = 0\<rparr>"

theorem gdt_install_segments_witness:
  "\<exists>s'. gdt_install 0xC0110000 0xC0110040 boot_gdt = Inr s' \<and> seg_base (selected s' GDT_TSS_SEG) = 0xC0110040"
  using gdt_install_segments[of boot_gdt "0xC0110000" "0xC0110040"] by (auto simp: boot_gdt_def GDT_ENTRIES_def)

end
