(* ===== verification/Process.thy ===== *)
theory Process
  imports Vmm Gdt
begin

text \<open>
  The process table of \<^verbatim>\<open>kernel/process.c\<close>: creation of kernel tasks and of user processes with their own
  page directory, stacks and first interrupt frame, lookup and termination. A pointer into the table is
  the index of its slot, with \<^term>\<open>None\<close> for the null pointer.
\<close>

section \<open>State\<close>

definition MAX_PROCESSES :: nat where "MAX_PROCESSES = 64"

definition PROCESS_STACK_SIZE :: u32 where "PROCESS_STACK_SIZE = 64 * 1024"

datatype ProcessState = PROC_READY | PROC_RUNNING | PROC_BLOCKED | PROC_ZOMBIE | PROC_DEAD

record CPUContext =
  x_eax :: u32
  x_ebx :: u32
  x_ecx :: u32
  x_edx :: u32
  x_esi :: u32
  x_edi :: u32
  x_ebp :: u32
  x_esp :: u32
  x_eip :: u32
  x_eflags :: u32
  x_cs :: u32
  x_ds :: u32
  x_es :: u32
  x_fs :: u32
  x_gs :: u32
  x_ss :: u32

record Process =
  pid :: u32
  pname :: "u8 list"
  pstate :: ProcessState
  ring :: u8
  priority :: u8
  ctx :: CPUContext
  page_dir :: u32
  user_stack :: u32
  kernel_stack :: u32
  ticks_run :: u32
  ticks_alloc :: u32
  pnext :: "nat option"

text \<open>A cleared context and a cleared slot: the first state of the enumeration is \<^verbatim>\<open>PROC_READY\<close>.\<close>

definition zero_context :: CPUContext where
  "zero_context = \<lparr>x_eax = 0, x_ebx = 0, x_ecx = 0, x_edx = 0, x_esi = 0, x_edi = 0, x_ebp = 0, x_esp = 0, x_eip = 0,
     x_eflags = 0, x_cs = 0, x_ds = 0, x_es = 0, x_fs = 0, x_gs = 0, x_ss = 0\<rparr>"

definition zero_process :: Process where
  "zero_process = \<lparr>pid = 0, pname = replicate 32 0, pstate = PROC_READY, ring = 0, priority = 0, ctx = zero_context,
     page_dir = 0, user_stack = 0, kernel_stack = 0, ticks_run = 0, ticks_alloc = 0, pnext = None\<rparr>"

record procs =
  process_table :: "Process list"
  pid_counter :: u32
  current_proc :: "nat option"
  pvm :: vm
  pgdt :: gdt_state

section \<open>Operations\<close>

definition process_init :: "'a procs_scheme \<Rightarrow> 'a procs_scheme" where
  "process_init s = s\<lparr>process_table := replicate MAX_PROCESSES zero_process, current_proc := None\<rparr>"

definition process_next_pid :: "'a procs_scheme \<Rightarrow> u32 \<times> 'a procs_scheme" where
  "process_next_pid s = (pid_counter s, s\<lparr>pid_counter := pid_counter s + 1\<rparr>)"

definition process_get_current :: "'a procs_scheme \<Rightarrow> nat option" where
  "process_get_current s = current_proc s"

definition process_set_current :: "nat option \<Rightarrow> 'a procs_scheme \<Rightarrow> 'a procs_scheme" where
  "process_set_current p s = s\<lparr>current_proc := p\<rparr>"

definition process_get_by_pid :: "u32 \<Rightarrow> 'a procs_scheme \<Rightarrow> nat option" where
  "process_get_by_pid n s = first_slot (\<lambda>p. pstate p \<noteq> PROC_DEAD \<and> pid p = n) (process_table s)"

definition alloc_slot :: "'a procs_scheme \<Rightarrow> nat result" where
  "alloc_slot s =
     (case first_slot (\<lambda>p. pstate p = PROC_DEAD) (process_table s) of
        Some i \<Rightarrow> Inr i
      | None \<Rightarrow> kernel_panic ''process_create: process table full'')"

definition set_slot :: "nat \<Rightarrow> Process \<Rightarrow> 'a procs_scheme \<Rightarrow> 'a procs_scheme" where
  "set_slot i p s = s\<lparr>process_table := (process_table s)[i := p]\<rparr>"

definition process_create :: "u8 list \<Rightarrow> u32 \<Rightarrow> u8 \<Rightarrow> u8 \<Rightarrow> 'a procs_scheme \<Rightarrow> (nat \<times> 'a procs_scheme) result" where
  "process_create name ent rng prio s =
     rbind (alloc_slot s) (\<lambda>i.
       let (n, s) = process_next_pid s;
           p = zero_process\<lparr>pid := n, ring := rng, priority := prio, pstate := PROC_READY,
                 ticks_alloc := 1 + ucast prio, pname := strncpy_into (replicate 32 0) name 31\<rparr> in
       rbind (pmm_alloc_frames (frames (pvm s)) 4) (\<lambda>(kstack_phys, fr).
         let s = s\<lparr>pvm := (pvm s)\<lparr>frames := fr\<rparr>\<rparr>;
             p = p\<lparr>kernel_stack := kstack_phys + 0xC0000000 + 4 * 4096\<rparr>;
             p = (if rng = 0 then
                    p\<lparr>page_dir := vmm_get_kernel_pd (pvm s),
                      ctx := (ctx p)\<lparr>x_esp := kernel_stack p, x_eip := ent, x_eflags := 0x202, x_cs := 0x08,
                               x_ds := 0x10, x_es := 0x10, x_ss := 0x10\<rparr>\<rparr>
                  else p)
         in Inr (i, set_slot i p s)))"

text \<open>The loop that maps the user stack.\<close>

fun map_user_stack :: "u32 \<Rightarrow> u32 \<Rightarrow> u32 \<Rightarrow> nat list \<Rightarrow> vm \<Rightarrow> vm result" where
  "map_user_stack pd ustack_virt ustack_phys [] v = Inr v"
| "map_user_stack pd ustack_virt ustack_phys (i # js) v =
     rbind (vmm_map_page v pd (ustack_virt - PROCESS_STACK_SIZE + of_nat i * 4096) (ustack_phys + of_nat i * 4096)
              (PAGE_PRESENT OR PAGE_WRITABLE OR PAGE_USER))
       (map_user_stack pd ustack_virt ustack_phys js)"

text \<open>The assignments \<^verbatim>\<open>*--ksp = v\<close>.\<close>

fun push_words :: "u32 list \<Rightarrow> u32 \<Rightarrow> mem \<Rightarrow> u32 \<times> mem" where
  "push_words [] ksp m = (ksp, m)"
| "push_words (v # vs) ksp m = push_words vs (ksp - 4) (store_u32 m (ksp - 4) v)"

text \<open>The interrupt frame that drops into the process, and eight cleared registers.\<close>

definition first_frame :: "u32 \<Rightarrow> u32 \<Rightarrow> u32 list" where
  "first_frame ustack_virt ent = [0x23, ustack_virt, 0x202, 0x1B, ent] @ replicate 8 0"

definition process_spawn_ring3 :: "u8 list \<Rightarrow> u32 \<Rightarrow> 'a procs_scheme \<Rightarrow> (nat \<times> 'a procs_scheme) result" where
  "process_spawn_ring3 name ent s =
     rbind (alloc_slot s) (\<lambda>i.
       let (n, s) = process_next_pid s;
           p = zero_process\<lparr>pid := n, ring := 3, priority := 8, pstate := PROC_READY, ticks_alloc := 8,
                 pname := strncpy_into (replicate 32 0) name 31\<rparr> in
       rbind (vmm_create_user_pd (pvm s)) (\<lambda>(pd, v).
       rbind (pmm_alloc_frames (frames v) 4) (\<lambda>(kstack_phys, fr).
         let v = v\<lparr>frames := fr\<rparr>;
             p = p\<lparr>page_dir := pd, kernel_stack := kstack_phys + 0xC0000000 + 4 * 4096\<rparr> in
       rbind (pmm_alloc_frames (frames v) (PROCESS_STACK_SIZE div 4096)) (\<lambda>(ustack_phys, fr).
         let v = v\<lparr>frames := fr\<rparr>; ustack_virt = 0xBFFFF000 in
       rbind (map_user_stack pd ustack_virt ustack_phys [0..<unat (PROCESS_STACK_SIZE div 4096)] v) (\<lambda>v.
         let (ksp, m) = push_words (first_frame ustack_virt ent) (kernel_stack p) (kmem v);
             p = p\<lparr>user_stack := ustack_virt, ctx := (ctx p)\<lparr>x_esp := ksp, x_eip := ent\<rparr>\<rparr>;
             s = s\<lparr>pvm := v\<lparr>kmem := m\<rparr>, pgdt := gdt_set_tss_stack (kernel_stack p) (pgdt s)\<rparr>
         in Inr (i, set_slot i p s))))))"

definition process_kill :: "u32 \<Rightarrow> 'a procs_scheme \<Rightarrow> 'a procs_scheme" where
  "process_kill n s =
     (case process_get_by_pid n s of
        None \<Rightarrow> s
      | Some i \<Rightarrow> set_slot i ((process_table s ! i)\<lparr>pstate := PROC_ZOMBIE\<rparr>) s)"

section \<open>The table after initialisation\<close>

text \<open>Everything the kernel can do to the table.\<close>

inductive procs_step :: "procs \<Rightarrow> procs \<Rightarrow> bool" where
  create: "process_create name ent rng prio s = Inr (i, s') \<Longrightarrow> procs_step s s'"
| spawn: "process_spawn_ring3 name ent s = Inr (i, s') \<Longrightarrow> procs_step s s'"
| kill: "procs_step s (process_kill n s)"
| set_current: "procs_step s (process_set_current p s)"
| memory: "procs_step s (s\<lparr>pvm := v, pgdt := g\<rparr>)"

inductive procs_reachable :: "procs \<Rightarrow> bool" where
  init: "procs_reachable (process_init s)"
| step: "procs_reachable s \<Longrightarrow> procs_step s s' \<Longrightarrow> procs_reachable s'"

definition no_dead :: "'a procs_scheme \<Rightarrow> bool" where
  "no_dead s \<longleftrightarrow> (\<forall>p \<in> set (process_table s). pstate p \<noteq> PROC_DEAD)"

lemma alloc_slot_no_dead: "no_dead s \<Longrightarrow> alloc_slot s = kernel_panic ''process_create: process table full''"
proof -
  assume "no_dead s"
  then have "first_slot (\<lambda>p. pstate p = PROC_DEAD) (process_table s) = None"
    unfolding first_slot_None no_dead_def by blast
  then show ?thesis by (simp add: alloc_slot_def)
qed

lemma create_no_dead:
  assumes "no_dead s"
  shows "process_create name ent rng prio s = kernel_panic ''process_create: process table full''"
    "process_spawn_ring3 name ent s = kernel_panic ''process_create: process table full''"
  using alloc_slot_no_dead[OF assms]
  by (simp_all add: process_create_def process_spawn_ring3_def kernel_panic_def)

lemma kill_no_dead: "no_dead s \<Longrightarrow> no_dead (process_kill n s)"
  by (auto simp: process_kill_def no_dead_def set_slot_def split: option.splits dest: set_update_subset_insert[THEN subsetD])

lemma step_no_dead: "procs_step s s' \<Longrightarrow> no_dead s \<Longrightarrow> no_dead s'"
proof (induction rule: procs_step.induct)
  case (kill s n)
  then show ?case by (rule kill_no_dead)
next
  case (set_current s p)
  then show ?case by (simp add: no_dead_def process_set_current_def)
qed (simp_all add: create_no_dead no_dead_def)

lemma reachable_no_dead: "procs_reachable s \<Longrightarrow> no_dead s"
proof (induction rule: procs_reachable.induct)
  case (init s)
  then show ?case by (simp add: no_dead_def process_init_def zero_process_def)
qed (rule step_no_dead)

section \<open>A user process\<close>

subsection \<open>The user stack\<close>

definition stack_page :: "nat \<Rightarrow> u32" where
  "stack_page i = 0xBFFEF000 + of_nat i * 4096"

lemma stack_page_unat: "i < 16 \<Longrightarrow> unat (stack_page i) = 3221155840 + 4096 * i"
proof -
  assume i: "i < 16"
  have "stack_page i = of_nat (3221155840 + i * 4096)" by (simp add: stack_page_def)
  with i show ?thesis by (simp add: unat_of_nat_eq_32 del: of_nat_add of_nat_mult)
qed

lemma page_stack_iff: "i < 16 \<Longrightarrow> page w = page (stack_page i) \<longleftrightarrow> unat w div 4096 = 786415 + i"
  by (simp add: page_eq_iff stack_page_unat)

text \<open>Mapping the stack changes the translation of its own pages only; the tables it adds lie on frames
  that were free.\<close>

lemma map_user_stack_ok:
  assumes "pd_ok v pd" "map_user_stack pd 0xBFFFF000 up js v = Inr v'" "distinct js" "\<forall>i \<in> set js. i < 16"
  shows "pd_ok v' pd \<and> kernel_pd v' = kernel_pd v \<and> free_set (frames v') \<subseteq> free_set (frames v)
    \<and> (\<forall>j < 1024. has_table v' pd j \<longrightarrow>
        has_table v pd j \<and> table v' pd j = table v pd j \<or> frame_of (table v' pd j) \<in> free_set (frames v))
    \<and> (\<forall>w. pte v' pd w = (if unat w div 4096 - 786415 \<in> set js \<and> 786415 \<le> unat w div 4096
         then page (up + of_nat (unat w div 4096 - 786415) * 4096) OR 7 else pte v pd w))"
  using assms
proof (induction js arbitrary: v)
  case (Cons i js)
  have e: "(0xBFFFF000 :: u32) - PROCESS_STACK_SIZE + of_nat i * 4096 = stack_page i"
    by (simp add: stack_page_def PROCESS_STACK_SIZE_def)
  from Cons.prems(2) obtain v1 where m: "vmm_map_page v pd (stack_page i) (up + of_nat i * 4096) 7 = Inr v1"
    and rest: "map_user_stack pd 0xBFFFF000 up js v1 = Inr v'"
    by (auto simp: rbind_Inr_iff e PAGE_PRESENT_def PAGE_WRITABLE_def PAGE_USER_def)
  note ok = map_page_ok[OF Cons.prems(1) m] and fr = map_page_frame[OF Cons.prems(1) m]
  have i: "i < 16" "i \<notin> set js" using Cons.prems by auto
  from Cons.IH[OF ok(1) rest] Cons.prems have IH: "pd_ok v' pd" "kernel_pd v' = kernel_pd v1"
    "free_set (frames v') \<subseteq> free_set (frames v1)"
    "\<And>j. j < 1024 \<Longrightarrow> has_table v' pd j \<Longrightarrow>
        has_table v1 pd j \<and> table v' pd j = table v1 pd j \<or> frame_of (table v' pd j) \<in> free_set (frames v1)"
    "\<And>w. pte v' pd w = (if unat w div 4096 - 786415 \<in> set js \<and> 786415 \<le> unat w div 4096
         then page (up + of_nat (unat w div 4096 - 786415) * 4096) OR 7 else pte v1 pd w)" by auto
  have "pte v' pd w = (if unat w div 4096 - 786415 \<in> set (i # js) \<and> 786415 \<le> unat w div 4096
         then page (up + of_nat (unat w div 4096 - 786415) * 4096) OR 7 else pte v pd w)" for w
    using IH(5)[of w] ok(2)[of w] i page_stack_iff[OF i(1), of w] by (auto simp: PAGE_PRESENT_def)
  moreover have "has_table v pd j \<and> table v' pd j = table v pd j \<or> frame_of (table v' pd j) \<in> free_set (frames v)"
    if "j < 1024" "has_table v' pd j" for j
    using IH(4)[OF that] fr(2) fr(3)[OF that(1)] by auto
  ultimately show ?case using IH(1,2,3) fr(1,2) by auto
qed simp

lemma map_user_stack_total:
  "pd_ok v pd \<Longrightarrow> length js \<le> card (free_set (frames v)) \<Longrightarrow> \<exists>v'. map_user_stack pd uv up js v = Inr v'"
proof (induction js arbitrary: v)
  case (Cons i js)
  let ?m = "vmm_map_page v pd (uv - PROCESS_STACK_SIZE + of_nat i * 4096) (up + of_nat i * 4096)
     (PAGE_PRESENT OR PAGE_WRITABLE OR PAGE_USER)"
  obtain v1 where v1: "?m = Inr v1" using map_page_Inl(1)[OF Cons.prems(1)] Cons.prems(2) by (cases ?m) auto
  from Cons.IH[OF map_page_ok(1)[OF Cons.prems(1) v1]] map_page_card[OF Cons.prems(1) v1] Cons.prems(2) v1
  show ?case by auto
qed simp

subsection \<open>The kernel stack\<close>

lemma push_words_ok:
  assumes "page b = b" "length vs \<le> n" "n \<le> 1024"
  shows "fst (push_words vs (b + 4 * of_nat n) m) = b + 4 * of_nat (n - length vs)
    \<and> (\<forall>q. page q \<noteq> b \<longrightarrow> snd (push_words vs (b + 4 * of_nat n) m) q = m q)
    \<and> (\<forall>k < 1024. n \<le> k \<longrightarrow> load_u32 (snd (push_words vs (b + 4 * of_nat n) m)) (b + 4 * of_nat k) = load_u32 m (b + 4 * of_nat k))
    \<and> (\<forall>i < length vs. load_u32 (snd (push_words vs (b + 4 * of_nat n) m)) (b + 4 * of_nat (n - 1 - i)) = vs ! i)"
  using assms
proof (induction vs arbitrary: n m)
  case (Cons v vs)
  obtain n1 where n1: "n = Suc n1" using Cons.prems by (cases n) auto
  have sp: "b + 4 * of_nat n - 4 = entry b (of_nat n1)" "b + 4 * of_nat n1 = entry b (of_nat n1)"
    by (simp_all add: n1 entry_def algebra_simps)
  have idx: "k < 1024 \<Longrightarrow> of_nat k < (1024 :: u32)" for k by (simp add: word_less_nat_alt unat_of_nat_eq_32)
  have al: "aligned4 (entry b (of_nat n1))" "page (entry b (of_nat n1)) = b"
    using idx[of n1] Cons.prems by (simp_all add: entry_aligned page_entry n1)
  let ?m = "store_u32 m (entry b (of_nat n1)) v"
  have IH: "fst (push_words vs (b + 4 * of_nat n1) ?m) = b + 4 * of_nat (n1 - length vs)"
    "\<And>q. page q \<noteq> b \<Longrightarrow> snd (push_words vs (b + 4 * of_nat n1) ?m) q = ?m q"
    "\<And>k. k < 1024 \<Longrightarrow> n1 \<le> k \<Longrightarrow> load_u32 (snd (push_words vs (b + 4 * of_nat n1) ?m)) (b + 4 * of_nat k) = load_u32 ?m (b + 4 * of_nat k)"
    "\<And>i. i < length vs \<Longrightarrow> load_u32 (snd (push_words vs (b + 4 * of_nat n1) ?m)) (b + 4 * of_nat (n1 - 1 - i)) = vs ! i"
    using Cons.IH[of n1 ?m] Cons.prems n1 by auto
  have e: "push_words (v # vs) (b + 4 * of_nat n) m = push_words vs (b + 4 * of_nat n1) ?m"
    by (simp only: push_words.simps sp)
  have "load_u32 ?m (b + 4 * of_nat k) = load_u32 m (b + 4 * of_nat k)" if "k < 1024" "n \<le> k" for k
  proof -
    have "(of_nat k :: u32) \<noteq> of_nat n1"
    proof
      assume "(of_nat k :: u32) = of_nat n1"
      then have "unat (of_nat k :: u32) = unat (of_nat n1 :: u32)" by simp
      with that n1 show False by (simp add: unat_of_nat_eq_32)
    qed
    with that n1 Cons.prems(1,3) idx[of k] idx[of n1] have "entry b (of_nat k) \<noteq> entry b (of_nat n1)"
      by (simp add: entry_eq_iff)
    with al(1) entry_aligned[OF Cons.prems(1) idx[OF that(1)]] show ?thesis
      using load_u32_store_other[of "entry b (of_nat n1)" "entry b (of_nat k)" m v] by (simp add: entry_def)
  qed
  moreover have "load_u32 (snd (push_words vs (b + 4 * of_nat n1) ?m)) (b + 4 * of_nat (n - 1 - i)) = (v # vs) ! i"
    if "i < length (v # vs)" for i
  proof (cases i)
    case 0
    then show ?thesis using IH(3)[of n1] Cons.prems n1 by (simp add: sp(2) load_u32_store_same)
  next
    case (Suc j)
    then show ?thesis using IH(4)[of j] that n1 by simp
  qed
  ultimately show ?case
    unfolding e using IH al store_u32_page[of "entry b (of_nat n1)"] n1 by simp
qed simp

text \<open>Memory outside the directory and its tables does not matter for the translation.\<close>

lemma pte_other_memory:
  assumes ok: "pd_ok v pd" and b: "page b = b" "b \<noteq> pd" "\<forall>i < 1024. has_table v pd i \<longrightarrow> table v pd i \<noteq> b"
    and m: "\<And>q. page q \<noteq> b \<Longrightarrow> m q = kmem v q"
  shows "pte (v\<lparr>kmem := m\<rparr>) pd w = pte v pd w"
proof -
  have ld: "load_u32 m (entry t i) = load_u32 (kmem v) (entry t i)" if "page t = t" "t \<noteq> b" "i < 1024" for t i
  proof (rule load_u32_cong)
    fix k :: nat assume "k < 4"
    with that have "page (entry t i + of_nat k) = t" by (simp add: page_add_aligned entry_aligned page_entry)
    with that show "m (entry t i + of_nat k) = kmem v (entry t i + of_nat k)" using m by simp
  qed
  have pd: "page pd = pd" using ok by (simp add: pd_ok_def)
  have d: "pde (v\<lparr>kmem := m\<rparr>) pd i = pde v pd i" if "i < 1024" for i
    using ld[OF pd _ that] b(2) by (simp add: pde_def)
  have "has_table (v\<lparr>kmem := m\<rparr>) pd (PD_INDEX w) = has_table v pd (PD_INDEX w)"
    "table (v\<lparr>kmem := m\<rparr>) pd (PD_INDEX w) = table v pd (PD_INDEX w)"
    using d[of "PD_INDEX w"] by (simp_all add: has_table_def table_def)
  then show ?thesis using ld[of "table v pd (PD_INDEX w)" "PT_INDEX w"] b(3) by (simp add: pte_def)
qed

subsection \<open>The address space of a new process\<close>

lemma first_frame_length: "length (first_frame v ent) = 13"
  by (simp add: first_frame_def)

text \<open>What \<^verbatim>\<open>process_spawn_ring3\<close> does, step by step.\<close>

lemma spawn_steps:
  assumes "process_spawn_ring3 name ent s = Inr (i, s')"
  obtains v1 pd kp fr2 up fr3 v4 where "alloc_slot s = Inr i" "vmm_create_user_pd (pvm s) = Inr (pd, v1)"
    "pmm_alloc_frames (frames v1) 4 = Inr (kp, fr2)" "pmm_alloc_frames fr2 16 = Inr (up, fr3)"
    "map_user_stack pd 0xBFFFF000 up [0..<16] (v1\<lparr>frames := fr3\<rparr>) = Inr v4"
    "pvm s' = v4\<lparr>kmem := snd (push_words (first_frame 0xBFFFF000 ent) (kp + 0xC0000000 + 16384) (kmem v4))\<rparr>"
    "process_table s' = (process_table s)[i := zero_process\<lparr>pid := pid_counter s, ring := 3, priority := 8, ticks_alloc := 8,
       pname := strncpy_into (replicate 32 0) name 31, page_dir := pd, kernel_stack := kp + 0xC0000000 + 16384,
       user_stack := 0xBFFFF000,
       ctx := zero_context\<lparr>x_esp := fst (push_words (first_frame 0xBFFFF000 ent) (kp + 0xC0000000 + 16384) (kmem v4)),
                x_eip := ent\<rparr>\<rparr>]"
    "esp0 (kernel_tss (pgdt s')) = kp + 0xC0000000 + 16384"
proof -
  note d = process_spawn_ring3_def process_next_pid_def Let_def PROCESS_STACK_SIZE_def split_beta
  from assms obtain r1 r2 r3 v4 where r: "alloc_slot s = Inr i" "vmm_create_user_pd (pvm s) = Inr r1"
    "pmm_alloc_frames (frames (snd r1)) 4 = Inr r2" "pmm_alloc_frames (snd r2) 16 = Inr r3"
    "map_user_stack (fst r1) 0xBFFFF000 (fst r3) [0..<16] ((snd r1)\<lparr>frames := snd r3\<rparr>) = Inr v4"
    by (auto simp: d rbind_Inr_iff)
  with assms show thesis
    by (intro that[of "fst r1" "snd r1" "fst r2" "snd r2" "fst r3" "snd r3" v4])
      (auto simp: d set_slot_def gdt_set_tss_stack_def zero_process_def)
qed

lemma stack_offset:
  assumes "0xBFFEF000 \<le> w" "w < 0xBFFFF000"
  shows "786415 \<le> unat w div 4096" "unat w div 4096 - 786415 < 16"
    "of_nat (unat w div 4096 - 786415) * 4096 + (w AND 0xFFF) = w - (0xBFFEF000 :: u32)"
proof -
  have w: "3221155840 \<le> unat w" "unat w < 3221221376" using assms by (simp_all add: word_le_nat_alt word_less_nat_alt)
  then show k: "786415 \<le> unat w div 4096" "unat w div 4096 - 786415 < 16" by linarith+
  let ?k = "unat w div 4096 - 786415"
  have m: "unat (w AND 0xFFF) = unat w mod 4096" using unat_and_mask[of w 12] by (simp add: mask_12)
  have "w - 0xBFFEF000 = of_nat (unat w - 3221155840)" using w(1) by (simp add: of_nat_diff)
  also have "unat w - 3221155840 = ?k * 4096 + unat (w AND 0xFFF)"
    unfolding m using k div_mult_mod_eq[of "unat w" 4096] by (simp add: diff_mult_distrib)
  finally show "of_nat ?k * 4096 + (w AND 0xFFF) = w - 0xBFFEF000" by simp
qed

lemma page_or_offset: "page x = x \<Longrightarrow> x OR (w AND 0xFFF) = x + (w AND 0xFFF)"
proof -
  assume x: "page x = x"
  have "\<not> bit x n \<or> \<not> bit (w AND 0xFFF) n" for n
    using x by (metis page_def bit_and_iff bit_not_iff)
  then show ?thesis by (simp add: disjunctive_add)
qed

lemma page_frame_address: "page (of_nat g * FRAME_SIZE + of_nat k * 4096) = of_nat g * FRAME_SIZE + of_nat k * 4096"
proof -
  have "page (of_nat j * 4096) = of_nat j * 4096" for j
  proof -
    have "of_nat j * 4096 = (of_nat (4096 * j) :: u32)" by simp
    then have "unat (of_nat j * 4096 :: u32) = 4096 * j mod 4294967296" by (simp only: unat_of_nat) simp
    also have "\<dots> = 4096 * (j mod 1048576)" using mult_mod_right[of 4096 j 1048576] by simp
    finally have "unat (of_nat j * 4096 :: u32) = 4096 * (j mod 1048576)" .
    then show ?thesis by (simp add: word_unat_eq_iff unat_page)
  qed
  then show ?thesis by (intro page_add) (simp_all add: FRAME_SIZE_def)
qed

text \<open>The directory of a new process: sixteen pages of stack from the frame \<^term>\<open>up\<close> on, the kernel half of the
  memory \<^term>\<open>v0\<close>, and nothing else.\<close>

definition spawned_space :: "vm \<Rightarrow> vm \<Rightarrow> u32 \<Rightarrow> u32 \<Rightarrow> bool" where
  "spawned_space v0 v pd up \<longleftrightarrow> (\<forall>k. page (up + of_nat k * 4096) = up + of_nat k * 4096)
   \<and> (\<forall>w. pte v pd w = (if unat w div 4096 - 786415 < 16 \<and> 786415 \<le> unat w div 4096
         then (up + of_nat (unat w div 4096 - 786415) * 4096) OR 7
         else if 0xC0000000 \<le> w then pte v0 (kernel_pd v0) w else 0))"

lemma spawned_stack:
  assumes "spawned_space v0 v pd up" "0xBFFEF000 \<le> w" "w < 0xBFFFF000"
  shows "pte v pd w AND 7 = 7" "vmm_virt_to_phys v pd w = up + (w - 0xBFFEF000)"
proof -
  note o = stack_offset[OF assms(2,3)]
  let ?a = "up + of_nat (unat w div 4096 - 786415) * 4096"
  have al: "page ?a = ?a" using assms(1) unfolding spawned_space_def by blast
  have e: "pte v pd w = ?a OR 7" using assms(1) o(1,2) by (simp add: spawned_space_def)
  from e show "pte v pd w AND 7 = 7" by (simp add: bit.conj_disj_distrib2)
  have "pte v pd w AND 1 \<noteq> 0" unfolding e by (simp add: bit.conj_disj_distrib2)
  moreover have "page (pte v pd w) = ?a" unfolding e using al by (intro page_or) (simp_all add: page_def)
  ultimately show "vmm_virt_to_phys v pd w = up + (w - 0xBFFEF000)"
    using page_or_offset[OF al, of w] o(3) by (simp add: virt_to_phys_pte add.assoc)
qed

lemma spawned_elsewhere:
  assumes "spawned_space v0 v pd up" "\<not> (0xBFFEF000 \<le> w \<and> w < 0xBFFFF000)"
  shows "vmm_virt_to_phys v pd w = (if 0xC0000000 \<le> w then vmm_virt_to_phys v0 (kernel_pd v0) w else 0)"
proof -
  have "unat w < 3221155840 \<or> 3221221376 \<le> unat w" using assms(2) by (auto simp: word_le_nat_alt word_less_nat_alt)
  then have "\<not> (unat w div 4096 - 786415 < 16 \<and> 786415 \<le> unat w div 4096)" by linarith
  moreover have "pte v pd w = (if unat w div 4096 - 786415 < 16 \<and> 786415 \<le> unat w div 4096
         then (up + of_nat (unat w div 4096 - 786415) * 4096) OR 7
         else if 0xC0000000 \<le> w then pte v0 (kernel_pd v0) w else 0)" using assms(1) by (simp add: spawned_space_def)
  ultimately have "pte v pd w = (if 0xC0000000 \<le> w then pte v0 (kernel_pd v0) w else 0)" by metis
  then show ?thesis by (simp add: virt_to_phys_pte)
qed

text \<open>The last page of the kernel stack, which the first interrupt frame is pushed onto.\<close>

lemma kernel_stack_page:
  assumes "g + 4 \<le> 1048576" and b: "b = of_nat g * FRAME_SIZE + 0xC0000000 + 12288"
  shows "page b = b" "frame_of b \<in> of_nat ` {g..<g + 4}"
proof -
  show "page b = b"
    unfolding b using page_add[of "of_nat g * FRAME_SIZE + of_nat 3 * 4096" "0xC0000000"] page_frame_address[of g 3]
    by (simp add: page_def algebra_simps)
  have lt: "(of_nat (g + 3) :: u32) < FRAMES_TOTAL"
    using assms(1) by (simp add: word_less_nat_alt unat_of_nat_eq_32 del: of_nat_add)
  have "b = of_nat (g + 3) * FRAME_SIZE + 0xC0000000" by (simp add: b FRAME_SIZE_def algebra_simps)
  then have "frame_of b = of_nat (g + 3)"
    using frame_of_window[of "of_nat (g + 3) * FRAME_SIZE"] frame_of_address[OF lt] by (simp add: FRAME_SIZE_def)
  then show "frame_of b \<in> of_nat ` {g..<g + 4}" by (intro image_eqI[of _ _ "g + 3"]) simp_all
qed

text \<open>Pushing the frame leaves every translation of the new directory as it was, since the stack page was free
  when the tables of the directory were not.\<close>

lemma push_keeps_pte:
  assumes wf: "pd_ok v1 pd" and ms: "pd_ok v4 pd" and b: "page b = b" "frame_of b \<in> free_set (frames v1)" "frame_of b \<notin> F"
    and tab: "\<And>j. j < 1024 \<Longrightarrow> has_table v4 pd j \<Longrightarrow>
        has_table v1 pd j \<and> table v4 pd j = table v1 pd j \<or> frame_of (table v4 pd j) \<in> F"
    and l: "length ws \<le> 1024"
  shows "pte (v4\<lparr>kmem := snd (push_words ws (b + 4 * of_nat 1024) (kmem v4))\<rparr>) pd w = pte v4 pd w"
proof -
  have "b \<noteq> pd" using wf b(2) by (auto simp: pd_ok_def)
  moreover have "table v4 pd j \<noteq> b" if "j < 1024" "has_table v4 pd j" for j
    using tab[OF that] b wf that(1) by (auto simp: pd_ok_def)
  ultimately show ?thesis
    using push_words_ok[OF b(1) l order_refl, of "kmem v4"] by (intro pte_other_memory[OF ms b(1)]) auto
qed

lemma pushed_frame:
  assumes b: "page b = b"
  shows "map (\<lambda>k. load_u32 (snd (push_words (first_frame u ent) (b + 4 * of_nat 1024) m))
           (fst (push_words (first_frame u ent) (b + 4 * of_nat 1024) m) + 4 * of_nat k)) [0..<13]
         = replicate 8 0 @ [ent, 0x1B, 0x202, u, 0x23]" (is "map ?f _ = _")
    "fst (push_words (first_frame u ent) (b + 4 * of_nat 1024) m) + 52 = b + 4 * of_nat 1024"
proof -
  have c: "length (first_frame u ent) \<le> 1024" by (simp add: first_frame_length)
  note push = push_words_ok[OF b c order_refl, of m, unfolded first_frame_length]
  show "fst (push_words (first_frame u ent) (b + 4 * of_nat 1024) m) + 52 = b + 4 * of_nat 1024" using push by simp
  have "map ?f [0..<13] = rev (first_frame u ent)"
  proof (rule nth_equalityI)
    fix k assume "k < length (map ?f [0..<13])"
    then have k: "k < 13" by simp
    have e: "fst (push_words (first_frame u ent) (b + 4 * of_nat 1024) m) + 4 * of_nat k = b + 4 * of_nat (1024 - 1 - (12 - k))"
      using push k by (simp add: of_nat_diff algebra_simps)
    have "12 - k < 13" by simp
    with push have "?f k = first_frame u ent ! (12 - k)" unfolding e by blast
    then show "map ?f [0..<13] ! k = rev (first_frame u ent) ! k" using k by (simp add: rev_nth first_frame_length)
  qed (simp add: first_frame_length)
  then show "map ?f [0..<13] = replicate 8 0 @ [ent, 0x1B, 0x202, u, 0x23]" by (simp add: first_frame_def)
qed

lemma spawn_address_space:
  assumes ok: "pd_ok (pvm s) (kernel_pd (pvm s))" and sp: "process_spawn_ring3 name ent s = Inr (i, s')"
  obtains up where "spawned_space (pvm s) (pvm s') (page_dir (process_table s' ! i)) up"
    "map (\<lambda>k. load_u32 (kmem (pvm s')) (x_esp (ctx (process_table s' ! i)) + 4 * of_nat k)) [0..<13]
      = replicate 8 0 @ [ent, 0x1B, 0x202, 0xBFFFF000, 0x23]"
    "x_esp (ctx (process_table s' ! i)) + 52 = kernel_stack (process_table s' ! i)"
    "esp0 (kernel_tss (pgdt s')) = kernel_stack (process_table s' ! i)"
    "\<forall>j. j \<noteq> i \<longrightarrow> process_table s' ! j = process_table s ! j"
proof -
  obtain v1 pd kp fr2 up fr3 v4 where st: "alloc_slot s = Inr i" "vmm_create_user_pd (pvm s) = Inr (pd, v1)"
    "pmm_alloc_frames (frames v1) 4 = Inr (kp, fr2)" "pmm_alloc_frames fr2 16 = Inr (up, fr3)"
    "map_user_stack pd 0xBFFFF000 up [0..<16] (v1\<lparr>frames := fr3\<rparr>) = Inr v4"
    "pvm s' = v4\<lparr>kmem := snd (push_words (first_frame 0xBFFFF000 ent) (kp + 0xC0000000 + 16384) (kmem v4))\<rparr>"
    "process_table s' = (process_table s)[i := zero_process\<lparr>pid := pid_counter s, ring := 3, priority := 8, ticks_alloc := 8,
       pname := strncpy_into (replicate 32 0) name 31, page_dir := pd, kernel_stack := kp + 0xC0000000 + 16384,
       user_stack := 0xBFFFF000,
       ctx := zero_context\<lparr>x_esp := fst (push_words (first_frame 0xBFFFF000 ent) (kp + 0xC0000000 + 16384) (kmem v4)),
                x_eip := ent\<rparr>\<rparr>]"
    "esp0 (kernel_tss (pgdt s')) = kp + 0xC0000000 + 16384"
    by (rule spawn_steps[OF sp])
  have slot: "i < length (process_table s)"
    using st(1) first_slot_Some by (auto simp: alloc_slot_def split: option.splits)
  note wf = create_user_pd_wf(1)[OF ok st(2)]
  have inv1: "pmm_inv (frames v1)" using wf by (simp add: pd_ok_def)
  have u: "unat (4 :: u32) = 4" "unat (16 :: u32) = 16" "(4 :: u32) \<noteq> 0" "(16 :: u32) \<noteq> 0" by simp_all
  obtain g where g: "kp = of_nat g * FRAME_SIZE" "free_run (frames v1) 4 g" "\<forall>h < g. \<not> free_run (frames v1) 4 h"
    "g + 4 \<le> 1048576" "pmm_inv fr2" "of_nat ` {g..<g + 4} \<subseteq> free_set (frames v1)"
    "free_set fr2 = free_set (frames v1) - of_nat ` {g..<g + 4}"
    by (rule alloc_frames_Inr[OF inv1 u(3) st(3), unfolded u(1)])
  obtain h where h: "up = of_nat h * FRAME_SIZE" "free_run fr2 16 h" "\<forall>k < h. \<not> free_run fr2 16 k"
    "h + 16 \<le> 1048576" "pmm_inv fr3" "of_nat ` {h..<h + 16} \<subseteq> free_set fr2"
    "free_set fr3 = free_set fr2 - of_nat ` {h..<h + 16}"
    by (rule alloc_frames_Inr[OF g(5) u(4) st(4), unfolded u(2)])
  define b where "b = of_nat g * FRAME_SIZE + 0xC0000000 + 12288"
  have ksp: "kp + 0xC0000000 + 16384 = b + 4 * of_nat 1024" by (simp add: b_def g(1))
  note sb = kernel_stack_page[OF g(4) b_def] and fr = pushed_frame[OF kernel_stack_page(1)[OF g(4) b_def]]
  have ok3: "pd_ok (v1\<lparr>frames := fr3\<rparr>) pd" using wf h(5,7) g(7) by (intro pd_ok_fewer_frames) auto
  have ms: "pd_ok v4 pd" "\<And>j. j < 1024 \<Longrightarrow> has_table v4 pd j \<Longrightarrow>
        has_table v1 pd j \<and> table v4 pd j = table v1 pd j \<or> frame_of (table v4 pd j) \<in> free_set fr3"
    "\<And>w. pte v4 pd w = (if unat w div 4096 - 786415 < 16 \<and> 786415 \<le> unat w div 4096
         then page (up + of_nat (unat w div 4096 - 786415) * 4096) OR 7 else pte v1 pd w)"
    using map_user_stack_ok[OF ok3 st(5)] by (auto simp: pte_def)
  have "pte (pvm s') pd w = pte v4 pd w" for w
    unfolding st(6) ksp by (rule push_keeps_pte[OF wf ms(1) sb(1), of "free_set fr3"])
      (use sb(2) g(6,7) h(7) ms(2) in \<open>auto simp: first_frame_length\<close>)
  then have "spawned_space (pvm s) (pvm s') pd up"
    unfolding spawned_space_def by (simp only: ms(3) page_frame_address[of h, folded h(1)] create_user_pd_pte[OF ok st(2)]) simp
  with fr slot st(6-8) show thesis
    unfolding ksp by (intro that[of up]) simp_all
qed

section \<open>Properties\<close>


definition wide_pmm :: pmm where
  "wide_pmm = \<lparr>bitmap = (\<lambda>_. 0), total_frames = 0x100000, free_frames = 0x100000, last_alloc = 0x100\<rparr>"

text \<open>A machine with all frames free but the one of its empty kernel directory, and one free slot.\<close>

definition sample_procs :: procs where
  "sample_procs = \<lparr>process_table = [zero_process, zero_process\<lparr>pstate := PROC_DEAD\<rparr>], pid_counter = 7, current_proc = None,
     pvm = \<lparr>kmem = (\<lambda>_. 0), frames = taken wide_pmm 0x50000, kernel_pd = 0x10000000, cr3 = 0x50000000, flushed = []\<rparr>,
     pgdt = \<lparr>gdt = [], gdt_ptr = \<lparr>gp_limit = 0, gp_base = 0\<rparr>, kernel_tss = zero_tss, reg_gdtr = \<lparr>gp_limit = 0, gp_base = 0\<rparr>,
       reg_cs = 8, reg_ds = 16, reg_tr = 40\<rparr>\<rparr>"

lemma wide_free: "free_set wide_pmm = {f. f < FRAMES_TOTAL}"
  by (simp add: free_set_def frame_test_def wide_pmm_def)

lemma wide_inv: "pmm_inv wide_pmm"
proof -
  have "{f :: u32. f < FRAMES_TOTAL} = of_nat ` {..<1048576}"
    using run_words[of 0 FRAMES_TOTAL] by (simp add: lessThan_atLeast0)
  moreover have "inj_on (of_nat :: nat \<Rightarrow> u32) {..<1048576}"
  proof (rule inj_onI)
    fix x y :: nat assume xy: "x \<in> {..<1048576}" "y \<in> {..<1048576}" "(of_nat x :: u32) = of_nat y"
    have "x = unat (of_nat x :: u32)" using xy(1) by (simp add: unat_of_nat_eq_32)
    also have "\<dots> = y" unfolding xy(3) using xy(2) by (simp add: unat_of_nat_eq_32)
    finally show "x = y" .
  qed
  ultimately have "card (free_set wide_pmm) = 1048576" by (simp add: wide_free card_image)
  then show ?thesis by (simp add: pmm_inv_def) (simp add: wide_pmm_def FRAMES_TOTAL_def)
qed

lemma sample_procs_wf: "pd_ok (pvm sample_procs) (kernel_pd (pvm sample_procs))"
proof -
  have "pmm_inv (taken wide_pmm 0x50000)"
    using wide_inv by (intro pmm_inv_taken) (simp_all add: wide_free FRAMES_TOTAL_def)
  moreover have "\<not> has_table (pvm sample_procs) pd i" for pd i
    by (simp add: has_table_def pde_def sample_procs_def load_zero)
  ultimately show ?thesis by (simp add: pd_ok_def) (simp add: sample_procs_def page_def frame_of_def)
qed

lemma sample_frames:
  "(case pmm_alloc_frame (taken wide_pmm 0x50000) of Inl _ \<Rightarrow> None | Inr (a, fr1) \<Rightarrow>
     (case pmm_alloc_frames fr1 4 of Inl _ \<Rightarrow> None | Inr (k, fr2) \<Rightarrow>
       (case pmm_alloc_frames fr2 16 of Inl _ \<Rightarrow> None | Inr (u, fr3) \<Rightarrow> Some (a, k, u, free_frames fr3)))) =
   Some (0x50001000, 0, 0x4000, 1048554)"
  by code_simp

lemma sample_spawn: "\<exists>i s'. process_spawn_ring3 (bytes_of ''init'') 0x400000 sample_procs = Inr (i, s')"
proof -
  let ?v = "pvm sample_procs"
  have f: "frames ?v = taken wide_pmm 0x50000" by (simp add: sample_procs_def)
  have inv: "pmm_inv (frames ?v)" using sample_procs_wf by (simp add: pd_ok_def)
  obtain fr1 fr2 fr3 where fr: "pmm_alloc_frame (frames ?v) = Inr (0x50001000, fr1)" "pmm_alloc_frames fr1 4 = Inr (0, fr2)"
    "pmm_alloc_frames fr2 16 = Inr (0x4000, fr3)" "free_frames fr3 = 1048554"
    using sample_frames unfolding f by (auto split: sum.splits)
  obtain pd v1 where v1: "vmm_create_user_pd ?v = Inr (pd, v1)" "frames v1 = fr1"
    using fr(1) by (simp add: vmm_create_user_pd_def Let_def)
  note wf = create_user_pd_wf(1)[OF sample_procs_wf v1(1)]
  have inv1: "pmm_inv fr1" using wf v1(2) by (simp add: pd_ok_def)
  have u: "(4 :: u32) \<noteq> 0" "(16 :: u32) \<noteq> 0" by simp_all
  have inv2: "pmm_inv fr2" "free_set fr2 \<subseteq> free_set fr1" by (rule alloc_frames_Inr[OF inv1 u(1) fr(2)]; blast)+
  have inv3: "pmm_inv fr3" "free_set fr3 \<subseteq> free_set fr2" by (rule alloc_frames_Inr[OF inv2(1) u(2) fr(3)]; blast)+
  have ok3: "pd_ok (v1\<lparr>frames := fr3\<rparr>) pd" using wf inv2 inv3 v1(2) by (intro pd_ok_fewer_frames) auto
  have "card (free_set fr3) = 1048554" using inv3(1) fr(4) by (simp add: pmm_inv_def)
  then obtain v4 where "map_user_stack pd 0xBFFFF000 0x4000 [0..<16] (v1\<lparr>frames := fr3\<rparr>) = Inr v4"
    using map_user_stack_total[OF ok3, of "[0..<16]" "0xBFFFF000" "0x4000"] by auto
  moreover have "alloc_slot sample_procs = Inr 1" by (simp add: alloc_slot_def sample_procs_def zero_process_def)
  ultimately show ?thesis
    using v1 fr by (auto simp: process_spawn_ring3_def process_next_pid_def Let_def PROCESS_STACK_SIZE_def split_beta)
qed


text \<open>C19: After \<^verbatim>\<open>process_init\<close> no process can ever be created. Clearing the table marks all 64 slots as
  \<^verbatim>\<open>PROC_READY\<close>, whose code is zero, while a slot is free only when its state is \<^verbatim>\<open>PROC_DEAD\<close>; no operation
  assigns that state, \<^verbatim>\<open>process_kill\<close> included. So in every state that the operations can reach, both
  ways of creating a process panic with a full table.\<close>

theorem process_table_always_full:
  assumes "procs_reachable s"
  shows "process_create name ent rng prio s = Inl (KernelPanic ''process_create: process table full'')
    \<and> process_spawn_ring3 name ent s = Inl (KernelPanic ''process_create: process table full'')"
  using create_no_dead[OF reachable_no_dead[OF assms]] by (simp add: kernel_panic_def)

theorem process_table_always_full_witness:
  "process_spawn_ring3 (bytes_of ''init'') 0x400000 (process_kill 0 (process_init sample_procs)) =
     Inl (KernelPanic ''process_create: process table full'')"
  using process_table_always_full[OF procs_reachable.step[OF procs_reachable.init procs_step.kill]] by blast

end
