(* ===== verification/Scheduler.thy ===== *)
theory Scheduler
  imports Process
begin

text \<open>
  The scheduler of \<^verbatim>\<open>kernel/scheduler.c\<close>: sixteen circular lists of processes, one for each priority,
  linked through the process table, and the tick that gives the processor to the next process. The
  assembly routine \<^verbatim>\<open>context_switch\<close> is not part of the sources; a call of it is recorded with its two
  arguments. The rings are shown to implement lists, so that adding is appending and picking is
  rotating; the value \<^term>\<open>None\<close> of an operation means that it does not return.
\<close>

section \<open>State and operations\<close>

definition NUM_PRIO :: nat where "NUM_PRIO = 16"

record sched = procs +
  run_queues :: "nat option list"
  current_process :: "nat option"
  scheduler_active :: bool
  switched :: "(nat \<times> nat) list"

definition prio_of :: "nat \<Rightarrow> sched \<Rightarrow> nat" where
  "prio_of p s = unat (priority (process_table s ! p) AND 0x0F)"

definition set_next :: "nat \<Rightarrow> nat option \<Rightarrow> sched \<Rightarrow> sched" where
  "set_next p q s = set_slot p ((process_table s ! p)\<lparr>pnext := q\<rparr>) s"

definition set_state :: "nat \<Rightarrow> ProcessState \<Rightarrow> sched \<Rightarrow> sched" where
  "set_state p st s = set_slot p ((process_table s ! p)\<lparr>pstate := st\<rparr>) s"

definition set_head :: "nat \<Rightarrow> nat option \<Rightarrow> sched \<Rightarrow> sched" where
  "set_head prio q s = s\<lparr>run_queues := (run_queues s)[prio := q]\<rparr>"

text \<open>The search for the last element of a ring.\<close>

partial_function (option) find_tail :: "Process list \<Rightarrow> nat \<Rightarrow> nat \<Rightarrow> nat result option" where
  [code]: "find_tail tab h0 t =
     (case pnext (tab ! t) of
        None \<Rightarrow> Some (Inl NullDeref)
      | Some n \<Rightarrow> if n = h0 then Some (Inr t) else find_tail tab h0 n)"

definition scheduler_add :: "nat \<Rightarrow> sched \<Rightarrow> sched result option" where
  "scheduler_add p s =
     (let prio = prio_of p s in
      case run_queues s ! prio of
        None \<Rightarrow> Some (Inr (set_state p PROC_READY (set_next p (Some p) (set_head prio (Some p) s))))
      | Some h \<Rightarrow>
          (case find_tail (process_table s) h h of
             None \<Rightarrow> None
           | Some (Inl e) \<Rightarrow> Some (Inl e)
           | Some (Inr t) \<Rightarrow> Some (Inr (set_state p PROC_READY (set_next p (Some h) (set_next t (Some p) s))))))"

text \<open>The search of \<^verbatim>\<open>scheduler_remove\<close>: the element before \<open>p\<close>, if any, or nothing when \<open>p\<close> is not in the
  ring. A null link is dereferenced in the next round.\<close>

datatype found = Absent | Found "nat option"

partial_function (option) find_before :: "Process list \<Rightarrow> nat \<Rightarrow> nat \<Rightarrow> nat \<Rightarrow> nat option \<Rightarrow> found result option" where
  [code]: "find_before tab h0 p cur prev =
     (if cur = p then Some (Inr (Found prev))
      else (case pnext (tab ! cur) of
              None \<Rightarrow> Some (Inl NullDeref)
            | Some n \<Rightarrow> if n = h0 then Some (Inr Absent) else find_before tab h0 p n (Some cur)))"

definition scheduler_remove :: "nat \<Rightarrow> sched \<Rightarrow> sched result option" where
  "scheduler_remove p s =
     (let prio = prio_of p s in
      case run_queues s ! prio of
        None \<Rightarrow> Some (Inr s)
      | Some h \<Rightarrow>
          (case find_before (process_table s) h p h None of
             None \<Rightarrow> None
           | Some (Inl e) \<Rightarrow> Some (Inl e)
           | Some (Inr Absent) \<Rightarrow> Some (Inr s)
           | Some (Inr (Found prev)) \<Rightarrow>
               let next = pnext (process_table s ! p);
                   s = (if next = Some p then set_head prio None s
                        else
                          let s = (case prev of None \<Rightarrow> s | Some q \<Rightarrow> set_next q next s)
                          in if run_queues s ! prio = Some p then set_head prio next s else s)
               in Some (Inr (set_next p None s))))"

text \<open>One process is looked at in each level, from the highest down; the argument counts the levels still
  to visit.\<close>

fun pick_from :: "nat \<Rightarrow> sched \<Rightarrow> nat option \<times> sched" where
  "pick_from 0 s = (None, s)"
| "pick_from (Suc prio) s =
     (case run_queues s ! prio of
        None \<Rightarrow> pick_from prio s
      | Some p \<Rightarrow>
          let s = set_head prio (pnext (process_table s ! p)) s in
          if pstate (process_table s ! p) = PROC_READY then (Some p, s) else pick_from prio s)"

definition pick_next :: "sched \<Rightarrow> nat option \<times> sched" where
  "pick_next s = pick_from NUM_PRIO s"

definition context_switch :: "nat \<Rightarrow> nat \<Rightarrow> sched \<Rightarrow> sched" where
  "context_switch from to s = s\<lparr>switched := switched s @ [(from, to)]\<rparr>"

text \<open>The switch from the process \<open>prev\<close> to \<open>next\<close>.\<close>

definition switch_to :: "nat \<Rightarrow> nat \<Rightarrow> sched \<Rightarrow> sched" where
  "switch_to prev next s =
     (let s = s\<lparr>current_process := Some next\<rparr>;
          s = set_state next PROC_RUNNING s;
          s = (if pstate (process_table s ! prev) = PROC_RUNNING then set_state prev PROC_READY s else s);
          s = (if ring (process_table s ! next) = 3
               then s\<lparr>pgdt := gdt_set_tss_stack (kernel_stack (process_table s ! next)) (pgdt s)\<rparr> else s);
          s = (if page_dir (process_table s ! prev) \<noteq> page_dir (process_table s ! next)
               then s\<lparr>pvm := vmm_switch_pd (pvm s) (page_dir (process_table s ! next))\<rparr> else s)
      in context_switch prev next s)"

definition scheduler_tick :: "sched \<Rightarrow> sched result" where
  "scheduler_tick s =
     (case current_process s of
        None \<Rightarrow> Inr s
      | Some cur \<Rightarrow>
          if \<not> scheduler_active s then Inr s
          else
            let run = ticks_run (process_table s ! cur) + 1;
                s = set_slot cur ((process_table s ! cur)\<lparr>ticks_run := run\<rparr>) s;
                slice = ticks_alloc (process_table s ! cur) in
            if slice = 0 then Inl DivideByZero
            else if run mod slice \<noteq> 0 then Inr s
            else
              (case pick_next s of
                 (None, s) \<Rightarrow> Inr s
               | (Some next, s) \<Rightarrow> if next = cur then Inr s else Inr (switch_to cur next s)))"

definition scheduler_init :: "sched \<Rightarrow> sched" where
  "scheduler_init s = s\<lparr>run_queues := replicate NUM_PRIO None, scheduler_active := False\<rparr>"

definition scheduler_start :: "sched \<Rightarrow> sched result" where
  "scheduler_start s =
     (let s = s\<lparr>scheduler_active := True\<rparr>; (c, s) = pick_next s; s = s\<lparr>current_process := c\<rparr> in
      case c of
        None \<Rightarrow> kernel_panic ''scheduler_start: no processes''
      | Some p \<Rightarrow> Inr (set_state p PROC_RUNNING s))"

definition scheduler_current :: "sched \<Rightarrow> nat option" where
  "scheduler_current s = current_process s"

definition scheduler_block :: "nat \<Rightarrow> sched \<Rightarrow> sched result option" where
  "scheduler_block p s = scheduler_remove p (set_state p PROC_BLOCKED s)"

definition scheduler_unblock :: "nat \<Rightarrow> sched \<Rightarrow> sched result option" where
  "scheduler_unblock p s = scheduler_add p (set_state p PROC_READY s)"

text \<open>Yielding resets the slice counter and raises the timer's interrupt, whose effect is the parameter.\<close>

definition scheduler_yield :: "(sched \<Rightarrow> 'r) \<Rightarrow> sched \<Rightarrow> 'r" where
  "scheduler_yield int20 s =
     int20 (case current_process s of
              None \<Rightarrow> s
            | Some p \<Rightarrow> set_slot p ((process_table s ! p)\<lparr>ticks_run := 0\<rparr>) s)"

section \<open>Rings as lists\<close>

text \<open>The ring that starts at \<open>h\<close> has the elements \<open>xs\<close>: each links to the next, the last to the first.\<close>

definition linked :: "(nat \<Rightarrow> nat option) \<Rightarrow> nat list \<Rightarrow> bool" where
  "linked nx xs \<longleftrightarrow> successively (\<lambda>x y. nx x = Some y) xs \<and> (xs \<noteq> [] \<longrightarrow> nx (last xs) = Some (hd xs))"

definition ring_of :: "(nat \<Rightarrow> nat option) \<Rightarrow> nat option \<Rightarrow> nat list \<Rightarrow> bool" where
  "ring_of nx h xs \<longleftrightarrow> h = (if xs = [] then None else Some (hd xs)) \<and> linked nx xs"

definition links :: "sched \<Rightarrow> nat \<Rightarrow> nat option" where
  "links s i = pnext (process_table s ! i)"

lemma links_eq: "(\<lambda>i. pnext (process_table s ! i)) = links s"
  by (simp add: links_def fun_eq_iff)

text \<open>The sixteen queues: all members are different slots of the table.\<close>

definition queues :: "sched \<Rightarrow> nat list list \<Rightarrow> bool" where
  "queues s qs \<longleftrightarrow> length qs = 16 \<and> length (run_queues s) = 16
     \<and> (\<forall>i < 16. ring_of (links s) (run_queues s ! i) (qs ! i))
     \<and> (\<forall>i < 16. distinct (qs ! i)) \<and> (\<forall>i < 16. \<forall>j < 16. i \<noteq> j \<longrightarrow> set (qs ! i) \<inter> set (qs ! j) = {})
     \<and> (\<forall>i < 16. \<forall>p \<in> set (qs ! i). p < length (process_table s))"

lemma successively_cong_set:
  "(\<And>x y. x \<in> set xs \<Longrightarrow> P x y = Q x y) \<Longrightarrow> successively P xs = successively Q xs"
  by (induction xs rule: induct_list012) auto

lemma linked_cong: "(\<And>x. x \<in> set xs \<Longrightarrow> nx x = ny x) \<Longrightarrow> linked nx xs = linked ny xs"
  unfolding linked_def by (cases "xs = []") (auto cong: successively_cong_set)

lemma linked_rotate1: "linked nx xs \<Longrightarrow> linked nx (rotate1 xs)"
proof (cases xs)
  case (Cons x ys)
  assume "linked nx xs"
  with Cons show ?thesis by (cases "ys = []") (auto simp: linked_def successively_append_iff successively_Cons)
qed simp

lemma ring_rotate1: "ring_of nx (Some p) xs \<Longrightarrow> ring_of nx (nx p) (rotate1 xs)"
proof -
  assume r: "ring_of nx (Some p) xs"
  then obtain ys where xs: "xs = p # ys" by (cases xs) (auto simp: ring_of_def split: if_splits)
  have "nx p = Some (hd (rotate1 xs))"
    using r xs by (cases ys) (auto simp: ring_of_def linked_def successively_Cons)
  with r linked_rotate1[of nx xs] xs show ?thesis by (auto simp: ring_of_def)
qed

text \<open>Appending an element behind the last one.\<close>

lemma linked_append:
  assumes "linked nx xs" "xs \<noteq> []" "p \<notin> set xs" "distinct xs"
  shows "linked (nx(last xs := Some p, p := Some (hd xs))) (xs @ [p])"
proof -
  obtain ys l where xs: "xs = ys @ [l]" using assms(2) by (metis append_butlast_last_id)
  have d: "p \<noteq> l" "p \<notin> set ys" "l \<notin> set ys" using assms(3,4) xs by auto
  let ?ny = "nx(l := Some p, p := Some (hd xs))"
  have "successively (\<lambda>x y. ?ny x = Some y) ys = successively (\<lambda>x y. nx x = Some y) ys"
    using d by (intro successively_cong_set) auto
  moreover have "?ny (last ys) = nx (last ys)" if "ys \<noteq> []" using last_in_set[OF that] d by auto
  ultimately show ?thesis
    using assms(1) xs d by (cases "ys = []") (simp_all add: linked_def successively_append_iff)
qed

text \<open>Taking out an element that is not the first.\<close>

lemma linked_remove:
  assumes "linked nx (xs @ q # p # ys)" "distinct (xs @ q # p # ys)"
  shows "linked (nx(q := nx p, p := None)) (xs @ q # ys)"
proof -
  let ?ny = "nx(q := nx p, p := None)"
  have eq: "?ny x = nx x" if "x \<in> set xs \<union> set ys" for x using that assms(2) by auto
  have a: "successively (\<lambda>x y. ?ny x = Some y) xs = successively (\<lambda>x y. nx x = Some y) xs"
    "successively (\<lambda>x y. ?ny x = Some y) ys = successively (\<lambda>x y. nx x = Some y) ys"
    using eq by (auto intro!: successively_cong_set)
  have l: "xs \<noteq> [] \<Longrightarrow> ?ny (last xs) = nx (last xs)" "ys \<noteq> [] \<Longrightarrow> ?ny (last ys) = nx (last ys)"
    using eq[of "last xs"] eq[of "last ys"] by auto
  have q: "q \<noteq> p" "?ny q = nx p" using assms(2) by auto
  show ?thesis
    using assms(1) a l q unfolding linked_def
    by (cases "xs = []"; cases "ys = []") (auto simp: successively_append_iff successively_Cons)
qed

section \<open>Searching a ring\<close>

lemma find_tail_ok:
  "linked (\<lambda>i. pnext (tab ! i)) (ys @ t # zs) \<Longrightarrow> distinct (ys @ t # zs) \<Longrightarrow>
   find_tail tab (hd (ys @ t # zs)) t = Some (Inr (last (t # zs)))"
proof (induction zs arbitrary: ys t)
  case Nil
  then show ?case by (simp add: find_tail.simps[of tab _ t] linked_def)
next
  case (Cons z zs)
  have n: "pnext (tab ! t) = Some z" using Cons.prems(1) by (simp add: linked_def successively_append_iff)
  have "z \<noteq> hd (ys @ t # z # zs)" using Cons.prems(2) by (cases ys) auto
  with n Cons.IH[of "ys @ [t]" z] Cons.prems show ?case by (simp add: find_tail.simps[of tab _ t])
qed

text \<open>A path that ends in a null link makes the search for the last element fault.\<close>

lemma find_tail_fault:
  "successively (\<lambda>x y. pnext (tab ! x) = Some y) (t # zs) \<Longrightarrow> pnext (tab ! last (t # zs)) = None \<Longrightarrow> h \<notin> set zs \<Longrightarrow>
   find_tail tab h t = Some (Inl NullDeref)"
proof (induction zs arbitrary: t)
  case Nil
  then show ?case by (simp add: find_tail.simps[of tab _ t])
next
  case (Cons z zs)
  then show ?case by (simp add: find_tail.simps[of tab _ t])
qed

lemma find_before_ok:
  "linked (\<lambda>i. pnext (tab ! i)) (ys @ c # bs @ p # ws) \<Longrightarrow> distinct (ys @ c # bs @ p # ws) \<Longrightarrow>
   find_before tab (hd (ys @ c # bs @ p # ws)) p c pr = Some (Inr (Found (Some (last (c # bs)))))"
proof (induction bs arbitrary: ys c pr)
  case Nil
  have "pnext (tab ! c) = Some p" using Nil.prems(1) by (simp add: linked_def successively_append_iff)
  moreover have "c \<noteq> p" "p \<noteq> hd (ys @ c # p # ws)" using Nil.prems(2) by (cases ys; auto)+
  ultimately show ?case by (simp add: find_before.simps[of tab _ p c] find_before.simps[of tab _ p p])
next
  case (Cons b bs)
  have "pnext (tab ! c) = Some b" using Cons.prems(1) by (simp add: linked_def successively_append_iff)
  moreover have "c \<noteq> p" "b \<noteq> hd (ys @ c # b # bs @ p # ws)" using Cons.prems(2) by (cases ys; auto)+
  ultimately show ?case using Cons.IH[of "ys @ [c]" b] Cons.prems by (simp add: find_before.simps[of tab _ p c])
qed

lemma find_before_absent:
  "linked (\<lambda>i. pnext (tab ! i)) (ys @ c # zs) \<Longrightarrow> distinct (ys @ c # zs) \<Longrightarrow> p \<notin> set (c # zs) \<Longrightarrow>
   find_before tab (hd (ys @ c # zs)) p c pr = Some (Inr Absent)"
proof (induction zs arbitrary: ys c pr)
  case Nil
  then show ?case by (simp add: find_before.simps[of tab _ p c] linked_def)
next
  case (Cons z zs)
  have n: "pnext (tab ! c) = Some z" using Cons.prems(1) by (simp add: linked_def successively_append_iff)
  have "z \<noteq> hd (ys @ c # z # zs)" using Cons.prems(2) by (cases ys) auto
  with n Cons.IH[of "ys @ [c]" z] Cons.prems show ?case by (simp add: find_before.simps[of tab _ p c])
qed

section \<open>The operations on lists\<close>

lemma update_slot_field:
  "f (g x) = f x \<Longrightarrow> x = xs ! p \<Longrightarrow> f (xs[p := g x] ! i) = f (xs ! i)"
  by (cases "p < length xs") (auto simp: nth_list_update list_update_beyond)

lemma links_simps [simp]:
  "p < length (process_table s) \<Longrightarrow> links (set_next p q s) = (links s)(p := q)"
  "links (set_state p st s) = links s"
  "links (set_head prio h s) = links s"
proof -
  show "p < length (process_table s) \<Longrightarrow> links (set_next p q s) = (links s)(p := q)"
    by (auto simp: links_def set_next_def set_slot_def nth_list_update fun_eq_iff)
  have "pnext ((process_table s)[p := (process_table s ! p)\<lparr>pstate := st\<rparr>] ! i) = pnext (process_table s ! i)" for i
    by (rule update_slot_field[where g = "pstate_update (\<lambda>_. st)"]) simp_all
  then show "links (set_state p st s) = links s" by (simp add: links_def set_state_def set_slot_def fun_eq_iff)
qed (simp add: links_def set_head_def fun_eq_iff)

lemma sched_simps [simp]:
  "run_queues (set_next p q s) = run_queues s" "length (process_table (set_next p q s)) = length (process_table s)"
  "run_queues (set_state p st s) = run_queues s" "length (process_table (set_state p st s)) = length (process_table s)"
  "run_queues (set_head k h s) = (run_queues s)[k := h]" "process_table (set_head k h s) = process_table s"
  by (simp_all add: set_next_def set_state_def set_head_def set_slot_def)

lemma prio_less: "prio_of p s < 16"
proof -
  have "unat (priority (process_table s ! p) AND mask 4) < 16" by (simp only: unat_and_mask) simp
  then show ?thesis by (simp add: prio_of_def mask_eq_exp_minus_1)
qed

text \<open>Changing one ring and links of its elements only.\<close>

lemma queues_update:
  assumes q: "queues s qs" and k: "k < 16" and len: "length (process_table s') = length (process_table s)"
    and rq: "run_queues s' = (run_queues s)[k := h]" and r: "ring_of (links s') h xs" "distinct xs"
    and same: "\<And>x. x \<notin> set (qs ! k) \<union> set xs \<Longrightarrow> links s' x = links s x"
    and new: "\<And>i. i < 16 \<Longrightarrow> i \<noteq> k \<Longrightarrow> set xs \<inter> set (qs ! i) = {}" "\<forall>x \<in> set xs. x < length (process_table s)"
  shows "queues s' (qs[k := xs])"
proof -
  have l: "length qs = 16" "length (run_queues s) = 16" using q by (simp_all add: queues_def)
  have "ring_of (links s') (run_queues s ! i) (qs ! i)" if "i < 16" "i \<noteq> k" for i
  proof -
    have "links s' x = links s x" if "x \<in> set (qs ! i)" for x
    proof (rule same)
      have "set (qs ! i) \<inter> set (qs ! k) = {}" using q k \<open>i < 16\<close> \<open>i \<noteq> k\<close> by (simp add: queues_def)
      with that new(1)[OF \<open>i < 16\<close> \<open>i \<noteq> k\<close>] show "x \<notin> set (qs ! k) \<union> set xs" by auto
    qed
    then have "linked (links s') (qs ! i) = linked (links s) (qs ! i)" by (intro linked_cong) simp
    with q that show ?thesis by (simp add: queues_def ring_of_def)
  qed
  moreover have "set (qs[k := xs] ! i) \<inter> set (qs[k := xs] ! j) = {}" if "i < 16" "j < 16" "i \<noteq> j" for i j
    using that q k l new(1)[of i] new(1)[of j] by (auto simp: queues_def nth_list_update)
  ultimately show ?thesis
    using q k l r rq len new(2) unfolding queues_def by (auto simp: nth_list_update)
qed

lemma queuesD:
  assumes "queues s qs" "k < 16"
  shows "ring_of (links s) (run_queues s ! k) (qs ! k)" "distinct (qs ! k)" "\<forall>p \<in> set (qs ! k). p < length (process_table s)"
    "length qs = 16" "length (run_queues s) = 16" "i < 16 \<Longrightarrow> i \<noteq> k \<Longrightarrow> set (qs ! k) \<inter> set (qs ! i) = {}"
  using assms by (auto simp: queues_def)

lemma add_ok:
  assumes q: "queues s qs" and p: "p < length (process_table s)" "\<forall>i < 16. p \<notin> set (qs ! i)"
  shows "\<exists>s'. scheduler_add p s = Some (Inr s') \<and> queues s' (qs[prio_of p s := qs ! prio_of p s @ [p]])
    \<and> pstate (process_table s' ! p) = PROC_READY"
proof -
  let ?k = "prio_of p s" and ?xs = "qs ! prio_of p s"
  note k = prio_less[of p s] and D = queuesD[OF q prio_less[of p s]]
  have new: "set (?xs @ [p]) \<inter> set (qs ! i) = {}" if "i < 16" "i \<noteq> ?k" for i using D(6)[OF that] p(2) that by auto
  have lt: "\<forall>x \<in> set (?xs @ [p]). x < length (process_table s)" using D(3) p(1) by auto
  have dist: "distinct (?xs @ [p])" using D(2) p(2) k by auto
  show ?thesis
  proof (cases "?xs = []")
    case True
    then have h: "run_queues s ! ?k = None" using D(1) by (simp add: ring_of_def)
    let ?s = "set_state p PROC_READY (set_next p (Some p) (set_head ?k (Some p) s))"
    have "queues ?s (qs[?k := ?xs @ [p]])"
    proof (rule queues_update[OF q k])
      show "ring_of (links ?s) (Some p) (?xs @ [p])" using True p(1) by (simp add: ring_of_def linked_def)
    qed (use new lt dist p(1) in auto)
    moreover have "pstate (process_table ?s ! p) = PROC_READY" using p(1) by (simp add: set_state_def set_next_def set_slot_def)
    ultimately show ?thesis using h by (simp add: scheduler_add_def Let_def)
  next
    case False
    then have h: "run_queues s ! ?k = Some (hd ?xs)" and l: "linked (links s) ?xs" using D(1) by (simp_all add: ring_of_def)
    have t: "find_tail (process_table s) (hd ?xs) (hd ?xs) = Some (Inr (last ?xs))"
      using find_tail_ok[of "process_table s" "[]" "hd ?xs" "tl ?xs", unfolded links_eq] l D(2) False by simp
    let ?s = "set_state p PROC_READY (set_next p (Some (hd ?xs)) (set_next (last ?xs) (Some p) s))"
    have last: "last ?xs < length (process_table s)" using D(3) last_in_set[OF False] by blast
    have "linked ((links s)(last ?xs := Some p, p := Some (hd ?xs))) (?xs @ [p])"
      using l False p(2) k D(2) by (intro linked_append) auto
    then have r: "ring_of (links ?s) (Some (hd ?xs)) (?xs @ [p])" using False last p(1) by (simp add: ring_of_def)
    have "queues ?s (qs[?k := ?xs @ [p]])"
    proof (rule queues_update[OF q k _ _ r])
      show "run_queues ?s = (run_queues s)[?k := Some (hd ?xs)]" using h list_update_id[of "run_queues s" ?k] by simp
    qed (use new lt dist last p(1) last_in_set[OF False] in auto)
    moreover have "pstate (process_table ?s ! p) = PROC_READY" using p(1) by (simp add: set_state_def set_next_def set_slot_def)
    ultimately show ?thesis using h t by (simp add: scheduler_add_def Let_def)
  qed
qed

lemma remove_behind_ok:
  assumes q: "queues s qs" and k: "prio_of p s = k" and xs: "qs ! k = as @ b # p # bs"
  shows "\<exists>s'. scheduler_remove p s = Some (Inr s') \<and> queues s' (qs[k := as @ b # bs])"
proof -
  have k16: "k < 16" using prio_less[of p s] k by simp
  note D = queuesD[OF q k16]
  let ?h = "hd (qs ! k)" and ?s = "set_next p None (set_next b (links s p) s)"
  have h: "run_queues s ! k = Some ?h" and l: "linked (links s) (as @ b # p # bs)"
    using D(1) xs by (simp_all add: ring_of_def)
  have d: "distinct (as @ b # p # bs)" using D(2) xs by simp
  have f: "find_before (process_table s) ?h p ?h None = Some (Inr (Found (Some b)))"
  proof (cases as)
    case Nil
    then show ?thesis using find_before_ok[of "process_table s" "[]" b "[]" p bs None, unfolded links_eq] l d xs by simp
  next
    case (Cons a as')
    then show ?thesis using find_before_ok[of "process_table s" "[]" a "as' @ [b]" p bs None, unfolded links_eq] l d xs by simp
  qed
  have nx: "links s p \<noteq> Some p" "?h \<noteq> p"
  proof -
    show "?h \<noteq> p" using d xs by (cases as) auto
    show "links s p \<noteq> Some p"
    proof (cases bs)
      case Nil
      with l d show ?thesis by (cases as) (auto simp: linked_def)
    next
      case (Cons c cs)
      with l d show ?thesis by (auto simp: linked_def successively_append_iff)
    qed
  qed
  have lt: "b < length (process_table s)" "p < length (process_table s)" using D(3) xs by auto
  have "linked ((links s)(b := links s p, p := None)) (as @ b # bs)" by (rule linked_remove[OF l d])
  then have r: "ring_of (links ?s) (Some ?h) (as @ b # bs)" using lt xs by (cases as) (simp_all add: ring_of_def)
  have "queues ?s (qs[k := as @ b # bs])"
  proof (rule queues_update[OF q k16 _ _ r])
    show "run_queues ?s = (run_queues s)[k := Some ?h]" using h list_update_id[of "run_queues s" k] by simp
    show "links ?s x = links s x" if "x \<notin> set (qs ! k) \<union> set (as @ b # bs)" for x using that xs lt by simp
  qed (use d D(3,6) xs in auto)
  moreover have "scheduler_remove p s = Some (Inr ?s)"
    using h f nx k by (simp add: scheduler_remove_def Let_def links_def)
  ultimately show ?thesis by blast
qed

lemma remove_only_ok:
  assumes q: "queues s qs" and k: "prio_of p s = k" and xs: "qs ! k = [p]"
  shows "\<exists>s'. scheduler_remove p s = Some (Inr s') \<and> queues s' (qs[k := []])"
proof -
  have k16: "k < 16" using prio_less[of p s] k by simp
  note D = queuesD[OF q k16]
  have h: "run_queues s ! k = Some p" "links s p = Some p" using D(1) xs by (simp_all add: ring_of_def linked_def)
  let ?s = "set_next p None (set_head k None s)"
  have "queues ?s (qs[k := []])"
  proof (rule queues_update[OF q k16])
    show "ring_of (links ?s) None []" by (simp add: ring_of_def linked_def)
    show "links ?s x = links s x" if "x \<notin> set (qs ! k) \<union> set []" for x using that xs D(3) by simp
  qed auto
  moreover have "scheduler_remove p s = Some (Inr ?s)"
    using h k by (simp add: scheduler_remove_def Let_def links_def find_before.simps[of _ _ p p])
  ultimately show ?thesis by blast
qed

lemma remove_absent_ok:
  assumes q: "queues s qs" and p: "p \<notin> set (qs ! prio_of p s)"
  shows "scheduler_remove p s = Some (Inr s)"
proof (cases "qs ! prio_of p s")
  case Nil
  then show ?thesis using queuesD(1)[OF q prio_less] by (simp add: scheduler_remove_def Let_def ring_of_def)
next
  case (Cons x xs)
  note D = queuesD[OF q prio_less[of p s]]
  have "find_before (process_table s) x p x None = Some (Inr Absent)"
    using find_before_absent[of "process_table s" "[]" x xs p None, unfolded links_eq] D(1,2) p Cons by (simp add: ring_of_def)
  with D(1) Cons show ?thesis by (simp add: scheduler_remove_def Let_def ring_of_def)
qed

text \<open>Picking on lists: the first process of each level moves to the end of its level.\<close>

fun pick_list :: "(nat \<Rightarrow> bool) \<Rightarrow> nat \<Rightarrow> nat list list \<Rightarrow> nat option \<times> nat list list" where
  "pick_list ready 0 qs = (None, qs)"
| "pick_list ready (Suc k) qs =
     (case qs ! k of
        [] \<Rightarrow> pick_list ready k qs
      | p # ps \<Rightarrow> let qs = qs[k := ps @ [p]] in if ready p then (Some p, qs) else pick_list ready k qs)"

abbreviation is_ready :: "sched \<Rightarrow> nat \<Rightarrow> bool" where
  "is_ready s p \<equiv> pstate (process_table s ! p) = PROC_READY"

lemma rotate_level:
  assumes q: "queues s qs" and k: "k < 16" and xs: "qs ! k = p # ps"
  shows "queues (set_head k (links s p) s) (qs[k := ps @ [p]])"
proof (rule queues_update[OF q k])
  note D = queuesD[OF q k]
  have "run_queues s ! k = Some p" using D(1) xs by (simp add: ring_of_def)
  with D(1) xs ring_rotate1[of "links s" p "p # ps"] show "ring_of (links (set_head k (links s p) s)) (links s p) (ps @ [p])" by simp
qed (use queuesD[OF q k] xs in auto)

lemma pick_from_refines:
  assumes "queues s qs" "n \<le> 16"
  shows "\<exists>rq qs'. pick_from n s = (fst (pick_list (is_ready s) n qs), s\<lparr>run_queues := rq\<rparr>)
    \<and> queues (s\<lparr>run_queues := rq\<rparr>) (snd (pick_list (is_ready s) n qs))"
  using assms
proof (induction n arbitrary: s qs)
  case 0
  then show ?case by (auto intro!: exI[of _ "run_queues s"])
next
  case (Suc k)
  note D = queuesD[OF Suc.prems(1), of k]
  show ?case
  proof (cases "qs ! k")
    case Nil
    with D(1) Suc show ?thesis by (simp add: ring_of_def)
  next
    case (Cons p ps)
    have h: "run_queues s ! k = Some p" using D(1) Suc.prems(2) Cons by (simp add: ring_of_def)
    let ?s = "set_head k (links s p) s"
    have q: "queues ?s (qs[k := ps @ [p]])" using rotate_level[OF Suc.prems(1) _ Cons] Suc.prems(2) by simp
    have u: "?s = s\<lparr>run_queues := (run_queues s)[k := links s p]\<rparr>" by (simp add: set_head_def)
    show ?thesis
    proof (cases "is_ready s p")
      case True
      with q h Cons u show ?thesis by (auto simp: links_def Let_def)
    next
      case False
      from Suc.IH[OF q] Suc.prems(2) obtain rq where
        "pick_from k ?s = (fst (pick_list (is_ready s) k (qs[k := ps @ [p]])), ?s\<lparr>run_queues := rq\<rparr>)"
        "queues (?s\<lparr>run_queues := rq\<rparr>) (snd (pick_list (is_ready s) k (qs[k := ps @ [p]])))" by auto
      with False h Cons show ?thesis by (auto simp: links_def Let_def set_head_def)
    qed
  qed
qed

text \<open>Every level of the picked queues is a rotation of what it was, and the picked process is a ready
  member.\<close>

lemma pick_list_rotates:
  "n \<le> length qs \<Longrightarrow> pick_list ready n qs = (r, qs') \<Longrightarrow>
   length qs' = length qs \<and> (\<forall>i < length qs. \<exists>m. qs' ! i = rotate m (qs ! i))
   \<and> (\<forall>p. r = Some p \<longrightarrow> ready p \<and> (\<exists>i < length qs. p \<in> set (qs ! i)))"
proof (induction n arbitrary: qs)
  case 0
  then show ?case by (auto intro: exI[of _ 0])
next
  case (Suc k)
  show ?case
  proof (cases "qs ! k")
    case Nil
    with Suc.prems have e: "pick_list ready k qs = (r, qs')" by simp
    show ?thesis by (rule Suc.IH[OF Suc_leD[OF Suc.prems(1)] e])
  next
    case (Cons p ps)
    have rot: "ps @ [p] = rotate 1 (qs ! k)" using Cons by simp
    have lvl: "\<exists>m. qs[k := ps @ [p]] ! i = rotate m (qs ! i)" if "i < length qs" for i
      using that rot Suc.prems(1) by (cases "i = k") (auto intro: exI[of _ 1] exI[of _ 0])
    show ?thesis
    proof (cases "ready p")
      case True
      with Suc.prems Cons lvl show ?thesis by (auto simp: Let_def intro!: exI[of _ k])
    next
      case False
      with Suc.prems Cons have e: "pick_list ready k (qs[k := ps @ [p]]) = (r, qs')" by (simp add: Let_def)
      from Suc.IH[OF _ e] Suc.prems(1) have IH: "length qs' = length qs"
        "\<And>i. i < length qs \<Longrightarrow> \<exists>m. qs' ! i = rotate m (qs[k := ps @ [p]] ! i)"
        "\<And>p'. r = Some p' \<Longrightarrow> ready p' \<and> (\<exists>i < length qs. p' \<in> set (qs[k := ps @ [p]] ! i))" by auto
      have "\<exists>m. qs' ! i = rotate m (qs ! i)" if "i < length qs" for i
        using IH(2)[OF that] lvl[OF that] by (auto simp: rotate_rotate)
      moreover have "\<exists>i < length qs. p' \<in> set (qs ! i)" if "r = Some p'" for p'
        using IH(3)[OF that] lvl by (metis set_rotate)
      ultimately show ?thesis using IH by blast
    qed
  qed
qed

section \<open>The interface of a round robin\<close>

text \<open>A client that draws several times in a row.\<close>

fun draws :: "('s \<Rightarrow> 'a option \<times> 's) \<Rightarrow> nat \<Rightarrow> 's \<Rightarrow> 'a option list \<times> 's" where
  "draws nxt 0 s = ([], s)"
| "draws nxt (Suc n) s = (let (r, s) = nxt s; (rs, s) = draws nxt n s in (r # rs, s))"

locale round_robin =
  fixes inv :: "'s \<Rightarrow> bool" and members :: "'s \<Rightarrow> 'a list" and nxt :: "'s \<Rightarrow> 'a option \<times> 's"
  assumes nxt_rotates: "inv s \<Longrightarrow> members s = p # ps \<Longrightarrow>
      \<exists>s'. nxt s = (Some p, s') \<and> inv s' \<and> members s' = ps @ [p]"
begin

lemma draws_prefix:
  "inv s \<Longrightarrow> members s = ps @ qs \<Longrightarrow>
   \<exists>s'. draws nxt (length ps) s = (map Some ps, s') \<and> inv s' \<and> members s' = qs @ ps"
proof (induction ps arbitrary: s qs)
  case (Cons p ps)
  from nxt_rotates[OF Cons.prems(1), of p "ps @ qs"] Cons.prems(2) obtain s1 where
    s1: "nxt s = (Some p, s1)" "inv s1" "members s1 = ps @ (qs @ [p])" by auto
  from Cons.IH[OF s1(2,3)] s1(1) show ?case by auto
qed simp

text \<open>As many draws as there are members give each member once and end where they started.\<close>

lemma full_round: "inv s \<Longrightarrow> \<exists>s'. draws nxt (length (members s)) s = (map Some (members s), s') \<and> inv s' \<and> members s' = members s"
  using draws_prefix[of s "members s" "[]"] by simp

end

text \<open>The scheduler is a round robin on its highest level, when all processes of that level are ready. The
  lists that the rings stand for are carried along.\<close>

definition pick_both :: "sched \<times> nat list list \<Rightarrow> nat option \<times> sched \<times> nat list list" where
  "pick_both = (\<lambda>(s, qs). (fst (pick_next s), snd (pick_next s), snd (pick_list (is_ready s) 16 qs)))"

definition top_level :: "nat \<Rightarrow> sched \<times> nat list list \<Rightarrow> bool" where
  "top_level k = (\<lambda>(s, qs). queues s qs \<and> k < 16 \<and> (\<forall>i < 16. k < i \<longrightarrow> qs ! i = []) \<and> (\<forall>p \<in> set (qs ! k). is_ready s p))"

lemma pick_list_skip:
  "k < n \<Longrightarrow> (\<forall>i < n. k < i \<longrightarrow> qs ! i = []) \<Longrightarrow> pick_list ready n qs = pick_list ready (Suc k) qs"
  by (induction n) (auto simp: less_Suc_eq)

interpretation sched_rr: round_robin "top_level k" "\<lambda>(s, qs). qs ! k" pick_both for k
proof unfold_locales
  fix x :: "sched \<times> nat list list" and p ps
  obtain s qs where x: "x = (s, qs)" by (cases x)
  assume "top_level k x" and m: "(case x of (s, qs) \<Rightarrow> qs ! k) = p # ps"
  then have t: "queues s qs" "k < 16" "\<forall>i < 16. k < i \<longrightarrow> qs ! i = []" "\<forall>p \<in> set (qs ! k). is_ready s p" and
    xs: "qs ! k = p # ps" by (auto simp: x top_level_def)
  have pl: "pick_list (is_ready s) 16 qs = (Some p, qs[k := ps @ [p]])"
    using pick_list_skip[of k 16 qs "is_ready s"] t xs by (simp add: Let_def)
  from pick_from_refines[OF t(1), of 16] obtain rq where
    pn: "pick_next s = (Some p, s\<lparr>run_queues := rq\<rparr>)" "queues (s\<lparr>run_queues := rq\<rparr>) (qs[k := ps @ [p]])"
    by (auto simp: pick_next_def NUM_PRIO_def pl)
  have l: "length qs = 16" using t(1) by (simp add: queues_def)
  with pn t xs have "top_level k (s\<lparr>run_queues := rq\<rparr>, qs[k := ps @ [p]])" by (auto simp: top_level_def)
  with pn pl l t(2) show "\<exists>x'. pick_both x = (Some p, x') \<and> top_level k x' \<and> (case x' of (s, qs) \<Rightarrow> qs ! k) = ps @ [p]"
    by (auto simp: x pick_both_def)
qed

lemma draws_pick_both:
  "fst (draws pick_both n (s, qs)) = fst (draws pick_next n s) \<and> fst (snd (draws pick_both n (s, qs))) = snd (draws pick_next n s)"
proof (induction n arbitrary: s qs)
  case (Suc n)
  from Suc.IH[of "snd (pick_next s)" "snd (pick_list (is_ready s) 16 qs)"] show ?case
    by (auto simp: pick_both_def split_beta)
qed simp

section \<open>One running process\<close>

definition one_running :: "sched \<Rightarrow> bool" where
  "one_running s \<longleftrightarrow> (\<forall>i < length (process_table s). pstate (process_table s ! i) = PROC_RUNNING \<longrightarrow> current_process s = Some i)"

lemma set_state_table:
  "p < length (process_table s) \<Longrightarrow>
   pstate (process_table (set_state p st s) ! i) = (if i = p then st else pstate (process_table s ! i))"
  by (auto simp: set_state_def set_slot_def nth_list_update)

lemma queues_cong:
  "length (process_table s') = length (process_table s) \<Longrightarrow> run_queues s' = run_queues s \<Longrightarrow> links s' = links s \<Longrightarrow>
   queues s' qs = queues s qs"
  by (simp add: queues_def)

lemma links_table: "process_table s' = process_table s \<Longrightarrow> links s' = links s"
  by (simp add: links_def fun_eq_iff)

lemma slot_field_links:
  "pnext q = pnext (process_table s ! p) \<Longrightarrow> links (set_slot p q s) = links s"
  by (cases "p < length (process_table s)") (auto simp: links_def set_slot_def nth_list_update list_update_beyond fun_eq_iff)

lemma switch_to_ok:
  assumes q: "queues s qs" and r: "one_running s" "current_process s = Some prev" and n: "n < length (process_table s)" "n \<noteq> prev"
    and p: "prev < length (process_table s)"
  shows "queues (switch_to prev n s) qs" "one_running (switch_to prev n s)" "current_process (switch_to prev n s) = Some n"
    "pstate (process_table (switch_to prev n s) ! n) = PROC_RUNNING" "switched (switch_to prev n s) = switched s @ [(prev, n)]"
proof -
  define s1 where "s1 = set_state n PROC_RUNNING (s\<lparr>current_process := Some n\<rparr>)"
  define s2 where "s2 = (if pstate (process_table s1 ! prev) = PROC_RUNNING then set_state prev PROC_READY s1 else s1)"
  have rest: "process_table (switch_to prev n s) = process_table s2" "run_queues (switch_to prev n s) = run_queues s2"
    "current_process (switch_to prev n s) = current_process s2" "switched (switch_to prev n s) = switched s2 @ [(prev, n)]"
    by (simp_all add: switch_to_def Let_def context_switch_def s1_def s2_def)
  have l: "links s1 = links s" "links s2 = links s1" "links (switch_to prev n s) = links s2"
    using links_table[of "s\<lparr>current_process := Some n\<rparr>" s] links_table[OF rest(1)] by (simp_all add: s1_def s2_def)
  have len: "length (process_table s2) = length (process_table s)" "run_queues s2 = run_queues s" "current_process s2 = Some n" "switched s2 = switched s"
    by (simp_all add: s1_def s2_def set_state_def set_slot_def)
  show "queues (switch_to prev n s) qs"
    using q queues_cong[of "switch_to prev n s" s qs] rest l len by simp
  have st: "pstate (process_table s2 ! i) = (if i = n then PROC_RUNNING else if i = prev \<and> pstate (process_table s ! i) = PROC_RUNNING then PROC_READY
      else pstate (process_table s ! i))" for i
    using n p by (auto simp: s2_def s1_def set_state_table)
  then show "one_running (switch_to prev n s)" using r len by (auto simp: one_running_def rest)
  show "current_process (switch_to prev n s) = Some n" "pstate (process_table (switch_to prev n s) ! n) = PROC_RUNNING"
    "switched (switch_to prev n s) = switched s @ [(prev, n)]" using rest len st by simp_all
qed

text \<open>No operation on the queues touches the time slices.\<close>

definition slices :: "sched \<Rightarrow> u32 list" where
  "slices s = map ticks_alloc (process_table s)"

lemma slices_set_slot: "ticks_alloc p = ticks_alloc (process_table s ! i) \<Longrightarrow> slices (set_slot i p s) = slices s"
  by (cases "i < length (process_table s)")
    (simp_all add: slices_def set_slot_def map_update list_update_beyond list_update_same_conv)

lemma slices_set_state [simp]: "slices (set_state p st s) = slices s"
  unfolding set_state_def by (rule slices_set_slot) simp

lemma slices_table: "process_table s = process_table s' \<Longrightarrow> slices s = slices s'"
  by (simp add: slices_def)

lemma pick_from_table: "process_table (snd (pick_from n s)) = process_table s"
  by (induction n s rule: pick_from.induct) (auto simp: set_head_def Let_def split: option.splits)

lemma switch_to_slices: "slices (switch_to p n s) = slices s"
proof -
  define s1 where "s1 = set_state n PROC_RUNNING (s\<lparr>current_process := Some n\<rparr>)"
  have "slices (switch_to p n s) = slices (if pstate (process_table s1 ! p) = PROC_RUNNING then set_state p PROC_READY s1 else s1)"
    by (rule slices_table) (simp add: switch_to_def Let_def context_switch_def s1_def)
  also have "\<dots> = slices (s\<lparr>current_process := Some n\<rparr>)" by (simp add: s1_def)
  also have "\<dots> = slices s" by (rule slices_table) simp
  finally show ?thesis .
qed

lemma tick_slices:
  assumes "scheduler_tick s = Inr s'"
  shows "slices s' = slices s"
proof -
  have pick: "slices u = slices t" if "pick_next t = (r, u)" for t r u
    using slices_table[OF pick_from_table[of NUM_PRIO t]] that by (simp add: pick_next_def)
  show ?thesis
  proof (cases "current_process s")
    case (Some c)
    define t where "t = set_slot c ((process_table s ! c)\<lparr>ticks_run := ticks_run (process_table s ! c) + 1\<rparr>) s"
    have "slices t = slices s" unfolding t_def by (rule slices_set_slot) simp
    moreover have "slices s' = slices s \<or> slices s' = slices t"
      using assms Some
      by (auto simp: scheduler_tick_def Let_def t_def [symmetric] switch_to_slices split: if_splits option.splits prod.splits dest!: pick)
    ultimately show ?thesis by auto
  qed (use assms in \<open>simp add: scheduler_tick_def\<close>)
qed

definition counted :: "nat \<Rightarrow> sched \<Rightarrow> sched" where
  "counted cur s = set_slot cur ((process_table s ! cur)\<lparr>ticks_run := ticks_run (process_table s ! cur) + 1\<rparr>) s"

lemma counted_simps [simp]:
  "process_table (counted cur s) = (process_table s)[cur := (process_table s ! cur)\<lparr>ticks_run := ticks_run (process_table s ! cur) + 1\<rparr>]"
  "run_queues (counted cur s) = run_queues s" "current_process (counted cur s) = current_process s"
  "switched (counted cur s) = switched s" "scheduler_active (counted cur s) = scheduler_active s"
  by (simp_all add: counted_def set_slot_def)

lemma counted_sound:
  assumes "queues s qs" "one_running s" "cur < length (process_table s)"
  shows "queues (counted cur s) qs" "one_running (counted cur s)"
proof -
  show "queues (counted cur s) qs"
    using assms(1) queues_cong[of "counted cur s" s qs] slot_field_links[of _ s cur]
    by (simp add: counted_def set_slot_def)
  show "one_running (counted cur s)" using assms(2,3) by (auto simp: one_running_def nth_list_update)
qed

lemma tick_counted:
  assumes "current_process s = Some cur" "scheduler_active s" "cur < length (process_table s)"
    "ticks_alloc (process_table s ! cur) \<noteq> 0" "pick_next (counted cur s) = (pk, s2)"
  shows "scheduler_tick s =
    (if (ticks_run (process_table s ! cur) + 1) mod ticks_alloc (process_table s ! cur) \<noteq> 0 then Inr (counted cur s)
     else (case pk of None \<Rightarrow> Inr s2 | Some n \<Rightarrow> if n = cur then Inr s2 else Inr (switch_to cur n s2)))"
  using assms by (simp add: scheduler_tick_def Let_def counted_def[symmetric] nth_list_update split: option.splits)

lemma tick_sound:
  assumes q: "queues s qs" and r: "one_running s"
    and c: "\<forall>c. current_process s = Some c \<longrightarrow> c < length (process_table s) \<and> ticks_alloc (process_table s ! c) \<noteq> 0"
  shows "\<exists>s' qs'. scheduler_tick s = Inr s' \<and> queues s' qs' \<and> (\<forall>i < 16. \<exists>m. qs' ! i = rotate m (qs ! i)) \<and> one_running s'
    \<and> (current_process s' = current_process s \<and> switched s' = switched s
       \<or> (\<exists>c n. current_process s = Some c \<and> current_process s' = Some n \<and> switched s' = switched s @ [(c, n)]))
    \<and> (\<forall>c. current_process s' = Some c \<longrightarrow> c < length (process_table s'))"
proof (cases "current_process s = None \<or> \<not> scheduler_active s")
  case True
  then have "scheduler_tick s = Inr s" by (auto simp: scheduler_tick_def split: option.splits)
  with q r c show ?thesis by (auto intro!: exI[of _ qs] exI[of _ 0])
next
  case False
  then obtain cur where cur: "current_process s = Some cur" "scheduler_active s" by auto
  with c have lt: "cur < length (process_table s)" "ticks_alloc (process_table s ! cur) \<noteq> 0" by auto
  let ?s1 = "counted cur s"
  note s1 = counted_sound[OF q r lt(1)]
  obtain pk qs' where pl: "pick_list (is_ready ?s1) 16 qs = (pk, qs')" by fastforce
  obtain rq where pn: "pick_next ?s1 = (pk, ?s1\<lparr>run_queues := rq\<rparr>)" and q2: "queues (?s1\<lparr>run_queues := rq\<rparr>) qs'"
    using pick_from_refines[OF s1(1), of 16] pl by (auto simp: pick_next_def NUM_PRIO_def)
  let ?s2 = "?s1\<lparr>run_queues := rq\<rparr>"
  have len: "length qs = 16" using q by (simp add: queues_def)
  note rot = pick_list_rotates[OF _ pl] and tick = tick_counted[OF cur lt pn]
  have r2: "one_running ?s2" using s1(2) by (simp add: one_running_def)
  show ?thesis
  proof (cases "(ticks_run (process_table s ! cur) + 1) mod ticks_alloc (process_table s ! cur) = 0")
    case False
    with tick s1 cur lt show ?thesis by (auto intro!: exI[of _ qs] exI[of _ 0])
  next
    case go: True
    show ?thesis
    proof (cases "pk = None \<or> pk = Some cur")
      case True
      with tick go have "scheduler_tick s = Inr ?s2" by auto
      with q2 r2 rot len cur lt show ?thesis by (intro exI[of _ ?s2] exI[of _ qs']) auto
    next
      case False
      then obtain n where n: "pk = Some n" "n \<noteq> cur" by auto
      with rot len obtain i where "i < 16" "n \<in> set (qs ! i)" by auto
      then have lt2: "n < length (process_table ?s2)" using q by (auto simp: queues_def)
      moreover have "cur < length (process_table ?s2)" "current_process ?s2 = Some cur" using lt cur by simp_all
      ultimately have sw: "queues (switch_to cur n ?s2) qs'" "one_running (switch_to cur n ?s2)"
        "current_process (switch_to cur n ?s2) = Some n" "switched (switch_to cur n ?s2) = switched s @ [(cur, n)]"
        using switch_to_ok[OF q2 r2, of cur n] n(2) by simp_all
      from tick go n have "scheduler_tick s = Inr (switch_to cur n ?s2)" by simp
      moreover have "n < length (process_table (switch_to cur n ?s2))"
        using lt2 arg_cong[OF switch_to_slices[of cur n ?s2], of length] by (simp add: slices_def)
      ultimately show ?thesis using sw rot len cur by (intro exI[of _ "switch_to cur n ?s2"] exI[of _ qs']) auto
    qed
  qed
qed

section \<open>Properties\<close>


text \<open>A scheduler with three processes of priority 8, of which two are queued and the first runs.\<close>

definition sample_proc :: "u32 \<Rightarrow> ProcessState \<Rightarrow> nat option \<Rightarrow> Process" where
  "sample_proc n st q = zero_process\<lparr>pid := n, pstate := st, priority := 8, ticks_alloc := 9, pnext := q\<rparr>"

definition sample_sched :: sched where
  "sample_sched = procs.extend sample_procs
     \<lparr>run_queues = (replicate 16 None)[8 := Some 0], current_process = None, scheduler_active = False, switched = []\<rparr>
     \<lparr>process_table := [sample_proc 1 PROC_READY (Some 1), sample_proc 2 PROC_READY (Some 0), sample_proc 3 PROC_BLOCKED None]\<rparr>"

definition sample_queues :: "nat list list" where
  "sample_queues = (replicate 16 [])[8 := [0, 1]]"

lemma sample_sched_simps:
  "process_table sample_sched = [sample_proc 1 PROC_READY (Some 1), sample_proc 2 PROC_READY (Some 0), sample_proc 3 PROC_BLOCKED None]"
  "run_queues sample_sched = (replicate 16 None)[8 := Some 0]" "current_process sample_sched = None" "scheduler_active sample_sched = False"
  by (simp_all add: sample_sched_def procs.extend_def)

lemma sample_sched_queues: "queues sample_sched sample_queues"
proof -
  have l: "links sample_sched 0 = Some 1" "links sample_sched 1 = Some 0" by (simp_all add: links_def sample_sched_simps sample_proc_def)
  then have "ring_of (links sample_sched) (run_queues sample_sched ! i) (sample_queues ! i)" if "i < 16" for i
    using that by (cases "i = 8") (simp_all add: ring_of_def linked_def sample_sched_simps sample_queues_def)
  then show ?thesis by (auto simp: queues_def sample_queues_def sample_sched_simps nth_list_update)
qed


text \<open>C17: Round robin. When the highest non-empty level holds only ready processes, as many consecutive picks
  as it has members return each of them exactly once, in queue order, and leave the level as it was.\<close>

theorem round_robin_fair:
  assumes "queues s qs" "k < 16" "\<forall>i < 16. k < i \<longrightarrow> qs ! i = []" "\<forall>p \<in> set (qs ! k). is_ready s p"
  shows "\<exists>s' qs'. draws pick_next (length (qs ! k)) s = (map Some (qs ! k), s') \<and> queues s' qs' \<and> qs' ! k = qs ! k"
proof -
  have "top_level k (s, qs)" using assms by (simp add: top_level_def)
  from sched_rr.full_round[OF this] obtain s' qs' where
    "draws pick_both (length (qs ! k)) (s, qs) = (map Some (qs ! k), s', qs')" "top_level k (s', qs')" "qs' ! k = qs ! k"
    by (auto split: prod.splits)
  with draws_pick_both[of "length (qs ! k)" s qs] show ?thesis
    by (auto simp: top_level_def intro!: prod_eqI)
qed

theorem round_robin_fair_witness:
  "\<exists>s'. draws pick_next 2 sample_sched = ([Some 0, Some 1], s')"
proof -
  have q: "sample_queues ! 8 = [0, 1]" "\<forall>i < 16. 8 < i \<longrightarrow> sample_queues ! i = []" by (simp_all add: sample_queues_def)
  have "\<forall>p \<in> set (sample_queues ! 8). is_ready sample_sched p" unfolding q(1) by (simp add: sample_sched_simps sample_proc_def)
  from round_robin_fair[OF sample_sched_queues _ q(2) this] q(1) show ?thesis by (auto simp: numeral_2_eq_2)
qed

text \<open>C16: The tick keeps the scheduler sound. On well-formed queues with at most the current process running,
  \<^verbatim>\<open>scheduler_tick\<close> returns (the slice of the current process being positive), the queues stay well
  formed with every level only rotated, still only the current process is running, and at most one
  context switch happens, from the old current process to the new one.\<close>

theorem scheduler_tick_sound:
  assumes q: "queues s qs" and r: "one_running s"
    and c: "\<forall>c. current_process s = Some c \<longrightarrow> c < length (process_table s) \<and> ticks_alloc (process_table s ! c) \<noteq> 0"
  shows "\<exists>s' qs'. scheduler_tick s = Inr s' \<and> queues s' qs' \<and> (\<forall>i < 16. \<exists>m. qs' ! i = rotate m (qs ! i)) \<and> one_running s'
    \<and> (current_process s' = current_process s \<and> switched s' = switched s
       \<or> (\<exists>c n. current_process s = Some c \<and> current_process s' = Some n \<and> switched s' = switched s @ [(c, n)]))"
  using tick_sound[OF assms] by blast

theorem scheduler_tick_sound_witness:
  "\<exists>s'. scheduler_tick (sample_sched\<lparr>current_process := Some 0, scheduler_active := True\<rparr>) = Inr s' \<and> one_running s'"
proof -
  let ?s = "sample_sched\<lparr>current_process := Some 0, scheduler_active := True\<rparr>"
  have "queues ?s sample_queues" using sample_sched_queues queues_cong[of ?s sample_sched] links_table[of ?s sample_sched] by simp
  moreover have "one_running ?s"
    by (auto simp: one_running_def sample_sched_simps sample_proc_def nth_Cons split: nat.splits)
  moreover have "\<forall>c. current_process ?s = Some c \<longrightarrow> c < length (process_table ?s) \<and> ticks_alloc (process_table ?s ! c) \<noteq> 0"
    by (simp add: sample_sched_simps sample_proc_def)
  ultimately show ?thesis using scheduler_tick_sound by blast
qed

text \<open>Removing the first process of a level with several members breaks the ring. The head moves on, but
  the last element still links to the removed process, whose own link is now null; the next
  \<^verbatim>\<open>scheduler_add\<close> at that priority walks over it and dereferences a null pointer.\<close>

theorem remove_head_breaks_ring:
  assumes "queues s qs" "prio_of p s = k" "qs ! k = p # x # xs"
  shows "\<exists>s'. scheduler_remove p s = Some (Inr s') \<and> run_queues s' ! k = Some x
    \<and> links s' (last (x # xs)) = Some p \<and> links s' p = None
    \<and> (\<forall>r. prio_of r s' = k \<longrightarrow> scheduler_add r s' = Some (Inl NullDeref))"
proof -
  have k: "k < 16" using prio_less[of p s] assms(2) by simp
  note D = queuesD[OF assms(1) k]
  have l: "linked (links s) (p # x # xs)" and h: "run_queues s ! k = Some p" and d: "distinct (p # x # xs)"
    using D(1,2) assms(3) by (simp_all add: ring_of_def)
  have nx: "links s p = Some x" "links s (last (x # xs)) = Some p" "successively (\<lambda>a b. links s a = Some b) (x # xs)"
    using l by (simp_all add: linked_def)
  have pl: "p < length (process_table s)" using D(3) assms(3) by simp
  let ?s = "set_next p None (set_head k (Some x) s)"
  have rm: "scheduler_remove p s = Some (Inr ?s)"
    using h nx(1) d assms(2) by (auto simp: scheduler_remove_def Let_def links_def find_before.simps[of _ _ p p])
  have ls: "links ?s = (links s)(p := None)" using pl by simp
  have "p \<noteq> last (x # xs)" using d by (metis distinct.simps(2) last_in_set list.distinct(1))
  then have la: "links ?s (last (x # xs)) = Some p" "links ?s p = None" using ls nx(2) by simp_all
  have "successively (\<lambda>a b. links ?s a = Some b) (x # xs) = successively (\<lambda>a b. links s a = Some b) (x # xs)"
    using d ls by (intro successively_cong_set) auto
  then have "successively (\<lambda>a b. links ?s a = Some b) (x # xs @ [p])"
    using nx(3) la(1) successively_append_iff[of _ "x # xs" "[p]"] by simp
  then have f: "find_tail (process_table ?s) x x = Some (Inl NullDeref)"
    using la(2) d by (intro find_tail_fault[of _ x "xs @ [p]"]) (simp_all add: links_def)
  have rq: "run_queues ?s ! k = Some x" using D(5) k by simp
  have "scheduler_add r ?s = Some (Inl NullDeref)" if "prio_of r ?s = k" for r
    using f rq that by (simp add: scheduler_add_def Let_def)
  with rm rq la show ?thesis by blast
qed

theorem remove_head_breaks_ring_witness:
  "\<exists>s'. scheduler_remove 0 sample_sched = Some (Inr s') \<and> scheduler_add 2 s' = Some (Inl NullDeref)"
proof -
  have p: "prio_of 0 sample_sched = 8" by (simp add: prio_of_def sample_sched_simps sample_proc_def)
  have "sample_queues ! 8 = 0 # 1 # []" by (simp add: sample_queues_def)
  from remove_head_breaks_ring[OF sample_sched_queues p this] obtain s' where
    s': "scheduler_remove 0 sample_sched = Some (Inr s')" "\<forall>r. prio_of r s' = 8 \<longrightarrow> scheduler_add r s' = Some (Inl NullDeref)" by blast
  have "s' = set_next 0 None (set_head 8 (Some 1) sample_sched)"
    using s'(1) by (simp add: scheduler_remove_def p find_before.simps[of _ _ 0 0] sample_sched_simps sample_proc_def)
  then have "prio_of 2 s' = 8" by (simp add: prio_of_def set_next_def set_slot_def set_head_def sample_sched_simps sample_proc_def)
  with s' show ?thesis by blast
qed

text \<open>Yielding does not give up the processor: it resets the slice counter to zero, so that the tick it then
  raises counts one, which is no multiple of any slice longer than one tick. Only processes of priority
  zero can yield.\<close>

theorem yield_keeps_running:
  assumes "current_process s = Some p" "p < length (process_table s)" "1 < ticks_alloc (process_table s ! p)"
  shows "\<exists>s'. scheduler_yield scheduler_tick s = Inr s' \<and> current_process s' = Some p \<and> switched s' = switched s"
proof -
  have "(1 :: u32) mod ticks_alloc (process_table s ! p) = 1"
    using assms(3) by (simp add: word_mod_less_divisor unat_mod word_less_nat_alt word_unat_eq_iff)
  moreover have "ticks_alloc (process_table s ! p) \<noteq> 0" using assms(3) by auto
  ultimately show ?thesis
    using assms by (auto simp: scheduler_yield_def scheduler_tick_def Let_def set_slot_def)
qed

theorem yield_keeps_running_witness:
  "\<exists>s'. scheduler_yield scheduler_tick (sample_sched\<lparr>current_process := Some 0, scheduler_active := True\<rparr>) = Inr s'
     \<and> current_process s' = Some 0"
  using yield_keeps_running[of "sample_sched\<lparr>current_process := Some 0, scheduler_active := True\<rparr>" 0]
  by (auto simp: sample_sched_simps sample_proc_def)

end
