(* ===== verification/Ledger_Queue.thy ===== *)
theory Ledger_Queue
  imports Luna_Prelude
begin

text \<open>
  The ring buffer of \<^verbatim>\<open>kernel/ledger_queue.c\<close> between the file system's hot path, which pushes
  events, and the background task, which pops them. Each operation is modelled whole, and shown to
  implement a bounded first-in first-out queue; the two operations are also split at their shared
  accesses into a step relation of one producer and one consumer that run concurrently.
\<close>

section \<open>State and operations\<close>

definition LEDGER_QUEUE_SIZE :: u32 where "LEDGER_QUEUE_SIZE = 1024"

definition QUEUE_MASK :: u32 where "QUEUE_MASK = LEDGER_QUEUE_SIZE - 1"

record LedgerEvent =
  ev_action_type :: u8
  ev_stream_id :: u8
  ev_timestamp :: u64
  ev_vfs_node_id :: u32
  ev_partial_hash :: u64
  ev_target :: "u8 list"

text \<open>An event of zero bytes.\<close>

definition zero_event :: LedgerEvent where
  "zero_event = \<lparr>ev_action_type = 0, ev_stream_id = 0, ev_timestamp = 0, ev_vfs_node_id = 0,
     ev_partial_hash = 0, ev_target = replicate 64 0\<rparr>"

record LedgerQueue =
  events :: "u32 \<Rightarrow> LedgerEvent"
  head :: u32
  tail :: u32

definition ledger_queue_init :: LedgerQueue where
  "ledger_queue_init = \<lparr>events = (\<lambda>_. zero_event), head = 0, tail = 0\<rparr>"

definition ledger_queue_push :: "LedgerQueue \<Rightarrow> LedgerEvent \<Rightarrow> bool \<times> LedgerQueue" where
  "ledger_queue_push lq ev =
     (let h = head lq; next = (h + 1) AND QUEUE_MASK in
      if next = tail lq then (False, lq)
      else
        let lq = lq\<lparr>events := (events lq)(h := ev)\<rparr>;
            lq = lq\<lparr>head := next\<rparr>
        in (True, lq))"

definition ledger_queue_pop :: "LedgerQueue \<Rightarrow> LedgerEvent option \<times> LedgerQueue" where
  "ledger_queue_pop lq =
     (let t = tail lq in
      if t = head lq then (None, lq)
      else
        let ev = events lq t
        in (Some ev, lq\<lparr>tail := (t + 1) AND QUEUE_MASK\<rparr>))"

definition ledger_queue_depth :: "LedgerQueue \<Rightarrow> u32" where
  "ledger_queue_depth lq = (head lq - tail lq) AND QUEUE_MASK"

section \<open>The queue as a list\<close>

definition queue_inv :: "LedgerQueue \<Rightarrow> bool" where
  "queue_inv lq \<longleftrightarrow> head lq < 1024 \<and> tail lq < 1024"

definition used_slots :: "u32 \<Rightarrow> u32 \<Rightarrow> nat" where
  "used_slots h t = (unat h + 1024 - unat t) mod 1024"

definition slot :: "u32 \<Rightarrow> nat \<Rightarrow> u32" where
  "slot t k = of_nat ((unat t + k) mod 1024)"

definition contents :: "LedgerQueue \<Rightarrow> LedgerEvent list" where
  "contents lq = map (\<lambda>k. events lq (slot (tail lq) k)) [0..<used_slots (head lq) (tail lq)]"

lemma mask_unat: "unat (x AND QUEUE_MASK) = unat x mod 1024"
proof -
  have "QUEUE_MASK = mask 10" by (simp add: QUEUE_MASK_def LEDGER_QUEUE_SIZE_def mask_eq_exp_minus_1)
  then show ?thesis using unat_and_mask[of x 10] by simp
qed

lemma next_unat: "h < 1024 \<Longrightarrow> unat ((h + 1) AND QUEUE_MASK) = (unat h + 1) mod 1024"
proof -
  assume "h < 1024"
  then have "unat (h + 1) = unat h + 1" using unat_inc[of h 1024] by (simp add: word_less_nat_alt)
  then show ?thesis by (simp add: mask_unat)
qed

lemma next_less: "(h + 1) AND QUEUE_MASK < 1024"
  by (simp add: word_less_nat_alt mask_unat)

lemma depth_used:
  assumes "queue_inv lq"
  shows "unat (ledger_queue_depth lq) = used_slots (head lq) (tail lq)"
proof -
  let ?h = "unat (head lq)" and ?t = "unat (tail lq)"
  have b: "?h < 1024" "?t < 1024" using assms by (simp_all add: queue_inv_def word_less_nat_alt)
  have "unat (head lq - tail lq) mod 1024 = (?h + 1024 - ?t) mod 1024"
  proof (cases "tail lq \<le> head lq")
    case True
    then have le: "?t \<le> ?h" by (simp add: word_le_nat_alt)
    have "?h + 1024 - ?t = (?h - ?t) + 1024" using le by simp
    then have "(?h + 1024 - ?t) mod 1024 = (?h - ?t) mod 1024" by (simp only: mod_add_self2)
    with True le show ?thesis by (simp add: unat_sub_if')
  next
    case False
    then have lt: "?h < ?t" by (simp add: word_le_nat_alt)
    have "?h + 4294967296 - ?t = (?h + 1024 - ?t) + 4194303 * 1024" using b lt by simp
    then have m: "(?h + 4294967296 - ?t) mod 1024 = (?h + 1024 - ?t) mod 1024" by (simp only: mod_mult_self3 mod_mult_self1)
    have "unat (head lq - tail lq) = ?h + 4294967296 - ?t" using lt by (simp add: unat_sub_if')
    then show ?thesis by (simp only: m)
  qed
  then show ?thesis by (simp add: ledger_queue_depth_def mask_unat used_slots_def)
qed

lemma length_contents: "queue_inv lq \<Longrightarrow> length (contents lq) = unat (ledger_queue_depth lq)"
  by (simp add: contents_def depth_used)

lemma used_slots_cases:
  "h < 1024 \<Longrightarrow> t < 1024 \<Longrightarrow>
   used_slots h t = (if unat t \<le> unat h then unat h - unat t else unat h + 1024 - unat t)"
  unfolding used_slots_def word_less_nat_alt by (auto simp: mod_if)

lemma next_cases: "h < 1024 \<Longrightarrow> unat ((h + 1) AND QUEUE_MASK) = (if unat h = 1023 then 0 else unat h + 1)"
  by (subst next_unat) (auto simp: word_less_nat_alt mod_if)

lemma used_slots_less: "used_slots h t < 1024"
  by (simp add: used_slots_def)

lemma used_slots_0: "h < 1024 \<Longrightarrow> t < 1024 \<Longrightarrow> used_slots h t = 0 \<longleftrightarrow> h = t"
  by (auto simp: used_slots_cases word_unat_eq_iff word_less_nat_alt split: if_splits)

lemma full_iff: "h < 1024 \<Longrightarrow> t < 1024 \<Longrightarrow> (h + 1) AND QUEUE_MASK = t \<longleftrightarrow> used_slots h t = 1023"
  by (auto simp: used_slots_cases next_cases word_unat_eq_iff[of "(h + 1) AND QUEUE_MASK"] word_less_nat_alt split: if_splits)

lemma used_slots_push:
  assumes "h < 1024" "t < 1024" "(h + 1) AND QUEUE_MASK \<noteq> t"
  shows "used_slots ((h + 1) AND QUEUE_MASK) t = used_slots h t + 1"
proof -
  have "unat ((h + 1) AND QUEUE_MASK) \<noteq> unat t" using assms(3) by (simp add: word_unat_eq_iff)
  then show ?thesis
    using assms(1,2) next_less[of h] by (auto simp: used_slots_cases next_cases word_less_nat_alt)
qed

lemma used_slots_pop:
  assumes "h < 1024" "t < 1024" "h \<noteq> t"
  shows "used_slots h t = used_slots h ((t + 1) AND QUEUE_MASK) + 1"
proof -
  have "unat h \<noteq> unat t" using assms(3) by (simp add: word_unat_eq_iff)
  then show ?thesis
    using assms(1,2) next_less[of t] by (auto simp: used_slots_cases next_cases word_less_nat_alt)
qed

lemma slot_unat: "unat (slot t k) = (unat t + k) mod 1024"
  unfolding slot_def by (intro unat_of_nat_eq_32) (simp add: less_trans[of _ 1024])

lemma slot_used: "h < 1024 \<Longrightarrow> t < 1024 \<Longrightarrow> slot t (used_slots h t) = h"
proof -
  assume b: "h < 1024" "t < 1024"
  have "unat (slot t (used_slots h t)) = unat h"
    unfolding slot_unat using b by (auto simp: used_slots_cases word_less_nat_alt mod_if)
  then show ?thesis by (simp add: word_unat_eq_iff)
qed

lemma slot_0: "t < 1024 \<Longrightarrow> slot t 0 = t"
  by (simp add: word_unat_eq_iff[of "slot t 0"] slot_unat word_less_nat_alt)

lemma slot_Suc: "t < 1024 \<Longrightarrow> slot t (Suc k) = slot ((t + 1) AND QUEUE_MASK) k"
  by (simp add: slot_def next_unat mod_simps)

lemma slot_inj: "k < 1024 \<Longrightarrow> l < 1024 \<Longrightarrow> slot t k = slot t l \<Longrightarrow> k = l"
proof -
  assume kl: "k < 1024" "l < 1024" "slot t k = slot t l"
  then have "(unat t + k) mod 1024 = (unat t + l) mod 1024" using slot_unat[of t k] slot_unat[of t l] by simp
  then have "k mod 1024 = l mod 1024" by (simp add: nat_mod_eq_iff)
  with kl show "k = l" by simp
qed

lemma contents_push:
  assumes inv: "queue_inv lq" and room: "(head lq + 1) AND QUEUE_MASK \<noteq> tail lq"
  shows "contents (lq\<lparr>events := (events lq)(head lq := ev), head := (head lq + 1) AND QUEUE_MASK\<rparr>) = contents lq @ [ev]"
proof -
  let ?d = "used_slots (head lq) (tail lq)"
  have b: "head lq < 1024" "tail lq < 1024" using inv by (simp_all add: queue_inv_def)
  have "slot (tail lq) k \<noteq> head lq" if "k < ?d" for k
    using slot_inj[of k ?d "tail lq"] slot_used[OF b] that used_slots_less[of "head lq" "tail lq"] by auto
  then show ?thesis using slot_used[OF b] used_slots_push[OF b room] by (simp add: contents_def)
qed

lemma contents_pop:
  assumes inv: "queue_inv lq" and ne: "tail lq \<noteq> head lq"
  shows "contents lq = events lq (tail lq) # contents (lq\<lparr>tail := (tail lq + 1) AND QUEUE_MASK\<rparr>)"
proof -
  have b: "head lq < 1024" "tail lq < 1024" using inv by (simp_all add: queue_inv_def)
  show ?thesis
    using used_slots_pop[OF b] ne slot_0[OF b(2)] slot_Suc[OF b(2)]
    by (auto simp: contents_def upt_conv_Cons map_Suc_upt [symmetric] simp del: upt_Suc)
qed

section \<open>The interface: a bounded queue\<close>

text \<open>A producer and a consumer of events, as operations on a queue.\<close>

datatype 'e qop = Push 'e | Pop

locale bounded_queue =
  fixes inv :: "'q \<Rightarrow> bool" and abs :: "'q \<Rightarrow> 'e list" and cap :: nat
    and push :: "'q \<Rightarrow> 'e \<Rightarrow> bool \<times> 'q" and pop :: "'q \<Rightarrow> 'e option \<times> 'q"
  assumes push: "inv q \<Longrightarrow> push q e = (b, q') \<Longrightarrow>
      inv q' \<and> (b \<longleftrightarrow> length (abs q) < cap) \<and> abs q' = (if b then abs q @ [e] else abs q)"
    and pop: "inv q \<Longrightarrow> pop q = (r, q') \<Longrightarrow>
      inv q' \<and> (case abs q of [] \<Rightarrow> r = None \<and> abs q' = [] | e # es \<Rightarrow> r = Some e \<and> abs q' = es)"

text \<open>Running a sequence of operations: the events accepted, the events delivered, the queue.\<close>

fun run_ops :: "('q \<Rightarrow> 'e \<Rightarrow> bool \<times> 'q) \<Rightarrow> ('q \<Rightarrow> 'e option \<times> 'q) \<Rightarrow> 'q \<Rightarrow> 'e qop list \<Rightarrow> 'e list \<times> 'e list \<times> 'q" where
  "run_ops psh pp q [] = ([], [], q)"
| "run_ops psh pp q (Push e # ops) =
     (let (b, q) = psh q e; (acc, del, q) = run_ops psh pp q ops in (if b then e # acc else acc, del, q))"
| "run_ops psh pp q (Pop # ops) =
     (let (r, q) = pp q; (acc, del, q) = run_ops psh pp q ops
      in (acc, case r of None \<Rightarrow> del | Some e \<Rightarrow> e # del, q))"

context bounded_queue
begin

lemma run_fifo:
  "inv q \<Longrightarrow> run_ops push pop q ops = (acc, del, q') \<Longrightarrow> inv q' \<and> abs q @ acc = del @ abs q'"
proof (induction ops arbitrary: q acc del q')
  case (Cons op ops)
  show ?case
  proof (cases op)
    case (Push e)
    obtain b q1 where p: "push q e = (b, q1)" by fastforce
    obtain acc1 del1 q2 where r: "run_ops push pop q1 ops = (acc1, del1, q2)" by (metis prod_cases3)
    note s = push[OF Cons.prems(1) p]
    have eq: "acc = (if b then e # acc1 else acc1)" "del = del1" "q' = q2"
      using Cons.prems(2) Push p r by auto
    from Cons.IH[OF conjunct1[OF s] r] s show ?thesis unfolding eq by auto
  next
    case Pop
    obtain x q1 where p: "pop q = (x, q1)" by fastforce
    obtain acc1 del1 q2 where r: "run_ops push pop q1 ops = (acc1, del1, q2)" by (metis prod_cases3)
    note s = pop[OF Cons.prems(1) p]
    have eq: "acc = acc1" "del = (case x of None \<Rightarrow> del1 | Some e \<Rightarrow> e # del1)" "q' = q2"
      using Cons.prems(2) Pop p r by auto
    from Cons.IH[OF conjunct1[OF s] r] s show ?thesis unfolding eq by (cases "abs q") auto
  qed
qed simp

end

lemma push_ok:
  assumes inv: "queue_inv lq" and p: "ledger_queue_push lq ev = (b, lq')"
  shows "queue_inv lq'" "b \<longleftrightarrow> length (contents lq) < 1023" "contents lq' = (if b then contents lq @ [ev] else contents lq)"
proof -
  have h: "head lq < 1024" "tail lq < 1024" using inv by (simp_all add: queue_inv_def)
  have len: "length (contents lq) = used_slots (head lq) (tail lq)" by (simp add: contents_def)
  show "b \<longleftrightarrow> length (contents lq) < 1023"
    using p full_iff[OF h] used_slots_less[of "head lq" "tail lq"] len
    by (auto simp: ledger_queue_push_def Let_def split: if_splits)
  show "queue_inv lq'" using p inv next_less by (auto simp: ledger_queue_push_def Let_def queue_inv_def split: if_splits)
  show "contents lq' = (if b then contents lq @ [ev] else contents lq)"
    using p contents_push[OF inv] by (auto simp: ledger_queue_push_def Let_def split: if_splits)
qed

lemma pop_ok:
  assumes inv: "queue_inv lq" and p: "ledger_queue_pop lq = (r, lq')"
  shows "queue_inv lq'"
    "case contents lq of [] \<Rightarrow> r = None \<and> contents lq' = [] | e # es \<Rightarrow> r = Some e \<and> contents lq' = es"
proof -
  have h: "head lq < 1024" "tail lq < 1024" using inv by (simp_all add: queue_inv_def)
  show "queue_inv lq'" using p inv next_less by (auto simp: ledger_queue_pop_def Let_def queue_inv_def split: if_splits)
  show "case contents lq of [] \<Rightarrow> r = None \<and> contents lq' = [] | e # es \<Rightarrow> r = Some e \<and> contents lq' = es"
  proof (cases "tail lq = head lq")
    case True
    then have "contents lq = []" using used_slots_0[OF h] by (simp add: contents_def)
    with True p show ?thesis by (simp add: ledger_queue_pop_def Let_def)
  next
    case False
    with p contents_pop[OF inv False] show ?thesis by (auto simp: ledger_queue_pop_def Let_def)
  qed
qed

interpretation lqq: bounded_queue queue_inv contents 1023 ledger_queue_push ledger_queue_pop
  by unfold_locales (use push_ok pop_ok in blast)+

lemma init_ok: "queue_inv ledger_queue_init" "contents ledger_queue_init = []"
  by (simp_all add: queue_inv_def ledger_queue_init_def contents_def used_slots_def)

section \<open>One producer and one consumer, interleaved\<close>

text \<open>Where each side stands inside its operation, with the local variables it holds. The compiler
  barriers keep the shared accesses in program order.\<close>

datatype producer = PIdle | PChecked LedgerEvent u32 u32 | PWritten LedgerEvent u32

datatype consumer = CIdle | CChecked u32 | CRead u32 LedgerEvent

record spsc =
  lqueue :: LedgerQueue
  prod :: producer
  cons :: consumer
  pushed :: "LedgerEvent list"
  popped :: "LedgerEvent list"

inductive spsc_step :: "spsc \<Rightarrow> spsc \<Rightarrow> bool" where
  p_full: "prod s = PIdle \<Longrightarrow> (head (lqueue s) + 1) AND QUEUE_MASK = tail (lqueue s) \<Longrightarrow> spsc_step s s"
| p_check: "prod s = PIdle \<Longrightarrow> h = head (lqueue s) \<Longrightarrow> nx = (h + 1) AND QUEUE_MASK \<Longrightarrow> nx \<noteq> tail (lqueue s) \<Longrightarrow>
    spsc_step s (s\<lparr>prod := PChecked ev h nx\<rparr>)"
| p_write: "prod s = PChecked ev h nx \<Longrightarrow>
    spsc_step s (s\<lparr>lqueue := (lqueue s)\<lparr>events := (events (lqueue s))(h := ev)\<rparr>, prod := PWritten ev nx\<rparr>)"
| p_publish: "prod s = PWritten ev nx \<Longrightarrow>
    spsc_step s (s\<lparr>lqueue := (lqueue s)\<lparr>head := nx\<rparr>, prod := PIdle, pushed := pushed s @ [ev]\<rparr>)"
| c_empty: "cons s = CIdle \<Longrightarrow> tail (lqueue s) = head (lqueue s) \<Longrightarrow> spsc_step s s"
| c_check: "cons s = CIdle \<Longrightarrow> tp = tail (lqueue s) \<Longrightarrow> tp \<noteq> head (lqueue s) \<Longrightarrow> spsc_step s (s\<lparr>cons := CChecked tp\<rparr>)"
| c_read: "cons s = CChecked tp \<Longrightarrow> spsc_step s (s\<lparr>cons := CRead tp (events (lqueue s) tp)\<rparr>)"
| c_advance: "cons s = CRead tp ev \<Longrightarrow>
    spsc_step s (s\<lparr>lqueue := (lqueue s)\<lparr>tail := (tp + 1) AND QUEUE_MASK\<rparr>, cons := CIdle, popped := popped s @ [ev]\<rparr>)"

definition spsc_init :: spsc where
  "spsc_init = \<lparr>lqueue = ledger_queue_init, prod = PIdle, cons = CIdle, pushed = [], popped = []\<rparr>"

inductive spsc_reachable :: "spsc \<Rightarrow> bool" where
  start: "spsc_reachable spsc_init"
| step: "spsc_reachable s \<Longrightarrow> spsc_step s s' \<Longrightarrow> spsc_reachable s'"

fun prod_ok :: "LedgerQueue \<Rightarrow> producer \<Rightarrow> bool" where
  "prod_ok lq PIdle \<longleftrightarrow> True"
| "prod_ok lq (PChecked ev h nx) \<longleftrightarrow> h = head lq \<and> nx = (head lq + 1) AND QUEUE_MASK \<and> nx \<noteq> tail lq"
| "prod_ok lq (PWritten ev nx) \<longleftrightarrow> nx = (head lq + 1) AND QUEUE_MASK \<and> nx \<noteq> tail lq \<and> events lq (head lq) = ev"

fun cons_ok :: "LedgerQueue \<Rightarrow> consumer \<Rightarrow> bool" where
  "cons_ok lq CIdle \<longleftrightarrow> True"
| "cons_ok lq (CChecked tp) \<longleftrightarrow> tp = tail lq \<and> tp \<noteq> head lq"
| "cons_ok lq (CRead tp ev) \<longleftrightarrow> tp = tail lq \<and> tp \<noteq> head lq \<and> ev = events lq tp"

definition spsc_inv :: "spsc \<Rightarrow> bool" where
  "spsc_inv s \<longleftrightarrow> queue_inv (lqueue s) \<and> pushed s = popped s @ contents (lqueue s)
     \<and> prod_ok (lqueue s) (prod s) \<and> cons_ok (lqueue s) (cons s)"

lemma contents_write_head:
  assumes "queue_inv lq"
  shows "contents (lq\<lparr>events := (events lq)(head lq := ev)\<rparr>) = contents lq"
proof -
  let ?d = "used_slots (head lq) (tail lq)"
  have b: "head lq < 1024" "tail lq < 1024" using assms by (simp_all add: queue_inv_def)
  have "slot (tail lq) k \<noteq> head lq" if "k < ?d" for k
    using slot_inj[of k ?d "tail lq"] slot_used[OF b] that used_slots_less[of "head lq" "tail lq"] by auto
  then show ?thesis by (simp add: contents_def)
qed

text \<open>After an advance of the tail there is still room.\<close>

lemma still_room:
  assumes "queue_inv lq" "tail lq \<noteq> head lq"
  shows "(head lq + 1) AND QUEUE_MASK \<noteq> (tail lq + 1) AND QUEUE_MASK"
proof -
  have b: "head lq < 1024" "tail lq < 1024" using assms by (simp_all add: queue_inv_def)
  have "used_slots (head lq) ((tail lq + 1) AND QUEUE_MASK) \<noteq> 1023"
    using used_slots_pop[OF b] assms(2) used_slots_less[of "head lq" "tail lq"] by auto
  then show ?thesis using full_iff[OF b(1) next_less] by blast
qed

lemma spsc_inv_step: "spsc_step s s' \<Longrightarrow> spsc_inv s \<Longrightarrow> spsc_inv s'"
proof (induction rule: spsc_step.induct)
  case (p_write s ev h nx)
  then show ?case using contents_write_head[of "lqueue s" ev]
    by (cases "cons s") (auto simp: spsc_inv_def queue_inv_def)
next
  case (p_publish s ev nx)
  let ?q = "lqueue s"
  have inv: "queue_inv ?q" and nx: "nx = (head ?q + 1) AND QUEUE_MASK" "nx \<noteq> tail ?q" "events ?q (head ?q) = ev"
    using p_publish by (auto simp: spsc_inv_def)
  have "?q\<lparr>events := (events ?q)(head ?q := ev)\<rparr> = ?q" using nx(3) by (cases ?q) auto
  then have "contents (?q\<lparr>head := nx\<rparr>) = contents ?q @ [ev]"
    using contents_push[OF inv, of ev] nx(1,2) by simp
  with p_publish nx next_less[of "head ?q"] show ?case
    by (cases "cons s") (auto simp: spsc_inv_def queue_inv_def)
next
  case (c_advance s tp ev)
  let ?q = "lqueue s"
  have inv: "queue_inv ?q" and t: "tp = tail ?q" "tp \<noteq> head ?q" "ev = events ?q tp"
    using c_advance by (auto simp: spsc_inv_def)
  with c_advance contents_pop[OF inv] still_room[OF inv] next_less[of tp] show ?case
    by (cases "prod s") (auto simp: spsc_inv_def queue_inv_def)
qed (auto simp: spsc_inv_def)

lemma spsc_inv_reachable: "spsc_reachable s \<Longrightarrow> spsc_inv s"
proof (induction rule: spsc_reachable.induct)
  case start
  show ?case using init_ok by (simp add: spsc_inv_def spsc_init_def)
qed (rule spsc_inv_step)

section \<open>Properties\<close>


text \<open>C9: The queue is correct under concurrency: in every state that one producer and one consumer reach
  by interleaving the shared accesses of push and pop in any order, the published events are exactly the
  consumed ones, in the same order, followed by the queued ones. No event is lost, duplicated, reordered
  or read half written.\<close>

theorem spsc_no_loss:
  assumes "spsc_reachable s"
  shows "pushed s = popped s @ contents (lqueue s) \<and> queue_inv (lqueue s)"
  using spsc_inv_reachable[OF assms] by (simp add: spsc_inv_def)

theorem spsc_no_loss_witness:
  "\<exists>s. spsc_reachable s \<and> pushed s = [zero_event] \<and> popped s @ contents (lqueue s) = [zero_event]"
proof -
  let ?s1 = "spsc_init\<lparr>prod := PChecked zero_event 0 1\<rparr>"
  let ?s2 = "?s1\<lparr>lqueue := (lqueue ?s1)\<lparr>events := (events (lqueue ?s1))(0 := zero_event)\<rparr>, prod := PWritten zero_event 1\<rparr>"
  let ?s3 = "?s2\<lparr>lqueue := (lqueue ?s2)\<lparr>head := 1\<rparr>, prod := PIdle, pushed := pushed ?s2 @ [zero_event]\<rparr>"
  have "spsc_step spsc_init ?s1"
    by (rule p_check) (simp_all add: spsc_init_def ledger_queue_init_def QUEUE_MASK_def LEDGER_QUEUE_SIZE_def)
  moreover have "spsc_step ?s1 ?s2" by (rule p_write) simp
  moreover have "spsc_step ?s2 ?s3" by (rule p_publish) simp
  ultimately have r: "spsc_reachable ?s3" using spsc_reachable.intros by blast
  moreover have "pushed ?s3 = [zero_event]" by (simp add: spsc_init_def)
  ultimately show ?thesis using spsc_no_loss[OF r] by metis
qed

end
