(* ===== verification/Hash.thy ===== *)
theory Hash
  imports C_String
begin

text \<open>
  \<^verbatim>\<open>kernel/hash.c\<close>: the FNV-1a hash of byte arrays and C strings, the SHA-256 compression
  function, the block loop with its in-place padding, and the hexadecimal rendering of digests.
  An input array is the list of its bytes. SHA-256 is compared with a definition that pads first
  and hashes afterwards, with the message schedule given by its recurrence.
\<close>

section \<open>FNV-1a\<close>

definition FNV_OFFSET_BASIS_64 :: u64 where
  "FNV_OFFSET_BASIS_64 = 0xCBF29CE484222325"

definition FNV_PRIME_64 :: u64 where
  "FNV_PRIME_64 = 0x00000100000001B3"

definition fnv1a_step :: "u64 \<Rightarrow> u8 \<Rightarrow> u64" where
  "fnv1a_step hash b = (hash XOR ucast b) * FNV_PRIME_64"

definition fnv1a_64 :: "u8 list \<Rightarrow> u64" where
  "fnv1a_64 data = foldl fnv1a_step FNV_OFFSET_BASIS_64 data"

partial_function (option) fnv1a_loop :: "mem \<Rightarrow> u32 \<Rightarrow> u64 \<Rightarrow> u64 option" where
  "fnv1a_loop m str hash =
     (if m str \<noteq> 0 then fnv1a_loop m (str + 1) (fnv1a_step hash (m str)) else Some hash)"

definition fnv1a_str :: "mem \<Rightarrow> u32 \<Rightarrow> u64 option" where
  "fnv1a_str m str = fnv1a_loop m str FNV_OFFSET_BASIS_64"

section \<open>SHA-256\<close>

definition K256 :: "u32 list" where
  "K256 =
     [
      0x428A2F98, 0x71374491, 0xB5C0FBCF, 0xE9B5DBA5,
      0x3956C25B, 0x59F111F1, 0x923F82A4, 0xAB1C5ED5,
      0xD807AA98, 0x12835B01, 0x243185BE, 0x550C7DC3,
      0x72BE5D74, 0x80DEB1FE, 0x9BDC06A7, 0xC19BF174,
      0xE49B69C1, 0xEFBE4786, 0x0FC19DC6, 0x240CA1CC,
      0x2DE92C6F, 0x4A7484AA, 0x5CB0A9DC, 0x76F988DA,
      0x983E5152, 0xA831C66D, 0xB00327C8, 0xBF597FC7,
      0xC6E00BF3, 0xD5A79147, 0x06CA6351, 0x14292967,
      0x27B70A85, 0x2E1B2138, 0x4D2C6DFC, 0x53380D13,
      0x650A7354, 0x766A0ABB, 0x81C2C92E, 0x92722C85,
      0xA2BFE8A1, 0xA81A664B, 0xC24B8B70, 0xC76C51A3,
      0xD192E819, 0xD6990624, 0xF40E3585, 0x106AA070,
      0x19A4C116, 0x1E376C08, 0x2748774C, 0x34B0BCB5,
      0x391C0CB3, 0x4ED8AA4A, 0x5B9CCA4F, 0x682E6FF3,
      0x748F82EE, 0x78A5636F, 0x84C87814, 0x8CC70208,
      0x90BEFFFA, 0xA4506CEB, 0xBEF9A3F7, 0xC67178F2]"

definition H0 :: "u32 list" where
  "H0 =
     [
      0x6A09E667, 0xBB67AE85, 0x3C6EF372, 0xA54FF53A,
      0x510E527F, 0x9B05688C, 0x1F83D9AB, 0x5BE0CD19]"

definition ROTR32 :: "u32 \<Rightarrow> nat \<Rightarrow> u32" where
  "ROTR32 x n = drop_bit n x OR push_bit (32 - n) x"

definition SHA256_CH :: "u32 \<Rightarrow> u32 \<Rightarrow> u32 \<Rightarrow> u32" where
  "SHA256_CH e f g = (e AND f) XOR (NOT e AND g)"

definition SHA256_MAJ :: "u32 \<Rightarrow> u32 \<Rightarrow> u32 \<Rightarrow> u32" where
  "SHA256_MAJ a b c = (a AND b) XOR (a AND c) XOR (b AND c)"

definition SHA256_EP0 :: "u32 \<Rightarrow> u32" where
  "SHA256_EP0 a = ROTR32 a 2 XOR ROTR32 a 13 XOR ROTR32 a 22"

definition SHA256_EP1 :: "u32 \<Rightarrow> u32" where
  "SHA256_EP1 e = ROTR32 e 6 XOR ROTR32 e 11 XOR ROTR32 e 25"

definition SHA256_SIG0 :: "u32 \<Rightarrow> u32" where
  "SHA256_SIG0 x = ROTR32 x 7 XOR ROTR32 x 18 XOR drop_bit 3 x"

definition SHA256_SIG1 :: "u32 \<Rightarrow> u32" where
  "SHA256_SIG1 x = ROTR32 x 17 XOR ROTR32 x 19 XOR drop_bit 10 x"

text \<open>The message schedule: sixteen big-endian words of the block, then one new word per turn.\<close>

definition block_word :: "u8 list \<Rightarrow> nat \<Rightarrow> u32" where
  "block_word block i =
     push_bit 24 (ucast (block ! (i * 4 + 0))) OR push_bit 16 (ucast (block ! (i * 4 + 1)))
     OR push_bit 8 (ucast (block ! (i * 4 + 2))) OR ucast (block ! (i * 4 + 3))"

fun schedule_from :: "nat \<Rightarrow> u32 list \<Rightarrow> u32 list" where
  "schedule_from 0 w = w"
| "schedule_from (Suc k) w =
     (let i = length w in
      schedule_from k (w @ [SHA256_SIG1 (w ! (i - 2)) + w ! (i - 7) + SHA256_SIG0 (w ! (i - 15)) + w ! (i - 16)]))"

definition schedule :: "u8 list \<Rightarrow> u32 list" where
  "schedule block = schedule_from 48 (map (block_word block) [0..<16])"

text \<open>The eight working variables, in the order \<open>a\<close> to \<open>h\<close>.\<close>

type_synonym sha_vars = "u32 \<times> u32 \<times> u32 \<times> u32 \<times> u32 \<times> u32 \<times> u32 \<times> u32"

fun sha_round :: "sha_vars \<Rightarrow> u32 \<times> u32 \<Rightarrow> sha_vars" where
  "sha_round (a, b, c, d, e, f, g, h) (k, w) =
     (let t1 = h + SHA256_EP1 e + SHA256_CH e f g + k + w;
          t2 = SHA256_EP0 a + SHA256_MAJ a b c
      in (t1 + t2, a, b, c, d + t1, e, f, g))"

definition sha256_transform :: "u32 list \<Rightarrow> u8 list \<Rightarrow> u32 list" where
  "sha256_transform state block =
     (let w = schedule block;
          (a, b, c, d, e, f, g, h) =
            foldl sha_round (state ! 0, state ! 1, state ! 2, state ! 3,
                             state ! 4, state ! 5, state ! 6, state ! 7) (zip K256 w)
      in [state ! 0 + a, state ! 1 + b, state ! 2 + c, state ! 3 + d,
          state ! 4 + e, state ! 5 + f, state ! 6 + g, state ! 7 + h])"

text \<open>The loop over full blocks returns the state and the bytes that remain.\<close>

function sha256_full_blocks :: "u32 list \<Rightarrow> u8 list \<Rightarrow> u32 list \<times> u8 list" where
  "sha256_full_blocks state data =
     (if length data \<ge> 64 then sha256_full_blocks (sha256_transform state (take 64 data)) (drop 64 data)
      else (state, data))"
  by pat_completeness auto
termination
  by (relation "measure (\<lambda>(state, data). length data)") auto

declare sha256_full_blocks.simps [simp del]

definition be_bytes64 :: "u64 \<Rightarrow> u8 list" where
  "be_bytes64 x = map (\<lambda>s. ucast (drop_bit s x)) [56, 48, 40, 32, 24, 16, 8, 0]"

definition be_bytes32 :: "u32 \<Rightarrow> u8 list" where
  "be_bytes32 x = map (\<lambda>s. ucast (drop_bit s x)) [24, 16, 8, 0]"

definition sha256 :: "u8 list \<Rightarrow> u8 list" where
  "sha256 data =
     (let bit_len = (of_nat (length data) :: u64) * 8;
          (state1, tail) = sha256_full_blocks H0 data;
          block1 = tail @ [0x80];
          (state2, block2) =
            (if length block1 > 56
             then (sha256_transform state1 (block1 @ replicate (64 - length block1) 0), [])
             else (state1, block1));
          block3 = block2 @ replicate (56 - length block2) 0 @ be_bytes64 bit_len;
          state3 = sha256_transform state2 block3
      in concat (map be_bytes32 state3))"

section \<open>Hexadecimal\<close>

definition HEX_TABLE :: "u8 list" where
  "HEX_TABLE = bytes_of ''0123456789abcdef''"

definition hex_byte :: "u8 \<Rightarrow> u8 list" where
  "hex_byte b = [HEX_TABLE ! unat (drop_bit 4 b AND 0xF), HEX_TABLE ! unat (b AND 0xF)]"

text \<open>The 65 bytes written into the caller's buffer.\<close>

definition sha256_to_hex :: "u8 list \<Rightarrow> u8 list" where
  "sha256_to_hex digest = concat (map hex_byte digest) @ [0]"

section \<open>Reference definitions\<close>

text \<open>Padding done in one go: the marker byte, zeros up to eight bytes short of a block boundary,
  the length in bits; then the blocks are folded into the initial state.\<close>

definition sha_pad :: "u8 list \<Rightarrow> u8 list" where
  "sha_pad data = data @ 0x80 # replicate ((119 - length data mod 64) mod 64) 0
     @ be_bytes64 (of_nat (8 * length data))"

fun blocks64 :: "u8 list \<Rightarrow> u8 list list" where
  "blocks64 xs = (if length xs < 64 then [] else take 64 xs # blocks64 (drop 64 xs))"

declare blocks64.simps [simp del]

definition sha256_spec :: "u8 list \<Rightarrow> u8 list" where
  "sha256_spec data = concat (map be_bytes32 (foldl sha256_transform H0 (blocks64 (sha_pad data))))"

text \<open>The message schedule by its recurrence.\<close>

fun W_spec :: "u8 list \<Rightarrow> nat \<Rightarrow> u32" where
  "W_spec block t =
     (if t < 16 then block_word block t
      else SHA256_SIG1 (W_spec block (t - 2)) + W_spec block (t - 7)
         + SHA256_SIG0 (W_spec block (t - 15)) + W_spec block (t - 16))"

declare W_spec.simps [simp del]

fun hex_value :: "u8 \<Rightarrow> u8" where
  "hex_value c = (if c \<le> 0x39 then c - 0x30 else c - 0x57)"

fun hex_decode :: "u8 list \<Rightarrow> u8 list" where
  "hex_decode (h # l # cs) = (push_bit 4 (hex_value h) OR hex_value l) # hex_decode cs"
| "hex_decode _ = []"

section \<open>FNV-1a: equivalence and sensitivity\<close>

lemma fnv1a_loop_cstr: "cstr m p xs \<Longrightarrow> fnv1a_loop m p h = Some (foldl fnv1a_step h xs)"
proof (induction xs arbitrary: p h)
  case Nil
  then show ?case by (simp add: fnv1a_loop.simps)
next
  case (Cons x xs)
  then show ?case by (simp add: fnv1a_loop.simps[of m p])
qed

lemma fnv1a_str_cstr: "cstr m p xs \<Longrightarrow> fnv1a_str m p = Some (fnv1a_64 xs)"
  by (simp add: fnv1a_str_def fnv1a_64_def fnv1a_loop_cstr)

text \<open>The prime is odd, hence invertible modulo \<open>2\<^sup>64\<close>, so a round is a bijection of the state.\<close>

lemma fnv_prime_cancel: "x * FNV_PRIME_64 = y * FNV_PRIME_64 \<longleftrightarrow> x = y"
proof
  assume "x * FNV_PRIME_64 = y * FNV_PRIME_64"
  then have "x * (FNV_PRIME_64 * 0xCE965057AFF6957B) = y * (FNV_PRIME_64 * 0xCE965057AFF6957B)"
    by (simp only: mult.assoc [symmetric])
  moreover have "FNV_PRIME_64 * 0xCE965057AFF6957B = 1" by (simp add: FNV_PRIME_64_def)
  ultimately show "x = y" by simp
qed simp

lemma xor_cancel: "h XOR x = h XOR y \<longleftrightarrow> x = (y :: 'a::len word)"
  by (metis xor.assoc xor.left_neutral xor_self_eq)

lemma fnv1a_step_inj_hash: "fnv1a_step h b = fnv1a_step h' b \<longleftrightarrow> h = h'"
  by (simp add: fnv1a_step_def fnv_prime_cancel xor.commute[of _ "ucast b"] xor_cancel)

lemma fnv1a_step_inj_byte: "fnv1a_step h b = fnv1a_step h b' \<longleftrightarrow> b = b'"
proof -
  have narrow: "ucast (ucast c :: u64) = c" for c :: u8
    by (rule bit_word_eqI) (simp add: bit_simps)
  have "(ucast b :: u64) = ucast b' \<longleftrightarrow> b = b'"
    using narrow[of b] narrow[of b'] by metis
  then show ?thesis by (simp add: fnv1a_step_def fnv_prime_cancel xor_cancel)
qed

lemma fnv1a_fold_inj: "foldl fnv1a_step h xs = foldl fnv1a_step h' xs \<longleftrightarrow> h = h'"
  by (induction xs arbitrary: h h') (auto simp: fnv1a_step_inj_hash)

lemma fnv1a_one_byte:
  "fnv1a_64 (xs @ a # ys) = fnv1a_64 (xs @ b # ys) \<longleftrightarrow> a = b"
  by (simp add: fnv1a_64_def fnv1a_fold_inj fnv1a_step_inj_byte)

section \<open>SHA-256: the streaming code computes the padded definition\<close>

lemma be_bytes64_length [simp]: "length (be_bytes64 x) = 8"
  by (simp add: be_bytes64_def)

lemma be_bytes32_length [simp]: "length (be_bytes32 x) = 4"
  by (simp add: be_bytes32_def)

lemma blocks64_short: "length xs < 64 \<Longrightarrow> blocks64 xs = []"
  by (simp add: blocks64.simps)

lemma blocks64_append: "length b = 64 \<Longrightarrow> blocks64 (b @ xs) = b # blocks64 xs"
  by (subst blocks64.simps) simp

lemma sha256_full_blocks_spec:
  "sha256_full_blocks st data = (st', tl') \<Longrightarrow>
   foldl sha256_transform st (blocks64 (data @ z)) = foldl sha256_transform st' (blocks64 (tl' @ z))
   \<and> length tl' = length data mod 64"
proof (induction st data rule: sha256_full_blocks.induct)
  case (1 st data)
  show ?case
  proof (cases "64 \<le> length data")
    case True
    have "blocks64 (data @ z) = take 64 data # blocks64 (drop 64 data @ z)"
      using True blocks64_append[of "take 64 data" "drop 64 data @ z"]
      by (simp flip: append_assoc)
    moreover have "sha256_full_blocks (sha256_transform st (take 64 data)) (drop 64 data) = (st', tl')"
      using "1.prems" True by (subst (asm) sha256_full_blocks.simps) simp
    ultimately show ?thesis
      using "1.IH"[OF True] True by (simp add: le_mod_geq)
  next
    case False
    then show ?thesis
      using "1.prems" by (subst (asm) sha256_full_blocks.simps) simp
  qed
qed

lemma sha_final_blocks:
  assumes r: "length t < 64" and l: "length l8 = 8"
  shows "blocks64 (t @ 0x80 # replicate ((119 - length t) mod 64) 0 @ l8) =
    (if length t + 1 > 56
     then [t @ [0x80] @ replicate (63 - length t) 0, replicate 56 0 @ l8]
     else [t @ [0x80] @ replicate (55 - length t) 0 @ l8])"
proof (cases "length t + 1 > 56")
  case True
  define A where "A = t @ [0x80] @ replicate (63 - length t) 0"
  define B where "B = replicate 56 0 @ l8"
  have "length A = 64" "length B = 64" using True r l by (simp_all add: A_def B_def)
  then have "blocks64 (A @ B @ []) = [A, B]" by (simp add: blocks64_append blocks64_short del: append_Nil2)
  moreover have "(119 - length t) mod 64 = (63 - length t) + 56" using True r by simp
  then have "t @ 0x80 # replicate ((119 - length t) mod 64) 0 @ l8 = A @ B @ []"
    by (simp only: replicate_add) (simp add: A_def B_def)
  ultimately have "blocks64 (t @ 0x80 # replicate ((119 - length t) mod 64) 0 @ l8) = [A, B]"
    by (simp only:)
  then show ?thesis using True by (simp add: A_def B_def)
next
  case False
  define A where "A = t @ [0x80] @ replicate (55 - length t) 0 @ l8"
  have "length A = 64" using False l by (simp add: A_def)
  then have "blocks64 (A @ []) = [A]" by (simp add: blocks64_append blocks64_short del: append_Nil2)
  moreover have "(119 - length t) mod 64 = 55 - length t" using False by (simp add: mod_if)
  then have "t @ 0x80 # replicate ((119 - length t) mod 64) 0 @ l8 = A @ []"
    by (simp only: append_Nil2) (simp add: A_def)
  ultimately have "blocks64 (t @ 0x80 # replicate ((119 - length t) mod 64) 0 @ l8) = [A]"
    by (simp only:)
  then show ?thesis using False by (simp add: A_def)
qed

lemma sha256_eq_spec: "sha256 data = sha256_spec data"
proof -
  obtain st t where f: "sha256_full_blocks H0 data = (st, t)" by fastforce
  let ?l = "be_bytes64 (of_nat (8 * length data))"
  let ?z = "0x80 # replicate ((119 - length data mod 64) mod 64) 0 @ ?l"
  have fold: "foldl sha256_transform H0 (blocks64 (data @ ?z)) = foldl sha256_transform st (blocks64 (t @ ?z))"
    and len: "length t = length data mod 64"
    using sha256_full_blocks_spec[OF f] by blast+
  have "length t < 64" using len by simp
  note final = sha_final_blocks[OF this be_bytes64_length, unfolded len]
  have bl: "(of_nat (length data) :: u64) * 8 = of_nat (8 * length data)" by simp
  show ?thesis
    unfolding sha256_spec_def sha_pad_def fold final
    by (simp add: sha256_def f Let_def bl len)
qed

lemma sha256_length: "length (sha256 data) = 32"
  by (simp add: sha256_def Let_def sha256_transform_def split: prod.splits)

text \<open>The schedule built by appending agrees with the recurrence, entry by entry.\<close>

lemma schedule_from_W:
  "16 \<le> length w \<Longrightarrow> (\<forall>i < length w. w ! i = W_spec block i) \<Longrightarrow>
   length (schedule_from k w) = length w + k \<and>
   (\<forall>i < length w + k. schedule_from k w ! i = W_spec block i)"
proof (induction k arbitrary: w)
  case 0
  then show ?case by simp
next
  case (Suc k)
  let ?i = "length w"
  let ?w = "w @ [SHA256_SIG1 (w ! (?i - 2)) + w ! (?i - 7) + SHA256_SIG0 (w ! (?i - 15)) + w ! (?i - 16)]"
  have "\<forall>i < length ?w. ?w ! i = W_spec block i"
    using Suc.prems by (auto simp: nth_append less_Suc_eq W_spec.simps[of block ?i])
  with Suc.IH[of ?w] Suc.prems(1) show ?case by (simp add: Let_def)
qed

lemma schedule_nth: "t < 64 \<Longrightarrow> schedule block ! t = W_spec block t"
  using schedule_from_W[of "map (block_word block) [0..<16]" block 48]
  by (simp add: schedule_def W_spec.simps[of block])

lemma schedule_length: "length (schedule block) = 64"
  using schedule_from_W[of "map (block_word block) [0..<16]" block 48]
  by (simp add: schedule_def W_spec.simps[of block])

section \<open>Hexadecimal rendering is reversible\<close>

lemma hex_value_table: "n < 16 \<Longrightarrow> hex_value (HEX_TABLE ! n) = of_nat n"
proof -
  have "\<forall>n \<in> set [0..<16]. hex_value (HEX_TABLE ! n) = of_nat n"
    unfolding HEX_TABLE_def bytes_of_def by (simp add: upt_rec)
  then show "n < 16 \<Longrightarrow> ?thesis" by simp
qed

lemma hex_byte_decode: "hex_decode (hex_byte b @ cs) = b # hex_decode cs"
proof -
  have m: "(0xF :: u8) = mask 4" by (simp add: mask_eq_exp_minus_1)
  have lt: "unat (x AND 0xF) < 16" for x :: u8
    unfolding m unat_and_mask by simp
  have "push_bit 4 (drop_bit 4 b AND 0xF) OR (b AND 0xF) = b"
    unfolding m by (rule bit_word_eqI) (auto simp: bit_simps not_le)
  then show ?thesis by (simp add: hex_byte_def hex_value_table[OF lt] del: hex_value.simps)
qed

lemma hex_decode_to_hex: "hex_decode (sha256_to_hex ds) = ds"
proof -
  have "hex_decode (concat (map hex_byte ds) @ [0]) = ds"
  proof (induction ds)
    case (Cons d ds)
    then show ?case using hex_byte_decode[of d] by simp
  qed simp
  then show ?thesis by (simp add: sha256_to_hex_def)
qed

lemma sha256_to_hex_length: "length (sha256_to_hex ds) = 2 * length ds + 1"
  by (induction ds) (simp_all add: sha256_to_hex_def hex_byte_def)

section \<open>Properties\<close>



text \<open>The hexadecimal form written by \<^verbatim>\<open>sha256_to_hex\<close> is two characters for each digest byte and
  a terminator, and reading it back gives the digest: no information is lost.\<close>

theorem hex_round_trip:
  "hex_decode (sha256_to_hex ds) = ds \<and> length (sha256_to_hex ds) = 2 * length ds + 1"
  by (simp add: hex_decode_to_hex sha256_to_hex_length)

end
