(* ===== verification/Ledger.thy ===== *)
theory Ledger
  imports Ledger_Queue Hash
begin

text \<open>
  The forensic ledger of \<^verbatim>\<open>kernel/ledger.c\<close>: an array of blocks that carry the SHA-256 digest of
  their own fields and the digests of up to two earlier blocks, filled by the background task from the
  event queue. Text arguments are represented by their characters.
\<close>

section \<open>State and operations\<close>

definition LEDGER_TARGET_LEN :: nat where "LEDGER_TARGET_LEN = 64"

definition LEDGER_MAX_BLOCKS :: u32 where "LEDGER_MAX_BLOCKS = 4096"

definition LEDGER_ACTION_GENESIS :: u8 where "LEDGER_ACTION_GENESIS = 0"
definition LEDGER_ACTION_VFS_READ :: u8 where "LEDGER_ACTION_VFS_READ = 2"
definition LEDGER_ACTION_VFS_WRITE :: u8 where "LEDGER_ACTION_VFS_WRITE = 3"
definition LEDGER_STREAM_KERNEL :: u8 where "LEDGER_STREAM_KERNEL = 0"

text \<open>The block of \<^verbatim>\<open>kernel/ledger.h\<close>; its last field is the digest of all others.\<close>

record LedgerBlock =
  index :: u32
  timestamp :: u64
  action_type :: u8
  stream_id :: u8
  parent_count :: u8
  reserved8 :: u8
  target :: "u8 list"
  prev_hash0 :: "u8 list"
  prev_hash1 :: "u8 list"
  block_hash :: "u8 list"

text \<open>The 144 bytes in front of the digest, in memory order; the fields are contiguous on the 32-bit
  target.\<close>

definition encode :: "LedgerBlock \<Rightarrow> u8 list" where
  "encode b = to_le 4 (index b) @ to_le 8 (timestamp b)
     @ [action_type b, stream_id b, parent_count b, reserved8 b]
     @ target b @ prev_hash0 b @ prev_hash1 b"

definition zero_block :: LedgerBlock where
  "zero_block = \<lparr>index = 0, timestamp = 0, action_type = 0, stream_id = 0, parent_count = 0, reserved8 = 0,
     target = replicate LEDGER_TARGET_LEN 0, prev_hash0 = replicate 32 0, prev_hash1 = replicate 32 0,
     block_hash = replicate 32 0\<rparr>"

record ledger =
  ledger_blocks :: "u32 \<Rightarrow> LedgerBlock"
  ledger_count :: u32
  ledger_head_idx :: u32
  stream_head :: "u32 list"
  lq :: LedgerQueue

definition ledger_genesis :: "ledger \<Rightarrow> ledger" where
  "ledger_genesis s =
     (let b = zero_block\<lparr>index := 0, timestamp := 0, action_type := LEDGER_ACTION_GENESIS, stream_id := 0,
                 parent_count := 0\<rparr>;
          b = b\<lparr>target := strncpy_into (target b) (bytes_of ''LUNA_OS_GENESIS'') (LEDGER_TARGET_LEN - 1)\<rparr>;
          b = b\<lparr>block_hash := sha256 (encode b)\<rparr>
      in s\<lparr>ledger_blocks := (ledger_blocks s)(0 := b), ledger_count := 1, ledger_head_idx := 0, stream_head := [0, 0]\<rparr>)"

definition ledger_init :: "ledger \<Rightarrow> ledger" where
  "ledger_init s = ledger_genesis (s\<lparr>lq := ledger_queue_init\<rparr>)"

definition ledger_enqueue :: "ledger \<Rightarrow> u8 \<Rightarrow> u8 \<Rightarrow> u8 list \<Rightarrow> u64 \<Rightarrow> ledger" where
  "ledger_enqueue s action strm tgt ts =
     (let ev = \<lparr>ev_action_type = action, ev_stream_id = strm, ev_timestamp = ts,
               ev_vfs_node_id = ucast (fnv1a_64 tgt AND 0xFFFFFFFF),
               ev_partial_hash = fnv1a_64 tgt,
               ev_target = (strncpy_into (replicate LEDGER_TARGET_LEN 0) tgt (LEDGER_TARGET_LEN - 1))
                             [LEDGER_TARGET_LEN - 1 := 0]\<rparr>
      in s\<lparr>lq := snd (ledger_queue_push (lq s) ev)\<rparr>)"

text \<open>The body of the loop of \<^verbatim>\<open>ledger_flush_task\<close> for one event.\<close>

definition add_block :: "ledger \<Rightarrow> LedgerEvent \<Rightarrow> ledger" where
  "add_block s ev =
     (let s = (if ledger_count s \<ge> LEDGER_MAX_BLOCKS then s\<lparr>ledger_count := 1\<rparr> else s);
          n = ledger_count s;
          sid = unat (ev_stream_id ev AND 1);
          other = unat ((ev_stream_id ev AND 1) XOR 1);
          b = zero_block\<lparr>index := n, timestamp := ev_timestamp ev, action_type := ev_action_type ev,
                stream_id := ev_stream_id ev\<rparr>;
          b = b\<lparr>target := strncpy_into (target b) (chars (ev_target ev)) (LEDGER_TARGET_LEN - 1), parent_count := 1\<rparr>;
          bs = (ledger_blocks s)(n := b);
          b = b\<lparr>prev_hash0 := block_hash (bs (stream_head s ! sid))\<rparr>;
          b = (if stream_head s ! 0 \<noteq> stream_head s ! 1
               then b\<lparr>parent_count := 2, prev_hash1 := block_hash (bs (stream_head s ! other))\<rparr> else b);
          b = b\<lparr>block_hash := sha256 (encode b)\<rparr>
      in s\<lparr>ledger_blocks := (ledger_blocks s)(n := b), stream_head := (stream_head s)[sid := n],
           ledger_head_idx := n, ledger_count := n + 1\<rparr>)"

partial_function (option) ledger_flush_task :: "ledger \<Rightarrow> ledger option" where
  [code]: "ledger_flush_task s =
     (case ledger_queue_pop (lq s) of
        (None, q) \<Rightarrow> Some s
      | (Some ev, q) \<Rightarrow> ledger_flush_task (add_block (s\<lparr>lq := q\<rparr>) ev))"

definition ledger_get_count :: "ledger \<Rightarrow> u32" where
  "ledger_get_count s = ledger_count s"

definition ledger_get_block :: "ledger \<Rightarrow> u32 \<Rightarrow> LedgerBlock option" where
  "ledger_get_block s idx = (if idx \<ge> ledger_count s then None else Some (ledger_blocks s idx))"

text \<open>The check of block \<open>i\<close>: its digest, and the scan for its first parent among the blocks before it.\<close>

definition verify_block :: "ledger \<Rightarrow> nat \<Rightarrow> bool" where
  "verify_block s i =
     (let b = ledger_blocks s (of_nat i) in
      sha256 (encode b) = block_hash b \<and>
      (parent_count b > 0 \<longrightarrow> list_ex (\<lambda>j. block_hash (ledger_blocks s (of_nat j)) = prev_hash0 b) [0..<i]))"

definition ledger_verify_chain :: "ledger \<Rightarrow> bool" where
  "ledger_verify_chain s = list_all (verify_block s) [1..<unat (ledger_count s)]"

section \<open>The chain invariant\<close>

definition chain_inv :: "ledger \<Rightarrow> bool" where
  "chain_inv s \<longleftrightarrow> 1 \<le> unat (ledger_count s) \<and> unat (ledger_count s) \<le> 4096 \<and> length (stream_head s) = 2
     \<and> (\<forall>h \<in> set (stream_head s). unat h < unat (ledger_count s)) \<and> queue_inv (lq s) \<and> ledger_verify_chain s"

lemma verify_chain_iff:
  "ledger_verify_chain s \<longleftrightarrow> (\<forall>i. 1 \<le> i \<and> i < unat (ledger_count s) \<longrightarrow> verify_block s i)"
  by (auto simp: ledger_verify_chain_def list_all_iff)

lemma verify_chain_digest:
  "ledger_verify_chain s \<Longrightarrow> 1 \<le> i \<Longrightarrow> i < unat (ledger_count s) \<Longrightarrow>
   sha256 (encode (ledger_blocks s (of_nat i))) = block_hash (ledger_blocks s (of_nat i))"
  by (simp add: verify_chain_iff verify_block_def Let_def)

lemma init_inv: "chain_inv (ledger_init s)"
  by (simp add: chain_inv_def ledger_init_def ledger_genesis_def Let_def init_ok ledger_verify_chain_def)

lemma enqueue_inv:
  assumes "chain_inv s"
  shows "chain_inv (ledger_enqueue s a st tg ts)"
    "length (contents (lq (ledger_enqueue s a st tg ts))) \<le> length (contents (lq s)) + 1"
proof -
  obtain ev where e: "ledger_enqueue s a st tg ts = s\<lparr>lq := snd (ledger_queue_push (lq s) ev)\<rparr>"
    by (simp add: ledger_enqueue_def Let_def)
  obtain b q where p: "ledger_queue_push (lq s) ev = (b, q)" by fastforce
  have "queue_inv (lq s)" using assms by (simp add: chain_inv_def)
  note q = push_ok[OF this p]
  from assms q show "chain_inv (ledger_enqueue s a st tg ts)"
    by (simp add: e p chain_inv_def verify_chain_iff verify_block_def)
  from q(3) show "length (contents (lq (ledger_enqueue s a st tg ts))) \<le> length (contents (lq s)) + 1"
    by (simp add: e p)
qed

text \<open>The digest of a block depends only on its encoded fields.\<close>

lemma encode_hash [simp]: "encode (b\<lparr>block_hash := h\<rparr>) = encode b"
  by (simp add: encode_def)

lemma add_block_count:
  assumes "unat (ledger_count s) < 4096"
  shows "ledger_count (add_block s ev) = ledger_count s + 1" "lq (add_block s ev) = lq s"
    "unat (ledger_count (add_block s ev)) = unat (ledger_count s) + 1"
proof -
  have "\<not> ledger_count s \<ge> LEDGER_MAX_BLOCKS" using assms by (simp add: LEDGER_MAX_BLOCKS_def word_le_nat_alt)
  then show c: "ledger_count (add_block s ev) = ledger_count s + 1" "lq (add_block s ev) = lq s"
    by (simp_all add: add_block_def Let_def)
  show "unat (ledger_count (add_block s ev)) = unat (ledger_count s) + 1"
    unfolding c using assms unat_inc[of "ledger_count s" 4096] by simp
qed

lemma sid_less: "unat ((x :: u8) AND 1) < 2" "unat (((x :: u8) AND 1) XOR 1) < 2"
  by (simp_all add: and_one_eq mod_2_eq_odd)

lemma add_block_old:
  assumes "unat (ledger_count s) < 4096" "k < unat (ledger_count s)"
  shows "ledger_blocks (add_block s ev) (of_nat k) = ledger_blocks s (of_nat k)"
proof -
  have "\<not> ledger_count s \<ge> LEDGER_MAX_BLOCKS" using assms(1) by (simp add: LEDGER_MAX_BLOCKS_def word_le_nat_alt)
  moreover have "of_nat k \<noteq> ledger_count s"
  proof
    assume "of_nat k = ledger_count s"
    then have "unat (of_nat k :: u32) = unat (ledger_count s)" by simp
    with assms show False by (simp add: unat_of_nat_eq_32)
  qed
  ultimately show ?thesis by (simp add: add_block_def Let_def)
qed

lemma add_block_new:
  fixes s :: ledger and ev :: LedgerEvent
  assumes inv: "chain_inv s" and lt: "unat (ledger_count s) < 4096"
  defines "b \<equiv> ledger_blocks (add_block s ev) (ledger_count s)"
  shows "block_hash b = sha256 (encode b)" "prev_hash0 b = block_hash (ledger_blocks s (stream_head s ! unat (ev_stream_id ev AND 1)))"
    "index b = ledger_count s" "timestamp b = ev_timestamp ev" "action_type b = ev_action_type ev" "stream_id b = ev_stream_id ev"
    "target b = strncpy_into (replicate 64 0) (chars (ev_target ev)) 63"
    "stream_head (add_block s ev) = (stream_head s)[unat (ev_stream_id ev AND 1) := ledger_count s]"
proof -
  let ?sid = "unat (ev_stream_id ev AND 1)"
  have c: "\<not> ledger_count s \<ge> LEDGER_MAX_BLOCKS" using lt by (simp add: LEDGER_MAX_BLOCKS_def word_le_nat_alt)
  have "stream_head s ! ?sid \<in> set (stream_head s)" using inv sid_less by (intro nth_mem) (simp add: chain_inv_def)
  then have "unat (stream_head s ! ?sid) < unat (ledger_count s)" using inv by (simp add: chain_inv_def)
  then have "stream_head s ! ?sid \<noteq> ledger_count s" by auto
  with c show "block_hash b = sha256 (encode b)" "prev_hash0 b = block_hash (ledger_blocks s (stream_head s ! ?sid))"
    "index b = ledger_count s" "timestamp b = ev_timestamp ev" "action_type b = ev_action_type ev" "stream_id b = ev_stream_id ev"
    "target b = strncpy_into (replicate 64 0) (chars (ev_target ev)) 63"
    "stream_head (add_block s ev) = (stream_head s)[?sid := ledger_count s]"
    by (simp_all add: b_def add_block_def Let_def zero_block_def LEDGER_TARGET_LEN_def)
qed

lemma add_block_inv:
  assumes inv: "chain_inv s" and lt: "unat (ledger_count s) < 4096"
  shows "chain_inv (add_block s ev)"
proof -
  let ?s = "add_block s ev" and ?n = "unat (ledger_count s)" and ?sid = "unat (ev_stream_id ev AND 1)"
  note cnt = add_block_count[OF lt, of ev] and new = add_block_new[OF inv lt, of ev]
  have old: "verify_block ?s i = verify_block s i" if "i < ?n" for i
  proof -
    have "list_ex (\<lambda>j. block_hash (ledger_blocks ?s (of_nat j)) = h) [0..<i] =
        list_ex (\<lambda>j. block_hash (ledger_blocks s (of_nat j)) = h) [0..<i]" for h
      using that add_block_old[OF lt] by (auto simp: list_ex_iff)
    then show ?thesis using add_block_old[OF lt that] by (simp add: verify_block_def Let_def)
  qed
  have hd_in: "stream_head s ! ?sid \<in> set (stream_head s)" using inv sid_less by (intro nth_mem) (simp add: chain_inv_def)
  then have hd_lt: "unat (stream_head s ! ?sid) < ?n" using inv by (simp add: chain_inv_def)
  have "verify_block ?s ?n"
  proof -
    have "block_hash (ledger_blocks ?s (of_nat (unat (stream_head s ! ?sid)))) = prev_hash0 (ledger_blocks ?s (ledger_count s))"
      unfolding new(2) add_block_old[OF lt hd_lt] by simp
    then have "list_ex (\<lambda>j. block_hash (ledger_blocks ?s (of_nat j)) = prev_hash0 (ledger_blocks ?s (ledger_count s))) [0..<?n]"
      using hd_lt by (auto simp: list_ex_iff intro!: bexI[of _ "unat (stream_head s ! ?sid)"])
    then show ?thesis using new(1) by (simp add: verify_block_def Let_def)
  qed
  with old inv have "ledger_verify_chain ?s"
    by (auto simp: verify_chain_iff chain_inv_def cnt(3) less_Suc_eq)
  moreover have "\<forall>h \<in> set (stream_head ?s). unat h < unat (ledger_count ?s)"
  proof
    fix h assume "h \<in> set (stream_head ?s)"
    then have "h = ledger_count s \<or> h \<in> set (stream_head s)"
      unfolding new(8) using set_update_subset_insert by fastforce
    with inv cnt(3) show "unat h < unat (ledger_count ?s)" by (auto simp: chain_inv_def)
  qed
  ultimately show ?thesis using inv lt cnt new(8) by (simp add: chain_inv_def)
qed

text \<open>Draining the queue. What a block records of the event it was made from:\<close>

definition recorded :: "LedgerBlock \<Rightarrow> u8 \<times> u8 \<times> u64 \<times> u8 list" where
  "recorded b = (action_type b, stream_id b, timestamp b, target b)"

definition event_record :: "LedgerEvent \<Rightarrow> u8 \<times> u8 \<times> u64 \<times> u8 list" where
  "event_record ev = (ev_action_type ev, ev_stream_id ev, ev_timestamp ev,
     strncpy_into (replicate 64 0) (chars (ev_target ev)) 63)"

lemma flush_ok:
  "chain_inv s \<Longrightarrow> unat (ledger_count s) + length (contents (lq s)) \<le> 4096 \<Longrightarrow>
   \<exists>s'. ledger_flush_task s = Some s' \<and> chain_inv s' \<and> contents (lq s') = []
     \<and> unat (ledger_count s') = unat (ledger_count s) + length (contents (lq s))
     \<and> (\<forall>k < unat (ledger_count s). ledger_blocks s' (of_nat k) = ledger_blocks s (of_nat k))
     \<and> map (\<lambda>k. recorded (ledger_blocks s' (of_nat k))) [unat (ledger_count s)..<unat (ledger_count s')] =
         map event_record (contents (lq s))"
proof (induction "length (contents (lq s))" arbitrary: s)
  case 0
  obtain r q where p: "ledger_queue_pop (lq s) = (r, q)" by fastforce
  have qi: "queue_inv (lq s)" using 0 by (simp add: chain_inv_def)
  have e: "contents (lq s) = []" using 0 by simp
  have "r = None" using pop_ok(2)[OF qi p] e by simp
  with p have "ledger_flush_task s = Some s" by (simp add: ledger_flush_task.simps)
  with 0 e show ?case by simp
next
  case (Suc n)
  obtain r q where p: "ledger_queue_pop (lq s) = (r, q)" by fastforce
  have qi: "queue_inv (lq s)" using Suc by (simp add: chain_inv_def)
  obtain ev es where e: "contents (lq s) = ev # es" using Suc.hyps(2) by (cases "contents (lq s)") auto
  have r: "r = Some ev" "contents q = es" "queue_inv q" using pop_ok[OF qi p] e by simp_all
  let ?s = "s\<lparr>lq := q\<rparr>"
  have inv1: "chain_inv ?s" using Suc.prems(1) r(3) by (simp add: chain_inv_def verify_chain_iff verify_block_def)
  have lt: "unat (ledger_count ?s) < 4096" using Suc.prems(2) e by simp
  note cnt = add_block_count[OF lt, of ev] and new = add_block_new[OF inv1 lt, of ev]
  have "\<exists>s'. ledger_flush_task (add_block ?s ev) = Some s' \<and> chain_inv s' \<and> contents (lq s') = []
     \<and> unat (ledger_count s') = unat (ledger_count (add_block ?s ev)) + length (contents (lq (add_block ?s ev)))
     \<and> (\<forall>k < unat (ledger_count (add_block ?s ev)). ledger_blocks s' (of_nat k) = ledger_blocks (add_block ?s ev) (of_nat k))
     \<and> map (\<lambda>k. recorded (ledger_blocks s' (of_nat k))) [unat (ledger_count (add_block ?s ev))..<unat (ledger_count s')] =
         map event_record (contents (lq (add_block ?s ev)))"
    using Suc.hyps(2) Suc.prems(2) e r cnt by (intro Suc.hyps(1) add_block_inv[OF inv1 lt]) simp_all
  then obtain s' where s': "ledger_flush_task (add_block ?s ev) = Some s'" "chain_inv s'" "contents (lq s') = []"
     "unat (ledger_count s') = unat (ledger_count s) + 1 + length es"
     "\<forall>k < unat (ledger_count s) + 1. ledger_blocks s' (of_nat k) = ledger_blocks (add_block ?s ev) (of_nat k)"
     "map (\<lambda>k. recorded (ledger_blocks s' (of_nat k))) [Suc (unat (ledger_count s))..<unat (ledger_count s')] = map event_record es"
    using cnt r(2) by auto
  have fl: "ledger_flush_task s = Some s'" using s'(1) p r(1) by (simp add: ledger_flush_task.simps[of s])
  have keep: "ledger_blocks s' (of_nat k) = ledger_blocks s (of_nat k)" if "k < unat (ledger_count s)" for k
    using s'(5) that add_block_old[OF lt, of k ev] by simp
  have "recorded (ledger_blocks s' (of_nat (unat (ledger_count s)))) = event_record ev"
    using s'(5)[rule_format, of "unat (ledger_count s)"] new(4-7) by (simp add: recorded_def event_record_def)
  then have "map (\<lambda>k. recorded (ledger_blocks s' (of_nat k))) [unat (ledger_count s)..<unat (ledger_count s')] =
      event_record ev # map event_record es"
    using s'(4,6) by (subst upt_conv_Cons) simp_all
  with fl s'(2,3,4) keep e show ?case by auto
qed

text \<open>The events enqueued since the last flush keep their order; a run of the ledger's two entry points.\<close>

datatype lop = Enqueue u8 u8 "u8 list" u64 | Flush

fun run_ledger :: "ledger \<Rightarrow> lop list \<Rightarrow> ledger option" where
  "run_ledger s [] = Some s"
| "run_ledger s (Enqueue a st tg ts # ops) = run_ledger (ledger_enqueue s a st tg ts) ops"
| "run_ledger s (Flush # ops) = (case ledger_flush_task s of None \<Rightarrow> None | Some s \<Rightarrow> run_ledger s ops)"

fun enqueues :: "lop list \<Rightarrow> nat" where
  "enqueues [] = 0"
| "enqueues (Enqueue a st tg ts # ops) = Suc (enqueues ops)"
| "enqueues (Flush # ops) = enqueues ops"

lemma enqueue_count [simp]: "ledger_count (ledger_enqueue s a st tg ts) = ledger_count s"
  by (simp add: ledger_enqueue_def Let_def)

lemma run_ledger_ok:
  "chain_inv s \<Longrightarrow> unat (ledger_count s) + length (contents (lq s)) + enqueues ops \<le> 4096 \<Longrightarrow>
   \<exists>s'. run_ledger s ops = Some s' \<and> chain_inv s'"
proof (induction s ops rule: run_ledger.induct)
  case (2 s a st tg ts ops)
  then show ?case using enqueue_inv[OF 2(2), of a st tg ts] by simp
next
  case (3 s ops)
  have "unat (ledger_count s) + length (contents (lq s)) \<le> 4096" using 3(3) by simp
  from flush_ok[OF 3(2) this] obtain s' where "ledger_flush_task s = Some s'" "chain_inv s'"
    "contents (lq s') = []" "unat (ledger_count s') = unat (ledger_count s) + length (contents (lq s))" by blast
  with 3 show ?case by simp
qed simp

subsection \<open>What the digest covers\<close>

definition block_wf :: "LedgerBlock \<Rightarrow> bool" where
  "block_wf b \<longleftrightarrow> length (target b) = 64 \<and> length (prev_hash0 b) = 32 \<and> length (prev_hash1 b) = 32"

lemma to_le_inj: "LENGTH('a) \<le> 8 * n \<Longrightarrow> to_le n (v :: 'a::len word) = to_le n w \<Longrightarrow> v = w"
  by (metis of_le_to_le)

lemma encode_inj:
  assumes "block_wf b" "block_wf c" "encode b = encode c"
  shows "b\<lparr>block_hash := h\<rparr> = c\<lparr>block_hash := h\<rparr>"
proof -
  have parts: "to_le 4 (index b) = to_le 4 (index c)" "to_le 8 (timestamp b) = to_le 8 (timestamp c)"
    "action_type b = action_type c" "stream_id b = stream_id c" "parent_count b = parent_count c"
    "reserved8 b = reserved8 c" "target b = target c" "prev_hash0 b = prev_hash0 c" "prev_hash1 b = prev_hash1 c"
    using assms by (simp_all add: encode_def block_wf_def)
  have "index b = index c" "timestamp b = timestamp c"
    using to_le_inj[OF _ parts(1)] to_le_inj[OF _ parts(2)] by simp_all
  with parts show ?thesis by (cases b, cases c) simp
qed

lemma encode_length: "block_wf b \<Longrightarrow> length (encode b) = 144"
  by (simp add: encode_def block_wf_def)

section \<open>Properties\<close>

text \<open>C12: As long as at most 4095 events are enqueued after initialisation, every interleaving of
  \<^verbatim>\<open>ledger_enqueue\<close> and \<^verbatim>\<open>ledger_flush_task\<close> returns (the drain loop ends) and leaves a ledger that
  \<^verbatim>\<open>ledger_verify_chain\<close> accepts.\<close>

theorem ledger_chain_verifies:
  assumes "enqueues ops \<le> 4095"
  shows "\<exists>s'. run_ledger (ledger_init s) ops = Some s' \<and> ledger_verify_chain s'"
proof -
  have "unat (ledger_count (ledger_init s)) = 1" "contents (lq (ledger_init s)) = []"
    by (simp_all add: ledger_init_def ledger_genesis_def Let_def init_ok)
  with run_ledger_ok[OF init_inv, of s ops] assms show ?thesis by (auto simp: chain_inv_def)
qed

definition blank_ledger :: ledger where
  "blank_ledger = \<lparr>ledger_blocks = (\<lambda>_. zero_block), ledger_count = 0, ledger_head_idx = 0, stream_head = [0, 0],
     lq = ledger_queue_init\<rparr>"

theorem ledger_chain_verifies_witness:
  "\<exists>s'. run_ledger (ledger_init blank_ledger) [Enqueue 3 0 (bytes_of ''/etc/motd'') 7, Flush] = Some s' \<and> ledger_verify_chain s'"
  using ledger_chain_verifies[of "[Enqueue 3 0 (bytes_of ''/etc/motd'') 7, Flush]" blank_ledger] by simp

text \<open>A flush empties the queue and appends one block for each queued event, in queue order, with
  its action, stream, time and target, while every earlier block stays as it was.\<close>

theorem ledger_flush_appends:
  assumes "chain_inv s" "unat (ledger_count s) + length (contents (lq s)) \<le> 4096"
  shows "\<exists>s'. ledger_flush_task s = Some s' \<and> contents (lq s') = []
     \<and> unat (ledger_count s') = unat (ledger_count s) + length (contents (lq s))
     \<and> (\<forall>k < unat (ledger_count s). ledger_blocks s' (of_nat k) = ledger_blocks s (of_nat k))
     \<and> map (\<lambda>k. recorded (ledger_blocks s' (of_nat k))) [unat (ledger_count s)..<unat (ledger_count s')] =
         map event_record (contents (lq s))"
  using flush_ok[OF assms] by blast

theorem ledger_flush_appends_witness:
  "\<exists>s'. ledger_flush_task (ledger_init blank_ledger) = Some s' \<and> unat (ledger_count s') = 1"
proof -
  have "unat (ledger_count (ledger_init blank_ledger)) = 1" "contents (lq (ledger_init blank_ledger)) = []"
    by (simp_all add: ledger_init_def ledger_genesis_def Let_def init_ok)
  with ledger_flush_appends[OF init_inv, of blank_ledger] show ?thesis by auto
qed


definition one_block :: LedgerBlock where
  "one_block = (let b = zero_block\<lparr>index := 1, parent_count := 1\<rparr> in b\<lparr>block_hash := sha256 (encode b)\<rparr>)"

definition sample_ledger :: ledger where
  "sample_ledger = blank_ledger\<lparr>ledger_blocks := (\<lambda>_. zero_block)(1 := one_block), ledger_count := 2\<rparr>"

lemma sample_ledger_ok: "ledger_verify_chain sample_ledger"
  by (simp add: verify_chain_iff verify_block_def Let_def sample_ledger_def blank_ledger_def one_block_def
      zero_block_def less_2_cases_iff list_ex_iff) (auto simp: encode_def)


text \<open>The genesis block is outside the check: its contents can be replaced at will, as long as the stored
  digest stays, and verification gives the same answer; its own digest is never recomputed. The second
  parent digest of a block is covered by the block's digest but never looked up.\<close>

theorem genesis_never_checked:
  assumes "block_hash b = block_hash (ledger_blocks s 0)" "unat (ledger_count s) \<le> 4096"
  shows "ledger_verify_chain (s\<lparr>ledger_blocks := (ledger_blocks s)(0 := b)\<rparr>) = ledger_verify_chain s"
proof -
  let ?s = "s\<lparr>ledger_blocks := (ledger_blocks s)(0 := b)\<rparr>"
  have h: "block_hash (ledger_blocks ?s j) = block_hash (ledger_blocks s j)" for j using assms(1) by simp
  have "of_nat i \<noteq> (0 :: u32)" if i: "1 \<le> i" "i < 4096" for i
  proof
    assume "of_nat i = (0 :: u32)"
    then have "unat (of_nat i :: u32) = 0" by simp
    with i show False by (simp add: unat_of_nat_eq_32)
  qed
  then have "verify_block ?s i = verify_block s i" if "1 \<le> i" "i < unat (ledger_count s)" for i
    using that assms(2) h by (simp add: verify_block_def Let_def)
  then show ?thesis by (simp add: verify_chain_iff)
qed

theorem genesis_never_checked_witness:
  "ledger_verify_chain (sample_ledger\<lparr>ledger_blocks := (ledger_blocks sample_ledger)(0 := zero_block\<lparr>timestamp := 9\<rparr>)\<rparr>)"
proof -
  have "unat (ledger_count sample_ledger) \<le> 4096" "block_hash (zero_block\<lparr>timestamp := 9\<rparr>) = block_hash (ledger_blocks sample_ledger 0)"
    by (simp_all add: sample_ledger_def)
  from genesis_never_checked[OF this(2,1)] sample_ledger_ok show ?thesis by simp
qed



end
