(* ===== verification/Printf.thy ===== *)
theory Printf
  imports Luna_Prelude
begin

text \<open>
  Number conversion and formatting, the last part of \<^verbatim>\<open>kernel/string.c\<close>. Strings are lists of
  characters without the terminator. The variable arguments are the 32-bit stack slots in order; a
  64-bit argument takes two slots, and taking one that was not passed is a fault. The formatter
  collects the bytes it stores into the buffer; the string behind a pointer argument is given by the
  parameter \<open>str_at\<close>.
\<close>

section \<open>Parsing numbers\<close>

definition is_digit :: "u8 \<Rightarrow> bool" where
  "is_digit c \<longleftrightarrow> 0x30 \<le> c \<and> c \<le> 0x39"

text \<open>The accumulation \<^verbatim>\<open>val = val * 10 + (*s++ - '0')\<close> in a signed type with maximum \<open>mx\<close>; overflow is
  undefined in C.\<close>

fun acc_digits :: "int \<Rightarrow> int \<Rightarrow> u8 list \<Rightarrow> int result" where
  "acc_digits mx v [] = Inr v"
| "acc_digits mx v (c # cs) =
     (if is_digit c then
        let v = v * 10 + (uint c - 0x30) in if v > mx then Inl SignedOverflow else acc_digits mx v cs
      else Inr v)"

definition skip_blanks :: "u8 list \<Rightarrow> u8 list" where
  "skip_blanks s = dropWhile (\<lambda>c. c = 0x20 \<or> c = 0x09) s"

definition luna_atoi :: "u8 list \<Rightarrow> int result" where
  "luna_atoi s =
     (let s = skip_blanks s in
      case s of
        c # cs \<Rightarrow>
          if c = 0x2D then rbind (acc_digits 2147483647 0 cs) (\<lambda>v. Inr (- v))
          else if c = 0x2B then acc_digits 2147483647 0 cs
          else acc_digits 2147483647 0 s
      | [] \<Rightarrow> Inr 0)"

definition luna_atoll :: "u8 list \<Rightarrow> int result" where
  "luna_atoll s =
     (let s = skip_blanks s in
      case s of
        c # cs \<Rightarrow>
          if c = 0x2D then rbind (acc_digits 9223372036854775807 0 cs) (\<lambda>v. Inr (- v))
          else acc_digits 9223372036854775807 0 s
      | [] \<Rightarrow> Inr 0)"

text \<open>The value of a digit up to \<^verbatim>\<open>f\<close>.\<close>

definition digit_value :: "u8 \<Rightarrow> nat option" where
  "digit_value c =
     (if is_digit c then Some (unat c - 0x30)
      else if 0x61 \<le> c \<and> c \<le> 0x66 then Some (unat c - 0x61 + 10)
      else if 0x41 \<le> c \<and> c \<le> 0x46 then Some (unat c - 0x41 + 10)
      else None)"

fun strtoul_loop :: "nat \<Rightarrow> u32 \<Rightarrow> u8 list \<Rightarrow> u32 \<times> u8 list" where
  "strtoul_loop base result [] = (result, [])"
| "strtoul_loop base result (c # cs) =
     (case digit_value c of
        None \<Rightarrow> (result, c # cs)
      | Some d \<Rightarrow>
          if d \<ge> base then (result, c # cs)
          else strtoul_loop base (result * of_nat base + of_nat d) cs)"

text \<open>The result and the rest of the string, to which \<^verbatim>\<open>*end\<close> points.\<close>

definition luna_strtoul :: "u8 list \<Rightarrow> nat \<Rightarrow> u32 \<times> u8 list" where
  "luna_strtoul s base =
     (let s = dropWhile (\<lambda>c. c = 0x20) s;
          s = (if base = 16 \<and> length s \<ge> 2 \<and> s ! 0 = 0x30 \<and> (s ! 1 = 0x78 \<or> s ! 1 = 0x58) then drop 2 s else s)
      in strtoul_loop base 0 s)"

section \<open>Formatting\<close>

definition write_char :: "nat \<Rightarrow> u8 list \<Rightarrow> u8 \<Rightarrow> u8 list" where
  "write_char mx out c = (if length out < mx - 1 then out @ [c] else out)"

definition write_all :: "nat \<Rightarrow> u8 list \<Rightarrow> u8 list \<Rightarrow> u8 list" where
  "write_all mx out cs = foldl (write_char mx) out cs"

definition write_str :: "nat \<Rightarrow> u8 list \<Rightarrow> u8 list \<Rightarrow> nat \<Rightarrow> u8 list" where
  "write_str mx out s width = write_all mx (write_all mx out (replicate (width - length s) 0x20)) s"

text \<open>The digits of a number, least significant first, as the loop stores them in \<^verbatim>\<open>tmp\<close>.\<close>

fun rev_digits :: "nat \<Rightarrow> nat \<Rightarrow> nat list" where
  "rev_digits base v = (if v = 0 \<or> base < 2 then [] else v mod base # rev_digits base (v div base))"

declare rev_digits.simps [simp del]

definition digit_char :: "bool \<Rightarrow> nat \<Rightarrow> u8" where
  "digit_char upper d = (if d < 10 then of_nat (0x30 + d) else if upper then of_nat (0x41 + d - 10) else of_nat (0x61 + d - 10))"

definition write_uint :: "nat \<Rightarrow> u8 list \<Rightarrow> u64 \<Rightarrow> nat \<Rightarrow> bool \<Rightarrow> nat \<Rightarrow> u8 \<Rightarrow> u8 list" where
  "write_uint mx out val base upper width pad_ch =
     (let tmp = (if val = 0 then [0x30] else map (digit_char upper) (rev_digits base (unat val)));
          out = write_all mx out (replicate (width - length tmp) pad_ch)
      in write_all mx out (rev tmp))"

text \<open>The width after a percent sign; the accumulation overflows like any signed sum.\<close>

fun parse_width :: "nat \<Rightarrow> u8 list \<Rightarrow> (nat \<times> u8 list) result" where
  "parse_width w [] = Inr (w, [])"
| "parse_width w (c # cs) =
     (if is_digit c then
        let w = w * 10 + (unat c - 0x30) in if w > 2147483647 then Inl SignedOverflow else parse_width w cs
      else Inr (w, c # cs))"

lemma parse_width_length: "parse_width w cs = Inr (w', ds) \<Longrightarrow> length ds \<le> length cs"
  by (induction w cs rule: parse_width.induct) (auto simp: Let_def le_Suc_eq split: if_splits)

text \<open>Taking variable arguments.\<close>

fun arg32 :: "u32 list \<Rightarrow> (u32 \<times> u32 list) result" where
  "arg32 (a # as) = Inr (a, as)"
| "arg32 [] = Inl MissingArgument"

fun arg64 :: "u32 list \<Rightarrow> (u64 \<times> u32 list) result" where
  "arg64 (lo # hi # as) = Inr (ucast lo OR push_bit 32 (ucast hi), as)"
| "arg64 _ = Inl MissingArgument"

text \<open>A signed number: the minus sign comes before the padding, and negating the smallest value
  overflows.\<close>

definition write_int :: "nat \<Rightarrow> u8 list \<Rightarrow> 'a::len word \<Rightarrow> nat \<Rightarrow> u8 \<Rightarrow> u8 list result" where
  "write_int mx out v width pad_ch =
     (if sint v < 0 then
        if sint v = - (2 ^ (LENGTH('a) - 1)) then Inl SignedOverflow
        else Inr (write_uint mx (write_char mx out 0x2D) (of_int (- sint v)) 10 False width pad_ch)
      else Inr (write_uint mx out (of_int (sint v)) 10 False width pad_ch))"

text \<open>The \<^verbatim>\<open>switch\<close> on the conversion character \<open>c\<close> with \<open>fmt\<close> behind it: the new output, the remaining
  arguments and the remaining format.\<close>

definition conversion ::
  "(u32 \<Rightarrow> u8 list) \<Rightarrow> nat \<Rightarrow> u8 list \<Rightarrow> u32 list \<Rightarrow> u8 \<Rightarrow> nat \<Rightarrow> u8 \<Rightarrow> u8 list \<Rightarrow> (u8 list \<times> u32 list \<times> u8 list) result" where
  "conversion str_at mx out args pad_ch width c fmt =
     (if c = 0x73 then
        rbind (arg32 args) (\<lambda>(s, args).
          Inr (write_str mx out (if s \<noteq> 0 then str_at s else bytes_of ''(null)'') width, args, fmt))
      else if c = 0x63 then
        rbind (arg32 args) (\<lambda>(a, args). Inr (write_char mx out (ucast a), args, fmt))
      else if c = 0x64 then
        rbind (arg32 args) (\<lambda>(a, args). rbind (write_int mx out a width pad_ch) (\<lambda>out. Inr (out, args, fmt)))
      else if c = 0x75 then
        rbind (arg32 args) (\<lambda>(a, args). Inr (write_uint mx out (ucast a) 10 False width pad_ch, args, fmt))
      else if c = 0x78 then
        rbind (arg32 args) (\<lambda>(a, args). Inr (write_uint mx out (ucast a) 16 False width pad_ch, args, fmt))
      else if c = 0x58 then
        rbind (arg32 args) (\<lambda>(a, args). Inr (write_uint mx out (ucast a) 16 True width pad_ch, args, fmt))
      else if c = 0x70 then
        let out = write_char mx (write_char mx out 0x30) 0x78 in
        rbind (arg32 args) (\<lambda>(a, args). Inr (write_uint mx out (ucast a) 16 False 8 0x30, args, fmt))
      else if c = 0x6C then
        (case fmt of
           [] \<Rightarrow> Inl OutOfBounds
         | spec # fmt \<Rightarrow>
             if spec = 0x75 then
               rbind (arg64 args) (\<lambda>(a, args). Inr (write_uint mx out a 10 False width pad_ch, args, fmt))
             else if spec = 0x78 then
               rbind (arg64 args) (\<lambda>(a, args). Inr (write_uint mx out a 16 False width pad_ch, args, fmt))
             else if spec = 0x64 then
               rbind (arg64 args) (\<lambda>(a, args). rbind (write_int mx out a width pad_ch) (\<lambda>out. Inr (out, args, fmt)))
             else Inr (out, args, fmt))
      else if c = 0x25 then Inr (write_char mx out 0x25, args, fmt)
      else Inr (write_char mx out 0x3F, args, fmt))"

lemma conversion_length:
  "conversion str_at mx out args pad w c fmt = Inr (out', args', fmt') \<Longrightarrow> length fmt' \<le> length fmt"
  by (auto simp: conversion_def rbind_Inr_iff Let_def split: if_splits list.splits)

text \<open>Everything from the percent sign to the end of the conversion. A format that ends inside a
  conversion makes the source read behind its terminator.\<close>

definition directive ::
  "(u32 \<Rightarrow> u8 list) \<Rightarrow> nat \<Rightarrow> u8 list \<Rightarrow> u32 list \<Rightarrow> u8 list \<Rightarrow> (u8 list \<times> u32 list \<times> u8 list) result" where
  "directive str_at mx out args fmt =
     (let (pad_ch, fmt) = (case fmt of c # cs \<Rightarrow> if c = 0x30 then (0x30, cs) else (0x20, fmt) | [] \<Rightarrow> (0x20, fmt)) in
      rbind (parse_width 0 fmt) (\<lambda>(width, fmt).
        case fmt of
          [] \<Rightarrow> Inl OutOfBounds
        | c # fmt \<Rightarrow> conversion str_at mx out args pad_ch width c fmt))"

lemma directive_length:
  assumes "directive str_at mx out args fmt = Inr (out', args', fmt')"
  shows "length fmt' < length fmt"
proof -
  obtain pad f1 where f1: "(case fmt of c # cs \<Rightarrow> if c = 0x30 then (0x30 :: u8, cs) else (0x20, fmt) | [] \<Rightarrow> (0x20, fmt)) = (pad, f1)"
    by fastforce
  have l1: "length f1 \<le> length fmt" using f1 by (auto split: list.splits if_splits)
  from assms have "rbind (parse_width 0 f1) (\<lambda>(width, fmt). case fmt of [] \<Rightarrow> Inl OutOfBounds
      | c # fmt \<Rightarrow> conversion str_at mx out args pad width c fmt) = Inr (out', args', fmt')"
    by (simp only: directive_def f1 Let_def prod.case)
  then obtain w f' where "parse_width 0 f1 = Inr (w, f')"
    "(case f' of [] \<Rightarrow> Inl OutOfBounds | c # fmt \<Rightarrow> conversion str_at mx out args pad w c fmt) = Inr (out', args', fmt')"
    by (auto simp: rbind_Inr_iff)
  then obtain c f2 where "parse_width 0 f1 = Inr (w, c # f2)"
    "conversion str_at mx out args pad w c f2 = Inr (out', args', fmt')"
    by (cases f') auto
  with parse_width_length[of 0 f1 w "c # f2"] conversion_length l1 show ?thesis by fastforce
qed

function snprintf_loop :: "(u32 \<Rightarrow> u8 list) \<Rightarrow> nat \<Rightarrow> u8 list \<Rightarrow> u32 list \<Rightarrow> u8 list \<Rightarrow> u8 list result" where
  "snprintf_loop str_at mx out args fmt =
     (if fmt = [] \<or> length out \<ge> mx - 1 then Inr out
      else if hd fmt \<noteq> 0x25 then snprintf_loop str_at mx (write_char mx out (hd fmt)) args (tl fmt)
      else (case directive str_at mx out args (tl fmt) of
              Inl e \<Rightarrow> Inl e
            | Inr (out, args, fmt) \<Rightarrow> snprintf_loop str_at mx out args fmt))"
  by pat_completeness auto
termination
  by (relation "measure (\<lambda>(str_at, mx, out, args, fmt). length fmt)")
    (auto dest!: directive_length simp: neq_Nil_conv)

declare snprintf_loop.simps [simp del]

text \<open>The bytes stored into the buffer, the terminator included; nothing for a buffer of size zero. The
  value returned is the number of bytes before the terminator.\<close>

definition luna_snprintf :: "(u32 \<Rightarrow> u8 list) \<Rightarrow> nat \<Rightarrow> u8 list \<Rightarrow> u32 list \<Rightarrow> (nat \<times> u8 list) result" where
  "luna_snprintf str_at mx fmt args =
     (if mx = 0 then Inr (0, [])
      else rbind (snprintf_loop str_at mx [] args fmt) (\<lambda>out. Inr (length out, out @ [0])))"

text \<open>The first call passes the first variable argument on, the second none at all.\<close>

definition luna_sprintf :: "(u32 \<Rightarrow> u8 list) \<Rightarrow> u8 list \<Rightarrow> u32 list \<Rightarrow> (nat \<times> u8 list) result" where
  "luna_sprintf str_at fmt args =
     rbind (arg32 args) (\<lambda>(a, _).
       rbind (luna_snprintf str_at 4096 fmt [a]) (\<lambda>_. luna_snprintf str_at 4096 fmt []))"

section \<open>Bounds of the formatter\<close>

definition within :: "nat \<Rightarrow> u8 list \<Rightarrow> bool" where
  "within mx out \<longleftrightarrow> length out \<le> mx - 1"

lemma within_char [simp]: "within mx out \<Longrightarrow> within mx (write_char mx out c)"
  by (simp add: write_char_def within_def)

lemma within_all [simp]: "within mx out \<Longrightarrow> within mx (write_all mx out cs)"
  unfolding write_all_def by (induction cs arbitrary: out) simp_all

lemma within_str [simp]: "within mx out \<Longrightarrow> within mx (write_str mx out s w)"
  by (simp add: write_str_def)

lemma within_uint [simp]: "within mx out \<Longrightarrow> within mx (write_uint mx out v b up w p)"
  by (simp add: write_uint_def Let_def)

lemma within_int: "within mx out \<Longrightarrow> write_int mx out v w p = Inr out' \<Longrightarrow> within mx out'"
  by (auto simp: write_int_def split: if_splits)

lemma conversion_bound:
  assumes "within mx out" "conversion str_at mx out args pad w c fmt = Inr (out', args', fmt')"
  shows "within mx out'"
  using assms
  by (auto simp: conversion_def rbind_Inr_iff Let_def split: if_splits list.splits dest: within_int)

lemma directive_bound:
  assumes "within mx out" "directive str_at mx out args fmt = Inr (out', args', fmt')"
  shows "within mx out'"
proof -
  obtain pad f1 where f1: "(case fmt of c # cs \<Rightarrow> if c = 0x30 then (0x30 :: u8, cs) else (0x20, fmt) | [] \<Rightarrow> (0x20, fmt)) = (pad, f1)"
    by fastforce
  from assms(2) have "rbind (parse_width 0 f1) (\<lambda>(width, fmt). case fmt of [] \<Rightarrow> Inl OutOfBounds
      | c # fmt \<Rightarrow> conversion str_at mx out args pad width c fmt) = Inr (out', args', fmt')"
    by (simp only: directive_def f1 Let_def prod.case)
  then obtain w f' where "(case f' of [] \<Rightarrow> Inl OutOfBounds
      | c # fmt \<Rightarrow> conversion str_at mx out args pad w c fmt) = Inr (out', args', fmt')"
    by (auto simp: rbind_Inr_iff)
  with conversion_bound[OF assms(1)] show ?thesis by (cases f') auto
qed

lemma snprintf_loop_bound:
  "within mx out \<Longrightarrow> snprintf_loop str_at mx out args fmt = Inr out' \<Longrightarrow> within mx out'"
proof (induction str_at mx out args fmt rule: snprintf_loop.induct)
  case (1 str_at mx out args fmt)
  show ?case
  proof (cases "fmt = [] \<or> length out \<ge> mx - 1")
    case True
    with 1 show ?thesis by (auto simp: snprintf_loop.simps[of str_at mx out])
  next
    case False
    show ?thesis
    proof (cases "hd fmt = 0x25")
      case True
      with 1 False obtain o1 a1 f1 where d: "directive str_at mx out args (tl fmt) = Inr (o1, a1, f1)"
        "snprintf_loop str_at mx o1 a1 f1 = Inr out'"
        by (auto simp: snprintf_loop.simps[of str_at mx out] split: sum.splits)
      with 1(2)[OF False _ d(1)] True directive_bound[OF "1.prems"(1) d(1)] show ?thesis by simp
    next
      case c: False
      have "snprintf_loop str_at mx (write_char mx out (hd fmt)) args (tl fmt) = Inr out'"
        using "1.prems"(2) False c by (simp add: snprintf_loop.simps[of str_at mx out])
      with 1(1)[OF False c] "1.prems"(1) show ?thesis by simp
    qed
  qed
qed

section \<open>Printing and parsing\<close>

lemma all_digit_chars:
  "list_all (\<lambda>d. digit_value (digit_char True d) = Some d \<and> digit_value (digit_char False d) = Some d) [0..<16]"
  by code_simp

lemma digit_char_value: "d < 16 \<Longrightarrow> digit_value (digit_char upper d) = Some d"
  using all_digit_chars by (cases upper) (simp_all add: list_all_iff)

lemma strtoul_snoc:
  "(\<forall>c \<in> set cs. \<exists>d < base. digit_value c = Some d) \<Longrightarrow> digit_value x = Some d \<Longrightarrow> d < base \<Longrightarrow>
   strtoul_loop base r (cs @ [x]) = (fst (strtoul_loop base r cs) * of_nat base + of_nat d, [])"
  by (induction base r cs rule: strtoul_loop.induct) auto

lemma rev_digits_less: "2 \<le> base \<Longrightarrow> d \<in> set (rev_digits base v) \<Longrightarrow> d < base"
proof (induction base v rule: rev_digits.induct)
  case (1 base v)
  then show ?case by (subst (asm) (2) rev_digits.simps) (auto split: if_splits)
qed

lemma strtoul_digits:
  assumes "2 \<le> base" "base \<le> 16"
  shows "strtoul_loop base 0 (rev (map (digit_char upper) (rev_digits base v))) = (of_nat v, [])"
  using assms
proof (induction base v rule: rev_digits.induct)
  case (1 base v)
  show ?case
  proof (cases "v = 0")
    case True
    then show ?thesis by (simp add: rev_digits.simps)
  next
    case False
    let ?q = "v div base" and ?d = "v mod base"
    have ds: "\<forall>c \<in> set (rev (map (digit_char upper) (rev_digits base ?q))). \<exists>d < base. digit_value c = Some d"
      using rev_digits_less[OF "1.prems"(1)] "1.prems"(2) by (fastforce simp: digit_char_value)
    have d: "?d < base" "digit_value (digit_char upper ?d) = Some ?d"
    proof -
      show "?d < base" using "1.prems"(1) by simp
      then show "digit_value (digit_char upper ?d) = Some ?d" using "1.prems"(2) by (intro digit_char_value) simp
    qed
    have "strtoul_loop base 0 (rev (map (digit_char upper) (rev_digits base v))) =
        (of_nat ?q * of_nat base + of_nat ?d, [])"
      using "1.IH" False "1.prems" strtoul_snoc[OF ds d(2,1), of 0]
      by (simp add: rev_digits.simps[of base v])
    moreover have "of_nat ?q * of_nat base + of_nat ?d = (of_nat v :: u32)"
      by (metis div_mult_mod_eq of_nat_add of_nat_mult)
    ultimately show ?thesis by simp
  qed
qed

lemma write_all_room:
  "length out + length cs \<le> mx - 1 \<Longrightarrow> write_all mx out cs = out @ cs"
  unfolding write_all_def by (induction cs arbitrary: out) (auto simp: write_char_def)

lemma rev_digits_length: "2 \<le> base \<Longrightarrow> v < base ^ n \<Longrightarrow> length (rev_digits base v) \<le> n"
proof (induction n arbitrary: v)
  case (Suc n)
  show ?case
  proof (cases "v = 0")
    case False
    have "v div base < base ^ n" using Suc.prems(2) by (intro less_mult_imp_div_less) (simp add: mult.commute)
    with Suc.IH[OF Suc.prems(1)] Suc.prems(1) False show ?thesis by (simp add: rev_digits.simps[of base v])
  qed (simp add: rev_digits.simps)
qed (simp add: rev_digits.simps)

lemma decimal_not_blank: "d \<in> set (rev_digits 10 v) \<Longrightarrow> digit_char upper d \<noteq> 0x20"
proof
  assume d: "d \<in> set (rev_digits 10 v)" and blank: "digit_char upper d = 0x20"
  from rev_digits_less[OF _ d] have "digit_value (digit_char upper d) = Some d" by (simp add: digit_char_value)
  with blank show False by (simp add: digit_value_def is_digit_def)
qed

lemma dropWhile_id: "(\<forall>x \<in> set xs. \<not> P x) \<Longrightarrow> dropWhile P xs = xs"
  by (cases xs) auto

section \<open>Properties\<close>

text \<open>C25: \<^verbatim>\<open>luna_snprintf\<close> never stores more than \<open>size\<close> bytes, whatever the format and the arguments are;
  with a buffer of at least one byte the last byte stored is the terminator, and the value returned is
  the number of bytes before it.\<close>

theorem snprintf_in_bounds:
  assumes "luna_snprintf str_at mx fmt args = Inr (n, bytes)"
  shows "length bytes \<le> mx \<and> (0 < mx \<longrightarrow> length bytes = n + 1 \<and> last bytes = 0)"
proof (cases "mx = 0")
  case False
  with assms obtain out where o: "snprintf_loop str_at mx [] args fmt = Inr out" "n = length out" "bytes = out @ [0]"
    by (auto simp: luna_snprintf_def rbind_Inr_iff)
  have "within mx []" by (simp add: within_def)
  from snprintf_loop_bound[OF this o(1)] o False show ?thesis by (simp add: within_def)
qed (use assms in \<open>simp add: luna_snprintf_def\<close>)

lemma replicate_3: "replicate 3 x = [x, x, x]"
  by (simp add: numeral_eq_Suc)

lemma sample_format:
  "luna_snprintf (\<lambda>_. []) 6 [0x6E, 0x3D, 0x25, 0x30, 0x35, 0x75] [42] = Inr (5, [0x6E, 0x3D, 0x30, 0x30, 0x30, 0])"
  by (simp add: luna_snprintf_def snprintf_loop.simps directive_def conversion_def is_digit_def write_uint_def
      write_char_def write_all_def rev_digits.simps digit_char_def replicate_3)

theorem snprintf_in_bounds_witness: "length [0x6E, 0x3D, 0x30, 0x30, 0x30, 0 :: u8] \<le> 6"
  using snprintf_in_bounds[OF sample_format] by simp

text \<open>Printing and parsing agree: for every 32-bit number, \<^verbatim>\<open>luna_strtoul\<close> in base 10 reads what
  \<^verbatim>\<open>\%u\<close> prints into a large enough buffer, and gives the number back.\<close>

theorem print_parse_decimal:
  assumes "12 \<le> mx"
  shows "\<exists>n bytes. luna_snprintf str_at mx (bytes_of ''%u'') [v] = Inr (n, bytes @ [0]) \<and> luna_strtoul bytes 10 = (v, [])"
proof -
  let ?d = "if v = 0 then [0x30] else rev (map (digit_char False) (rev_digits 10 (unat v)))"
  have len: "length ?d \<le> 10"
    using rev_digits_length[of 10 "unat v" 10] u32_bound[of v] by simp
  have uv: "unat (ucast v :: u64) = unat v" by (simp add: unsigned_ucast_eq take_bit_nat_eq_self u32_bound less_trans[OF u32_bound])
  have z: "(ucast v :: u64) = 0 \<longleftrightarrow> v = 0" by (metis uv unat_eq_0)
  have w: "write_uint mx [] (ucast v) 10 False 0 0x20 = ?d"
    using len assms write_all_room[of "[]" ?d mx] by (auto simp: write_uint_def Let_def z uv write_all_def [of _ _ "[]"] split: if_splits)
  have pc: "bytes_of ''%u'' = [0x25, 0x75]" by (simp add: bytes_of_def of_char_def)
  have "directive str_at mx [] [v] [0x75] = Inr (?d, [], [])"
    by (simp add: directive_def conversion_def is_digit_def w)
  then have "snprintf_loop str_at mx [] [v] [0x25, 0x75] = Inr ?d"
    using assms by (simp add: snprintf_loop.simps)
  then have s: "luna_snprintf str_at mx (bytes_of ''%u'') [v] = Inr (length ?d, ?d @ [0])"
    using assms by (simp add: luna_snprintf_def pc)
  have first: "dropWhile (\<lambda>c. c = 0x20) ?d = ?d"
    using decimal_not_blank by (auto intro!: dropWhile_id)
  have "luna_strtoul ?d 10 = strtoul_loop 10 0 ?d" by (simp add: luna_strtoul_def first)
  also have "\<dots> = (v, [])"
  proof (cases "v = 0")
    case True
    then show ?thesis by (simp add: digit_value_def is_digit_def)
  next
    case False
    then show ?thesis using strtoul_digits[of 10 False "unat v"] by simp
  qed
  finally show ?thesis using s by blast
qed

theorem print_parse_decimal_witness:
  "12 \<le> (16 :: nat) \<and>
   (\<exists>n bytes. luna_snprintf (\<lambda>_. []) 16 (bytes_of ''%u'') [4294967295] = Inr (n, bytes @ [0]) \<and>
      luna_strtoul bytes 10 = (4294967295, []))"
  using print_parse_decimal[of 16 "\<lambda>_. []" 4294967295] by simp

end
