(* ===== verification/Port_Io.thy ===== *)
theory Port_Io
  imports Luna_Prelude
begin

text \<open>
  Port input and output, and the two drivers that use nothing else: the interrupt controller of
  \<^verbatim>\<open>arch/x86/pic.c\<close> and the serial line of \<^verbatim>\<open>drivers/serial/uart.c\<close>. The state is the sequence of port
  accesses so far; what a device answers to a read is a function of that sequence, the parameter \<open>dev\<close>.
\<close>

section \<open>Ports\<close>

datatype io = Out u16 u8 | In u16 u8

type_synonym trace = "io list"
type_synonym device = "trace \<Rightarrow> u16 \<Rightarrow> u8"

definition outb :: "u16 \<Rightarrow> u8 \<Rightarrow> trace \<Rightarrow> trace" where
  "outb port val tr = tr @ [Out port val]"

definition inb :: "device \<Rightarrow> u16 \<Rightarrow> trace \<Rightarrow> u8 \<times> trace" where
  "inb dev port tr = (let v = dev tr port in (v, tr @ [In port v]))"

definition io_wait :: "trace \<Rightarrow> trace" where
  "io_wait tr = outb 0x80 0 tr"

text \<open>The bytes written to a port, in order.\<close>

definition sent :: "u16 \<Rightarrow> trace \<Rightarrow> u8 list" where
  "sent port tr = concat (map (\<lambda>e. case e of Out p v \<Rightarrow> if p = port then [v] else [] | In _ _ \<Rightarrow> []) tr)"

lemma sent_simps [simp]:
  "sent p [] = []"
  "sent p (tr @ tr') = sent p tr @ sent p tr'"
  "sent p (Out q v # tr) = (if q = p then [v] else []) @ sent p tr"
  "sent p (In q v # tr) = sent p tr"
  by (simp_all add: sent_def)

section \<open>The interrupt controller\<close>

definition PIC1_CMD :: u16 where "PIC1_CMD = 0x20"
definition PIC1_DATA :: u16 where "PIC1_DATA = 0x21"
definition PIC2_CMD :: u16 where "PIC2_CMD = 0xA0"
definition PIC2_DATA :: u16 where "PIC2_DATA = 0xA1"
definition PIC_EOI :: u8 where "PIC_EOI = 0x20"
definition ICW1_ICW4 :: u8 where "ICW1_ICW4 = 0x01"
definition ICW1_INIT :: u8 where "ICW1_INIT = 0x10"
definition ICW4_8086 :: u8 where "ICW4_8086 = 0x01"

lemmas pic_consts = PIC1_CMD_def PIC1_DATA_def PIC2_CMD_def PIC2_DATA_def PIC_EOI_def ICW1_ICW4_def ICW1_INIT_def ICW4_8086_def

definition pic_remap :: "device \<Rightarrow> u8 \<Rightarrow> u8 \<Rightarrow> trace \<Rightarrow> trace" where
  "pic_remap dev master_offset slave_offset tr =
     (let (m, tr) = inb dev PIC1_DATA tr;
          (s, tr) = inb dev PIC2_DATA tr;
          tr = io_wait (outb PIC1_CMD (ICW1_INIT OR ICW1_ICW4) tr);
          tr = io_wait (outb PIC2_CMD (ICW1_INIT OR ICW1_ICW4) tr);
          tr = io_wait (outb PIC1_DATA master_offset tr);
          tr = io_wait (outb PIC2_DATA slave_offset tr);
          tr = io_wait (outb PIC1_DATA 4 tr);
          tr = io_wait (outb PIC2_DATA 2 tr);
          tr = io_wait (outb PIC1_DATA ICW4_8086 tr);
          tr = io_wait (outb PIC2_DATA ICW4_8086 tr);
          tr = outb PIC1_DATA m tr
      in outb PIC2_DATA s tr)"

text \<open>The port and the line of an interrupt number; shifting a signed one by 31 or more is undefined.\<close>

definition pic_line :: "u8 \<Rightarrow> (u16 \<times> u32) result" where
  "pic_line irq =
     (let port = (if irq < 8 then PIC1_DATA else PIC2_DATA);
          irq = (if irq \<ge> 8 then irq - 8 else irq)
      in if irq \<ge> 31 then Inl SignedOverflow else Inr (port, push_bit (unat irq) 1))"

definition pic_mask_irq :: "device \<Rightarrow> u8 \<Rightarrow> trace \<Rightarrow> trace result" where
  "pic_mask_irq dev irq tr =
     rbind (pic_line irq) (\<lambda>(port, line). let (v, tr) = inb dev port tr in Inr (outb port (ucast (ucast v OR line)) tr))"

definition pic_unmask_irq :: "device \<Rightarrow> u8 \<Rightarrow> trace \<Rightarrow> trace result" where
  "pic_unmask_irq dev irq tr =
     rbind (pic_line irq) (\<lambda>(port, line). let (v, tr) = inb dev port tr in Inr (outb port (ucast (ucast v AND NOT line)) tr))"

definition pic_send_eoi :: "u8 \<Rightarrow> trace \<Rightarrow> trace" where
  "pic_send_eoi irq tr = outb PIC1_CMD PIC_EOI (if irq \<ge> 8 then outb PIC2_CMD PIC_EOI tr else tr)"

section \<open>The serial line\<close>

definition COM1_PORT :: u16 where "COM1_PORT = 0x3F8"

definition uart_init :: "trace \<Rightarrow> trace" where
  "uart_init tr =
     (let tr = outb (COM1_PORT + 1) 0x00 tr;
          tr = outb (COM1_PORT + 3) 0x80 tr;
          tr = outb (COM1_PORT + 0) 0x03 tr;
          tr = outb (COM1_PORT + 1) 0x00 tr;
          tr = outb (COM1_PORT + 3) 0x03 tr;
          tr = outb (COM1_PORT + 2) 0xC7 tr
      in outb (COM1_PORT + 4) 0x0B tr)"

text \<open>Waiting for the transmitter, which need not end.\<close>

partial_function (option) uart_wait :: "device \<Rightarrow> trace \<Rightarrow> trace option" where
  [code]: "uart_wait dev tr =
     (let (v, tr) = inb dev (COM1_PORT + 5) tr in if v AND 0x20 = 0 then uart_wait dev tr else Some tr)"

definition uart_putc :: "device \<Rightarrow> u8 \<Rightarrow> trace \<Rightarrow> trace option" where
  "uart_putc dev c tr = (case uart_wait dev tr of None \<Rightarrow> None | Some tr \<Rightarrow> Some (outb COM1_PORT c tr))"

fun uart_puts :: "device \<Rightarrow> u8 list \<Rightarrow> trace \<Rightarrow> trace option" where
  "uart_puts dev [] tr = Some tr"
| "uart_puts dev (c # str) tr = (case uart_putc dev c tr of None \<Rightarrow> None | Some tr \<Rightarrow> uart_puts dev str tr)"

section \<open>Facts\<close>

lemma pic_line_bit:
  assumes "irq < 16"
  shows "pic_line irq = Inr (if irq < 8 then 0x21 else 0xA1, push_bit (unat irq mod 8) 1)"
proof -
  have u: "unat irq < 16" using assms by (simp add: word_less_nat_alt)
  have e: "unat (irq - 8) = unat irq - 8" if "\<not> irq < 8" using that by (simp add: unat_minus_numeral)
  have "unat (irq - 8) = unat irq mod 8" if "\<not> irq < 8"
    using that e[OF that] u by (simp add: word_less_nat_alt mod_if)
  moreover have "\<not> irq \<ge> 31" "\<not> irq - 8 \<ge> 31" if "\<not> irq < 8"
    using e[OF that] u by (simp_all add: word_le_nat_alt)
  ultimately show ?thesis
    by (auto simp: pic_line_def Let_def pic_consts word_less_nat_alt word_le_nat_alt)
qed

lemma mask_bits: "n < 8 \<Longrightarrow> bit (ucast (ucast (v :: u8) OR (push_bit k 1 :: u32)) :: u8) n \<longleftrightarrow> bit v n \<or> n = k"
  by (auto simp: bit_simps)

lemma unmask_bits: "n < 8 \<Longrightarrow> bit (ucast (ucast (v :: u8) AND NOT (push_bit k 1 :: u32)) :: u8) n \<longleftrightarrow> bit v n \<and> n \<noteq> k"
  by (auto simp: bit_simps)

text \<open>The transmitter reports room after some number of polls, whatever happened before.\<close>

primrec polled :: "device \<Rightarrow> nat \<Rightarrow> trace \<Rightarrow> trace" where
  "polled dev 0 tr = tr"
| "polled dev (Suc n) tr = polled dev n (snd (inb dev (COM1_PORT + 5) tr))"

definition transmitter_drains :: "device \<Rightarrow> bool" where
  "transmitter_drains dev \<longleftrightarrow> (\<forall>tr. \<exists>n. dev (polled dev n tr) (COM1_PORT + 5) AND 0x20 \<noteq> 0)"

lemma uart_wait_returns:
  "dev (polled dev n tr) (COM1_PORT + 5) AND 0x20 \<noteq> 0 \<Longrightarrow>
   \<exists>tr'. uart_wait dev tr = Some tr' \<and> (\<forall>p. sent p tr' = sent p tr)"
proof (induction n arbitrary: tr)
  case 0
  then show ?case by (simp add: uart_wait.simps[of dev tr] inb_def Let_def)
next
  case (Suc n)
  show ?case
  proof (cases "dev tr (COM1_PORT + 5) AND 0x20 = 0")
    case True
    let ?t = "snd (inb dev (COM1_PORT + 5) tr)"
    from Suc.IH[of ?t] Suc.prems obtain tr' where "uart_wait dev ?t = Some tr'" "\<forall>p. sent p tr' = sent p ?t" by auto
    with True show ?thesis by (simp add: uart_wait.simps[of dev tr] inb_def Let_def)
  next
    case False
    then show ?thesis by (simp add: uart_wait.simps[of dev tr] inb_def Let_def)
  qed
qed

section \<open>Properties\<close>

text \<open>Masking and unmasking an interrupt line below 16 reads the mask register of the right controller
  and writes it back with exactly that line's bit set or cleared; the other lines keep their bits.\<close>

theorem pic_mask_exact:
  assumes "irq < 16"
  defines "port \<equiv> if irq < 8 then PIC1_DATA else PIC2_DATA"
  shows "\<exists>m u. pic_mask_irq dev irq tr = Inr (tr @ [In port (dev tr port), Out port m])
    \<and> pic_unmask_irq dev irq tr = Inr (tr @ [In port (dev tr port), Out port u])
    \<and> (\<forall>n < 8. bit m n = (bit (dev tr port) n \<or> n = unat irq mod 8) \<and> bit u n = (bit (dev tr port) n \<and> n \<noteq> unat irq mod 8))"
proof -
  have p: "(if irq < 8 then 0x21 else 0xA1) = port" by (simp add: port_def pic_consts)
  show ?thesis
    using mask_bits unmask_bits
    by (simp add: pic_mask_irq_def pic_unmask_irq_def pic_line_bit[OF assms(1)] p inb_def outb_def Let_def)
qed

theorem pic_mask_exact_witness:
  "\<exists>m. pic_mask_irq (\<lambda>_ _. 0xFB) 12 [] = Inr [In 0xA1 0xFB, Out 0xA1 m] \<and> bit m 4"
  using pic_mask_exact[of 12 "\<lambda>_ _. 0xFB" "[]"] by (auto simp: pic_consts)

text \<open>If the transmitter always drains in the end, \<^verbatim>\<open>uart_puts\<close> returns and has sent exactly the bytes of
  the string on the serial port, in order, after what had been sent before, and nothing on other
  ports.\<close>

theorem uart_puts_sends:
  assumes "transmitter_drains dev"
  shows "\<exists>tr'. uart_puts dev str tr = Some tr' \<and> sent COM1_PORT tr' = sent COM1_PORT tr @ str
    \<and> (\<forall>p. p \<noteq> COM1_PORT \<longrightarrow> sent p tr' = sent p tr)"
proof (induction str arbitrary: tr)
  case (Cons c str)
  from assms obtain n where "dev (polled dev n tr) (COM1_PORT + 5) AND 0x20 \<noteq> 0" by (auto simp: transmitter_drains_def)
  from uart_wait_returns[of dev n tr, OF this] obtain t where t: "uart_wait dev tr = Some t" "\<forall>p. sent p t = sent p tr" by blast
  from Cons[of "outb COM1_PORT c t"] obtain tr' where
    "uart_puts dev str (outb COM1_PORT c t) = Some tr'" "sent COM1_PORT tr' = sent COM1_PORT (outb COM1_PORT c t) @ str"
    "\<forall>p. p \<noteq> COM1_PORT \<longrightarrow> sent p tr' = sent p (outb COM1_PORT c t)" by blast
  with t show ?case by (simp add: uart_putc_def outb_def)
qed simp

theorem uart_puts_sends_witness:
  "\<exists>tr'. uart_puts (\<lambda>tr _. if even (length tr) then 0 else 0x20) [0x48, 0x69] [] = Some tr' \<and> sent COM1_PORT tr' = [0x48, 0x69]"
proof -
  let ?dev = "\<lambda>tr (_ :: u16). if even (length (tr :: trace)) then 0 else (0x20 :: u8)"
  have "\<exists>n. ?dev (polled ?dev n tr) (COM1_PORT + 5) AND 0x20 \<noteq> 0" for tr
    by (cases "even (length tr)") (auto intro: exI[of _ 0] exI[of _ 1] simp: inb_def Let_def)
  then have "transmitter_drains ?dev" unfolding transmitter_drains_def by blast
  from uart_puts_sends[OF this, of "[0x48, 0x69]" "[]"] show ?thesis by auto
qed

end
