(* ===== verification/Idt.thy ===== *)
theory Idt
  imports Gdt Printf Port_Io
begin

text \<open>
  The interrupt descriptor table and the C handlers of \<^verbatim>\<open>arch/x86/idt.c\<close>, and the stack frame that the
  stubs of \<^verbatim>\<open>arch/x86/interrupts.asm\<close> hand to them. The addresses of the stubs and of the static table
  are parameters, and so is what the code at a registered handler address does.
\<close>

section \<open>State\<close>

record IDT_Entry =
  offset_low :: u16
  gate_selector :: u16
  gate_zero :: u8
  type_attr :: u8
  offset_high :: u16

record IDT_Ptr =
  ip_limit :: u16
  ip_base :: u32

text \<open>The frame as \<^verbatim>\<open>arch/x86/idt.h\<close> lays it out.\<close>

record CPU_Regs =
  r_edi :: u32
  r_esi :: u32
  r_ebp :: u32
  r_esp_dummy :: u32
  r_ebx :: u32
  r_edx :: u32
  r_ecx :: u32
  r_eax :: u32
  r_int_no :: u32
  r_err_code :: u32
  r_eip :: u32
  r_cs :: u32
  r_eflags :: u32
  r_user_esp :: u32
  r_user_ss :: u32

definition IDT_PRESENT :: u8 where "IDT_PRESENT = 0x80"
definition IDT_DPL0 :: u8 where "IDT_DPL0 = 0x00"
definition IDT_DPL3 :: u8 where "IDT_DPL3 = 0x60"
definition IDT_GATE_INT32 :: u8 where "IDT_GATE_INT32 = 0x0E"
definition IDT_GATE_TRAP :: u8 where "IDT_GATE_TRAP = 0x0F"

lemmas gate_flags = IDT_PRESENT_def IDT_DPL0_def IDT_DPL3_def IDT_GATE_INT32_def IDT_GATE_TRAP_def

text \<open>The tables, the register loaded by \<^verbatim>\<open>idt_flush\<close>, and the port accesses so far. A handler is a code
  address, zero for none.\<close>

record idt_state =
  idt :: "u8 \<Rightarrow> IDT_Entry"
  idt_ptr :: IDT_Ptr
  irq_handlers :: "u32 list"
  reg_idtr :: IDT_Ptr
  ports :: trace

section \<open>Operations\<close>

definition make_gate :: "u32 \<Rightarrow> u16 \<Rightarrow> u8 \<Rightarrow> IDT_Entry" where
  "make_gate handler sel flags =
     \<lparr>offset_low = ucast (handler AND 0xFFFF), gate_selector = sel, gate_zero = 0, type_attr = flags,
      offset_high = ucast (drop_bit 16 handler AND 0xFFFF)\<rparr>"

definition idt_set_gate :: "u8 \<Rightarrow> u32 \<Rightarrow> u16 \<Rightarrow> u8 \<Rightarrow> 'a idt_state_scheme \<Rightarrow> 'a idt_state_scheme" where
  "idt_set_gate num handler sel flags s = s\<lparr>idt := (idt s)(num := make_gate handler sel flags)\<rparr>"

text \<open>The calls of \<^verbatim>\<open>idt_set_gate\<close> in their order: the exceptions, the hardware interrupts, the system call
  gate.\<close>

definition gate_calls :: "(nat \<Rightarrow> u32) \<Rightarrow> (nat \<Rightarrow> u32) \<Rightarrow> u32 \<Rightarrow> (nat \<times> u32 \<times> u8) list" where
  "gate_calls isr irq isr128 =
     map (\<lambda>n. (n, isr n, IDT_PRESENT OR IDT_DPL0 OR (if n = 3 then IDT_GATE_TRAP else IDT_GATE_INT32))) [0..<32]
     @ map (\<lambda>n. (32 + n, irq n, IDT_PRESENT OR IDT_DPL0 OR IDT_GATE_INT32)) [0..<16]
     @ [(0x80, isr128, IDT_PRESENT OR IDT_DPL3 OR IDT_GATE_INT32)]"

definition idt_flush :: "'a idt_state_scheme \<Rightarrow> 'a idt_state_scheme" where
  "idt_flush s = s\<lparr>reg_idtr := idt_ptr s\<rparr>"

definition idt_install :: "(nat \<Rightarrow> u32) \<Rightarrow> (nat \<Rightarrow> u32) \<Rightarrow> u32 \<Rightarrow> u32 \<Rightarrow> 'a idt_state_scheme \<Rightarrow> 'a idt_state_scheme" where
  "idt_install isr irq isr128 idt_addr s =
     (let s = s\<lparr>idt := (\<lambda>_. make_gate 0 0 0)\<rparr>;
          s = s\<lparr>irq_handlers := replicate 16 0\<rparr>;
          s = fold (\<lambda>(n, h, flags). idt_set_gate (of_nat n) h 0x08 flags) (gate_calls isr irq isr128) s;
          s = s\<lparr>idt_ptr := \<lparr>ip_limit = 256 * 8 - 1, ip_base = idt_addr\<rparr>\<rparr>
      in idt_flush s)"

definition irq_register :: "u8 \<Rightarrow> u32 \<Rightarrow> 'a idt_state_scheme \<Rightarrow> 'a idt_state_scheme" where
  "irq_register irq handler s = (if irq < 16 then s\<lparr>irq_handlers := (irq_handlers s)[unat irq := handler]\<rparr> else s)"

definition exceptions :: "string list" where
  "exceptions =
     [''Division by Zero'', ''Debug'', ''NMI'', ''Breakpoint'', ''Overflow'', ''Bound Range'', ''Invalid Opcode'',
      ''Device Not Avail'', ''Double Fault'', ''Coprocessor Overrun'', ''Invalid TSS'', ''Segment Not Present'',
      ''Stack Fault'', ''General Protection'', ''Page Fault'', ''Reserved'', ''x87 Float'', ''Alignment Check'',
      ''Machine Check'', ''SIMD Float'', ''Virtualization'']"

definition text_of :: "u8 list \<Rightarrow> string" where
  "text_of bs = map (\<lambda>b. char_of (unat b)) bs"

text \<open>The faulting address in \<^verbatim>\<open>CR2\<close> is an argument. A page fault of a user process just returns.\<close>

definition isr_handler :: "u32 \<Rightarrow> CPU_Regs \<Rightarrow> unit result" where
  "isr_handler cr2 regs =
     (if r_int_no regs = 14 then
        if r_cs regs = 0x1B then Inr ()
        else rbind (luna_snprintf (\<lambda>_. []) 128 (bytes_of ''Page Fault at EIP=0x%08x, CR2=0x%08x, ERR=0x%x'')
                     [r_eip regs, cr2, r_err_code regs])
               (\<lambda>(n, msg). kernel_panic (text_of (take n msg)))
      else if r_int_no regs < 21 then
        if unat (r_int_no regs) < length exceptions then kernel_panic (exceptions ! unat (r_int_no regs)) else Inl OutOfBounds
      else Inr ())"

definition irq_handler ::
  "(u32 \<Rightarrow> CPU_Regs \<Rightarrow> 'a idt_state_scheme \<Rightarrow> 'a idt_state_scheme result) \<Rightarrow> CPU_Regs \<Rightarrow> 'a idt_state_scheme
     \<Rightarrow> 'a idt_state_scheme result" where
  "irq_handler call regs s =
     (let irq = (ucast (r_int_no regs - 32) :: u8) in
      rbind (if irq < 16 \<and> irq_handlers s ! unat irq \<noteq> 0 then call (irq_handlers s ! unat irq) regs s else Inr s) (\<lambda>s.
        let s = (if irq \<ge> 8 then s\<lparr>ports := outb 0xA0 0x20 (ports s)\<rparr> else s)
        in Inr (s\<lparr>ports := outb 0x20 0x20 (ports s)\<rparr>)))"

section \<open>The frame the stubs build\<close>

text \<open>The registers of the interrupted code.\<close>

record cpu =
  c_eax :: u32
  c_ecx :: u32
  c_edx :: u32
  c_ebx :: u32
  c_esp :: u32
  c_ebp :: u32
  c_esi :: u32
  c_edi :: u32
  c_ds :: u32
  c_es :: u32
  c_fs :: u32
  c_gs :: u32
  c_eip :: u32
  c_cs :: u32
  c_eflags :: u32
  c_user_esp :: u32
  c_user_ss :: u32

text \<open>The stack below the pointer that the common stubs pass, lowest address first: the four segment
  registers pushed last, the eight registers of \<^verbatim>\<open>pusha\<close> (whose stack pointer value is the argument
  \<open>sp\<close>), the number and error code of the individual stub, and what the processor pushed.\<close>

definition stub_frame :: "cpu \<Rightarrow> u32 \<Rightarrow> u32 \<Rightarrow> u32 \<Rightarrow> u32 list" where
  "stub_frame c sp int_no err =
     [c_gs c, c_fs c, c_es c, c_ds c,
      c_edi c, c_esi c, c_ebp c, sp, c_ebx c, c_edx c, c_ecx c, c_eax c,
      int_no, err, c_eip c, c_cs c, c_eflags c, c_user_esp c, c_user_ss c]"

text \<open>Reading and writing a frame through \<^verbatim>\<open>CPU_Regs*\<close>: fifteen words from the pointer on.\<close>

definition as_regs :: "u32 list \<Rightarrow> CPU_Regs" where
  "as_regs f = \<lparr>r_edi = f ! 0, r_esi = f ! 1, r_ebp = f ! 2, r_esp_dummy = f ! 3, r_ebx = f ! 4, r_edx = f ! 5,
     r_ecx = f ! 6, r_eax = f ! 7, r_int_no = f ! 8, r_err_code = f ! 9, r_eip = f ! 10, r_cs = f ! 11,
     r_eflags = f ! 12, r_user_esp = f ! 13, r_user_ss = f ! 14\<rparr>"

definition write_regs :: "CPU_Regs \<Rightarrow> u32 list \<Rightarrow> u32 list" where
  "write_regs r f = [r_edi r, r_esi r, r_ebp r, r_esp_dummy r, r_ebx r, r_edx r, r_ecx r, r_eax r, r_int_no r,
     r_err_code r, r_eip r, r_cs r, r_eflags r, r_user_esp r, r_user_ss r] @ drop 15 f"

text \<open>The end of the stubs: the segment registers, \<^verbatim>\<open>popa\<close>, which skips the stack pointer, and \<^verbatim>\<open>iret\<close>.\<close>

definition stub_return :: "u32 list \<Rightarrow> cpu \<Rightarrow> cpu" where
  "stub_return f c = c\<lparr>c_gs := f ! 0, c_fs := f ! 1, c_es := f ! 2, c_ds := f ! 3, c_edi := f ! 4, c_esi := f ! 5,
     c_ebp := f ! 6, c_ebx := f ! 8, c_edx := f ! 9, c_ecx := f ! 10, c_eax := f ! 11, c_eip := f ! 14, c_cs := f ! 15,
     c_eflags := f ! 16, c_user_esp := f ! 17, c_user_ss := f ! 18\<rparr>"

section \<open>The processor's reading of a gate\<close>

definition gate_handler :: "IDT_Entry \<Rightarrow> u32" where
  "gate_handler e = ucast (offset_low e) OR push_bit 16 (ucast (offset_high e))"

definition gate_present :: "IDT_Entry \<Rightarrow> bool" where
  "gate_present e = bit (type_attr e) 7"

definition gate_dpl :: "IDT_Entry \<Rightarrow> u8" where
  "gate_dpl e = drop_bit 5 (type_attr e) AND 3"

lemma gate_handler_make [simp]: "gate_handler (make_gate h sel flags) = h"
  unfolding gate_handler_def make_gate_def mask_FFFF
  by (rule bit_word_eqI) (auto simp: bit_simps)

lemma make_gate_fields [simp]:
  "gate_selector (make_gate h sel flags) = sel" "type_attr (make_gate h sel flags) = flags"
  by (simp_all add: make_gate_def)

text \<open>A sequence of gate settings with distinct numbers.\<close>

abbreviation set_gates :: "(nat \<times> u32 \<times> u8) list \<Rightarrow> 'a idt_state_scheme \<Rightarrow> 'a idt_state_scheme" where
  "set_gates \<equiv> fold (\<lambda>(n, h, flags). idt_set_gate (of_nat n) h 0x08 flags)"

lemma set_gates_miss:
  "\<forall>g \<in> set gs. of_nat (fst g) \<noteq> n \<Longrightarrow> idt (set_gates gs s) n = idt s n"
  by (induction gs arbitrary: s) (auto simp: idt_set_gate_def)

lemma u8_of_nat_inj: "m < 256 \<Longrightarrow> n < 256 \<Longrightarrow> (of_nat m :: u8) = of_nat n \<longleftrightarrow> m = n"
proof
  assume "m < 256" "n < 256" "(of_nat m :: u8) = of_nat n"
  then have "unat (of_nat m :: u8) = unat (of_nat n :: u8)" by simp
  then show "m = n" using \<open>m < 256\<close> \<open>n < 256\<close> by (simp add: unat_of_nat)
qed simp

lemma set_gates_hit:
  "distinct (map fst gs) \<Longrightarrow> \<forall>g \<in> set gs. fst g < 256 \<Longrightarrow> (n, h, flags) \<in> set gs \<Longrightarrow>
   idt (set_gates gs s) (of_nat n) = make_gate h 0x08 flags"
proof (induction gs arbitrary: s)
  case (Cons g gs)
  show ?case
  proof (cases "g = (n, h, flags)")
    case True
    then have "\<forall>g \<in> set gs. (of_nat (fst g) :: u8) \<noteq> of_nat n"
      using Cons.prems by (force simp: u8_of_nat_inj)
    with True show ?thesis by (simp add: set_gates_miss) (simp add: idt_set_gate_def)
  next
    case False
    with Cons show ?thesis by simp
  qed
qed simp

lemma set_gates_keep [simp]:
  "irq_handlers (set_gates gs s) = irq_handlers s" "ports (set_gates gs s) = ports s"
  by (induction gs arbitrary: s) (auto simp: idt_set_gate_def)

lemma gate_calls_keys: "map fst (gate_calls isr irq i128) = [0..<48] @ [0x80]"
proof -
  have "map (\<lambda>n. 32 + n) [0..<16] = [32..<48::nat]" by code_simp
  moreover have "[0..<32] @ [32..<48] = [0..<48::nat]" using upt_add_eq_append[of 0 32 16] by simp
  ultimately show ?thesis by (simp add: gate_calls_def comp_def)
qed

lemma gate_calls_distinct:
  "distinct (map fst (gate_calls isr irq i128))" "\<forall>g \<in> set (gate_calls isr irq i128). fst g < 256"
proof -
  show "distinct (map fst (gate_calls isr irq i128))" unfolding gate_calls_keys by simp
  have "\<forall>k \<in> set (map fst (gate_calls isr irq i128)). k < 256" unfolding gate_calls_keys by auto
  then show "\<forall>g \<in> set (gate_calls isr irq i128). fst g < 256" by simp
qed

lemma installed_gate:
  assumes "(n, h, flags) \<in> set (gate_calls isr irq i128)"
  shows "idt (idt_install isr irq i128 a s) (of_nat n) = make_gate h 0x08 flags"
  using set_gates_hit[OF gate_calls_distinct assms]
  by (simp add: idt_install_def Let_def idt_flush_def)

lemma no_gate:
  assumes "n < 256" "n \<ge> 48" "n \<noteq> 0x80"
  shows "idt (idt_install isr irq i128 a s) (of_nat n) = make_gate 0 0 0"
proof -
  have "\<forall>g \<in> set (gate_calls isr irq i128). (of_nat (fst g) :: u8) \<noteq> of_nat n"
  proof
    fix g assume g: "g \<in> set (gate_calls isr irq i128)"
    then have "fst g \<in> set (map fst (gate_calls isr irq i128))" by simp
    then have "fst g < 48 \<or> fst g = 0x80" unfolding gate_calls_keys by auto
    then have "fst g < 256" "fst g \<noteq> n" using assms by auto
    with assms(1) show "(of_nat (fst g) :: u8) \<noteq> of_nat n" by (simp only: u8_of_nat_inj not_False_eq_True)
  qed
  then show ?thesis by (simp add: idt_install_def Let_def idt_flush_def set_gates_miss)
qed

section \<open>Properties\<close>

text \<open>C20: After \<^verbatim>\<open>idt_install\<close> each exception and each hardware interrupt vector leads to its own stub in the
  kernel's code segment, vector 0x80 to the system call stub, and every other gate is absent. User code
  can raise only vector 0x80 by software: it is the only present gate with privilege level 3.\<close>

theorem idt_install_gates:
  fixes isr irq :: "nat \<Rightarrow> u32" and isr128 idt_addr :: u32 and s :: "'a idt_state_scheme"
  assumes "v < 256"
  defines "e \<equiv> idt (idt_install isr irq isr128 idt_addr s) (of_nat v)"
  shows "(gate_present e \<longleftrightarrow> v < 48 \<or> v = 0x80) \<and> (gate_present e \<and> gate_dpl e = 3 \<longleftrightarrow> v = 0x80)
    \<and> (v < 32 \<longrightarrow> gate_handler e = isr v) \<and> (32 \<le> v \<and> v < 48 \<longrightarrow> gate_handler e = irq (v - 32))
    \<and> (v = 0x80 \<longrightarrow> gate_handler e = isr128) \<and> (gate_present e \<longrightarrow> gate_selector e = GDT_KERNEL_CODE)"
proof -
  consider "v < 32" | "32 \<le> v" "v < 48" | "v = 0x80" | "48 \<le> v" "v \<noteq> 0x80" by linarith
  then show ?thesis
  proof cases
    case 1
    then have "(v, isr v, IDT_PRESENT OR IDT_DPL0 OR (if v = 3 then IDT_GATE_TRAP else IDT_GATE_INT32)) \<in> set (gate_calls isr irq isr128)"
      by (auto simp: gate_calls_def)
    then have "e = make_gate (isr v) 0x08 (IDT_PRESENT OR IDT_DPL0 OR (if v = 3 then IDT_GATE_TRAP else IDT_GATE_INT32))"
      unfolding e_def by (rule installed_gate)
    with 1 show ?thesis by (simp add: gate_present_def gate_dpl_def gate_flags selectors)
  next
    case 2
    have "(32 + (v - 32), irq (v - 32), IDT_PRESENT OR IDT_DPL0 OR IDT_GATE_INT32) \<in> set (gate_calls isr irq isr128)"
      unfolding gate_calls_def set_append set_map using 2 by (intro UnI2 UnI1 image_eqI[OF refl]) simp
    from installed_gate[OF this] 2 have "e = make_gate (irq (v - 32)) 0x08 (IDT_PRESENT OR IDT_DPL0 OR IDT_GATE_INT32)"
      unfolding e_def by simp
    with 2 show ?thesis by (simp add: gate_present_def gate_dpl_def gate_flags selectors)
  next
    case 3
    have "(0x80, isr128, IDT_PRESENT OR IDT_DPL3 OR IDT_GATE_INT32) \<in> set (gate_calls isr irq isr128)"
      by (simp add: gate_calls_def)
    then have "e = make_gate isr128 0x08 (IDT_PRESENT OR IDT_DPL3 OR IDT_GATE_INT32)"
      unfolding e_def 3 by (rule installed_gate)
    with 3 show ?thesis by (simp add: gate_present_def gate_dpl_def gate_flags selectors)
  next
    case 4
    then have "e = make_gate 0 0 0" unfolding e_def using no_gate[OF assms(1)] by blast
    with 4 show ?thesis by (simp add: gate_present_def)
  qed
qed

definition boot_idt :: idt_state where
  "boot_idt = \<lparr>idt = (\<lambda>_. make_gate 0 0 0), idt_ptr = \<lparr>ip_limit = 0, ip_base = 0\<rparr>, irq_handlers = replicate 16 0,
     reg_idtr = \<lparr>ip_limit = 0, ip_base = 0\<rparr>, ports = []\<rparr>"

theorem idt_install_gates_witness:
  "gate_handler (idt (idt_install (\<lambda>n. 0x1000 + of_nat n) (\<lambda>n. 0x2000 + of_nat n) 0x3000 0x4000 boot_idt) (of_nat 33)) = 0x2001"
  using idt_install_gates[of 33 "\<lambda>n. 0x1000 + of_nat n" "\<lambda>n. 0x2000 + of_nat n" "0x3000" "0x4000" boot_idt] by simp

text \<open>The common stubs push the four segment registers after \<^verbatim>\<open>pusha\<close>, but \<^verbatim>\<open>CPU_Regs\<close> has no room for
  them, so the C handlers read the frame four words off: the interrupt number they see is the \<open>ebx\<close> of
  the interrupted code, whichever interrupt it was. An exception is ignored, instead of stopping the
  kernel, whenever \<open>ebx\<close> is at least 21, and a hardware interrupt runs the handler of line \<open>ebx - 32\<close>, or
  none.\<close>

theorem interrupt_number_lost:
  shows "r_int_no (as_regs (stub_frame c sp n err)) = c_ebx c
    \<and> (21 \<le> c_ebx c \<longrightarrow> isr_handler cr2 (as_regs (stub_frame c sp n err)) = Inr ())
    \<and> (c_ebx c < 32 \<or> 48 \<le> c_ebx c \<and> c_ebx c < 256 \<longrightarrow>
        irq_handler call (as_regs (stub_frame c sp n err)) s = Inr (s\<lparr>ports := ports s @ [Out 0xA0 0x20, Out 0x20 0x20]\<rparr>))"
proof -
  let ?r = "as_regs (stub_frame c sp n err)"
  have i: "r_int_no ?r = c_ebx c" by (simp add: as_regs_def stub_frame_def)
  have a: "isr_handler cr2 ?r = Inr ()" if "21 \<le> c_ebx c"
  proof -
    have "c_ebx c \<noteq> 14" "\<not> c_ebx c < 21" using that by auto
    then show ?thesis by (simp add: isr_handler_def i)
  qed
  have b: "irq_handler call ?r s = Inr (s\<lparr>ports := ports s @ [Out 0xA0 0x20, Out 0x20 0x20]\<rparr>)"
    if "c_ebx c < 32 \<or> 48 \<le> c_ebx c \<and> c_ebx c < 256"
  proof -
    have "unat (c_ebx c) < 32 \<or> 48 \<le> unat (c_ebx c) \<and> unat (c_ebx c) < 256"
      using that by (simp add: word_less_nat_alt word_le_nat_alt)
    then have "16 \<le> unat (c_ebx c - 32) mod 256"
      using mod_add_left_eq[of 4294967264 256 "unat (c_ebx c)", symmetric] by (auto simp: unat_sub_if' word_le_nat_alt)
    then have "\<not> (ucast (c_ebx c - 32) :: u8) < 16" "(ucast (c_ebx c - 32) :: u8) \<ge> 8"
      by (simp_all add: word_less_nat_alt word_le_nat_alt unsigned_ucast_eq take_bit_eq_mod)
    then show ?thesis by (simp add: irq_handler_def i Let_def outb_def)
  qed
  from i a b show ?thesis by blast
qed

theorem interrupt_number_lost_witness:
  "let c = \<lparr>c_eax = 0, c_ecx = 0, c_edx = 0, c_ebx = 0xC0100000, c_esp = 0, c_ebp = 0, c_esi = 0, c_edi = 0, c_ds = 0, c_es = 0,
     c_fs = 0, c_gs = 0, c_eip = 0, c_cs = 8, c_eflags = 0, c_user_esp = 0, c_user_ss = 0\<rparr>
   in isr_handler 0 (as_regs (stub_frame c 0 8 0)) = Inr ()"
  using interrupt_number_lost[where n = 8 and call = "\<lambda>_ _ s. Inr (s :: idt_state)"] by (simp add: Let_def)

end
