(* ===== verification/Timer.thy ===== *)
theory Timer
  imports Scheduler Ledger Idt
begin

text \<open>
  The interval timer, \<^verbatim>\<open>arch/x86/timer.c\<close>: the interrupt handler that counts ticks, drives the scheduler and
  flushes the ledger every ten ticks, the programming of the timer chip, and the sleep loop. The state
  extends that of the interrupt tables by the tick counter, the scheduler and the ledger. What happens while
  the processor is halted is the parameter \<open>wake\<close> of the sleep loop; the locale \<open>ticking\<close> says what it needs.
\<close>

section \<open>State and operations\<close>

record clock = idt_state +
  system_ticks :: u64
  tick_hz :: u32
  tsched :: sched
  tledger :: ledger

definition PIT_CHANNEL0 :: u16 where "PIT_CHANNEL0 = 0x40"
definition PIT_CMD :: u16 where "PIT_CMD = 0x43"
definition PIT_BASE_HZ :: u32 where "PIT_BASE_HZ = 1193182"

text \<open>The handler of interrupt 0; a flush that never ends is the fault \<^const>\<open>NoReturn\<close>.\<close>

definition timer_irq_handler :: "'a clock_scheme \<Rightarrow> 'a clock_scheme result" where
  "timer_irq_handler s =
     (let s = s\<lparr>system_ticks := system_ticks s + 1\<rparr> in
      rbind (scheduler_tick (tsched s)) (\<lambda>sch.
        let s = s\<lparr>tsched := sch\<rparr> in
        if system_ticks s mod 10 = 0 then
          (case ledger_flush_task (tledger s) of
             None \<Rightarrow> Inl NoReturn
           | Some l \<Rightarrow> Inr (s\<lparr>tledger := l\<rparr>))
        else Inr s))"

text \<open>The address of the handler is the argument \<open>handler\<close>.\<close>

definition timer_init :: "device \<Rightarrow> u32 \<Rightarrow> u32 \<Rightarrow> 'a clock_scheme \<Rightarrow> 'a clock_scheme result" where
  "timer_init dev handler frequency s =
     (let s = s\<lparr>tick_hz := frequency\<rparr> in
      if frequency = 0 then Inl DivideByZero
      else
        let divisor = PIT_BASE_HZ div frequency;
            tr = outb PIT_CMD 0x36 (ports s);
            tr = outb PIT_CHANNEL0 (ucast (divisor AND 0xFF)) tr;
            tr = outb PIT_CHANNEL0 (ucast (drop_bit 8 divisor AND 0xFF)) tr;
            s = irq_register 0 handler (s\<lparr>ports := tr\<rparr>) in
        rbind (pic_unmask_irq dev 0 (ports s)) (\<lambda>tr. Inr (s\<lparr>ports := tr\<rparr>)))"

definition timer_ticks :: "'a clock_scheme \<Rightarrow> u64" where
  "timer_ticks s = system_ticks s"

definition timer_ms :: "'a clock_scheme \<Rightarrow> u32" where
  "timer_ms s = ucast (system_ticks s)"

partial_function (option) sleep_loop :: "('a clock_scheme \<Rightarrow> 'a clock_scheme result) \<Rightarrow> u64 \<Rightarrow> 'a clock_scheme \<Rightarrow> 'a clock_scheme result option" where
  [code]: "sleep_loop wake until s =
     (if system_ticks s < until then
        (case wake s of Inl e \<Rightarrow> Some (Inl e) | Inr s \<Rightarrow> sleep_loop wake until s)
      else Some (Inr s))"

definition timer_sleep_ms :: "('a clock_scheme \<Rightarrow> 'a clock_scheme result) \<Rightarrow> u32 \<Rightarrow> 'a clock_scheme \<Rightarrow> 'a clock_scheme result option" where
  "timer_sleep_ms wake ms s = (let until = system_ticks s + ucast ms in sleep_loop wake until s)"

section \<open>What one tick keeps\<close>

lemma unat_ucast_u64: "unat (ucast (x :: u32) :: u64) = unat x"
  using u32_bound[of x] by (simp add: unsigned_ucast_eq take_bit_eq_mod)

definition sched_ok :: "sched \<Rightarrow> bool" where
  "sched_ok s \<longleftrightarrow> (\<exists>qs. queues s qs) \<and> one_running s \<and> 0 \<notin> set (slices s)
     \<and> (\<forall>c. current_process s = Some c \<longrightarrow> c < length (process_table s))"

text \<open>The ledger has room for all events in the queue.\<close>

definition ledger_room :: "ledger \<Rightarrow> bool" where
  "ledger_room l \<longleftrightarrow> chain_inv l \<and> unat (ledger_count l) + length (contents (lq l)) \<le> 4096"

definition clock_ok :: "'a clock_scheme \<Rightarrow> bool" where
  "clock_ok s \<longleftrightarrow> sched_ok (tsched s) \<and> ledger_room (tledger s)"

lemma sched_ok_tick:
  assumes "sched_ok s"
  shows "\<exists>s'. scheduler_tick s = Inr s' \<and> sched_ok s'"
proof -
  obtain qs where q: "queues s qs" using assms by (auto simp: sched_ok_def)
  have "\<forall>c. current_process s = Some c \<longrightarrow> c < length (process_table s) \<and> ticks_alloc (process_table s ! c) \<noteq> 0"
    using assms nth_mem by (fastforce simp: sched_ok_def slices_def)
  from tick_sound[OF q _ this] assms obtain s' qs' where s': "scheduler_tick s = Inr s'" "queues s' qs'" "one_running s'"
    "\<forall>c. current_process s' = Some c \<longrightarrow> c < length (process_table s')" by (auto simp: sched_ok_def)
  moreover have "slices s' = slices s" by (rule tick_slices[OF s'(1)])
  ultimately show ?thesis using assms by (auto simp: sched_ok_def)
qed

lemma ledger_room_flush:
  assumes "ledger_room l"
  shows "\<exists>l'. ledger_flush_task l = Some l' \<and> ledger_room l' \<and> contents (lq l') = []
    \<and> unat (ledger_count l') = unat (ledger_count l) + length (contents (lq l))"
  using flush_ok[of l] assms by (auto simp: ledger_room_def)

lemma timer_irq_ok:
  assumes "clock_ok s"
  shows "\<exists>s'. timer_irq_handler s = Inr s' \<and> clock_ok s' \<and> system_ticks s' = system_ticks s + 1
    \<and> scheduler_tick (tsched s) = Inr (tsched s')
    \<and> (if (system_ticks s + 1) mod 10 = 0 then ledger_flush_task (tledger s) = Some (tledger s') \<and> contents (lq (tledger s')) = []
       else tledger s' = tledger s)"
proof -
  obtain sch where sch: "scheduler_tick (tsched s) = Inr sch" "sched_ok sch"
    using sched_ok_tick assms by (auto simp: clock_ok_def)
  obtain l where l: "ledger_flush_task (tledger s) = Some l" "ledger_room l" "contents (lq l) = []"
    using ledger_room_flush assms by (auto simp: clock_ok_def)
  show ?thesis
    using sch l assms by (auto simp: timer_irq_handler_def clock_ok_def Let_def)
qed

section \<open>Sleeping\<close>

text \<open>What lets a halted processor make progress: each wake-up returns, keeps the state sound and advances
  the tick counter by one.\<close>

locale ticking =
  fixes inv :: "'a clock_scheme \<Rightarrow> bool" and wake :: "'a clock_scheme \<Rightarrow> 'a clock_scheme result"
  assumes wake_ticks: "inv s \<Longrightarrow> \<exists>s'. wake s = Inr s' \<and> inv s' \<and> system_ticks s' = system_ticks s + 1"
begin

lemma sleep_loop_returns:
  "inv s \<Longrightarrow> unat (system_ticks s) + n < 2 ^ 64 \<Longrightarrow>
   \<exists>s'. sleep_loop wake (system_ticks s + of_nat n) s = Some (Inr s') \<and> inv s' \<and> system_ticks s' = system_ticks s + of_nat n"
proof (induction n arbitrary: s)
  case 0
  then show ?case by (simp add: sleep_loop.simps[of wake _ s])
next
  case (Suc n)
  have "unat (of_nat (Suc n) :: u64) = Suc n"
    using Suc.prems(2) by (simp only: unat_of_nat) (simp add: take_bit_eq_mod)
  then have "system_ticks s < system_ticks s + of_nat (Suc n)"
    using Suc.prems(2) by (simp add: word_less_nat_alt unat_add_lem[THEN iffD1] del: of_nat_Suc)
  moreover obtain s1 where s1: "wake s = Inr s1" "inv s1" "system_ticks s1 = system_ticks s + 1"
    using wake_ticks[OF Suc.prems(1)] by blast
  moreover have "unat (system_ticks s1) = unat (system_ticks s) + 1"
    using Suc.prems(2) unfolding s1(3) by (subst unat_add_lem[THEN iffD1]) simp_all
  ultimately show ?case
    using Suc.IH[OF s1(2)] Suc.prems(2) by (simp add: sleep_loop.simps[of wake _ s] add.assoc)
qed

lemma sleep_returns:
  assumes "inv s" "unat (system_ticks s) + unat ms < 2 ^ 64"
  shows "\<exists>s'. timer_sleep_ms wake ms s = Some (Inr s') \<and> inv s' \<and> system_ticks s' = system_ticks s + ucast ms"
  using sleep_loop_returns[OF assms] by (simp add: timer_sleep_ms_def unsigned_ucast_eq Let_def)

end

interpretation irq0: ticking clock_ok timer_irq_handler
  by unfold_locales (use timer_irq_ok in blast)

text \<open>With interrupts off nothing changes while the processor is halted.\<close>

lemma sleep_loop_stuck:
  assumes "sleep_loop wake until s = Some r" "\<forall>s. \<exists>s'. wake s = Inr s' \<and> system_ticks s' = system_ticks s"
  shows "\<not> system_ticks s < until"
  using assms
proof (induction wake until s r rule: sleep_loop.raw_induct[rotated, consumes 1, case_names step])
  case (step f wake until s r)
  obtain s' where s': "wake s = Inr s'" "system_ticks s' = system_ticks s" using step.prems by blast
  show ?case
  proof
    assume lt: "system_ticks s < until"
    with step.hyps s'(1) have "f wake until s' = Some r" by simp
    from step.IH[OF this step.prems] lt s'(2) show False by simp
  qed
qed

section \<open>Properties\<close>

text \<open>C27: The tick composes. On a sound clock the timer interrupt returns and keeps the clock sound: the
  counter advances, the scheduler takes exactly one tick, and on every tenth tick the flush ends, empties
  the queue and leaves a ledger that verifies; on other ticks the ledger is untouched.\<close>

theorem timer_irq_composes:
  assumes "clock_ok s"
  shows "\<exists>s'. timer_irq_handler s = Inr s' \<and> clock_ok s' \<and> system_ticks s' = system_ticks s + 1
    \<and> scheduler_tick (tsched s) = Inr (tsched s') \<and> ledger_verify_chain (tledger s')
    \<and> (if (system_ticks s + 1) mod 10 = 0 then ledger_flush_task (tledger s) = Some (tledger s') \<and> contents (lq (tledger s')) = []
       else tledger s' = tledger s)"
proof -
  obtain s' where s': "timer_irq_handler s = Inr s'" "clock_ok s'" "system_ticks s' = system_ticks s + 1"
    "scheduler_tick (tsched s) = Inr (tsched s')"
    "if (system_ticks s + 1) mod 10 = 0 then ledger_flush_task (tledger s) = Some (tledger s') \<and> contents (lq (tledger s')) = []
       else tledger s' = tledger s"
    using timer_irq_ok[OF assms] by blast
  moreover have "ledger_verify_chain (tledger s')" using s'(2) by (simp add: clock_ok_def ledger_room_def chain_inv_def)
  ultimately show ?thesis by blast
qed

definition sample_clock :: clock where
  "sample_clock = \<lparr>idt = (\<lambda>_. make_gate 0 0 0), idt_ptr = \<lparr>ip_limit = 0, ip_base = 0\<rparr>, irq_handlers = replicate 16 0,
     reg_idtr = \<lparr>ip_limit = 0, ip_base = 0\<rparr>, ports = [], system_ticks = 9, tick_hz = 1000, tsched = sample_sched,
     tledger = ledger_init blank_ledger\<rparr>"

lemma sample_clock_ok: "clock_ok sample_clock"
proof -
  have "ledger_room (ledger_init blank_ledger)"
    using init_inv[of blank_ledger] by (simp add: ledger_room_def ledger_init_def ledger_genesis_def Let_def init_ok)
  moreover have "one_running sample_sched" "0 \<notin> set (slices sample_sched)"
    "\<forall>c. current_process sample_sched = Some c \<longrightarrow> c < length (process_table sample_sched)"
    by (auto simp: one_running_def slices_def sample_sched_simps sample_proc_def nth_Cons split: nat.splits)
  ultimately show ?thesis using sample_sched_queues by (auto simp: clock_ok_def sched_ok_def sample_clock_def)
qed

theorem timer_irq_composes_witness:
  "\<exists>s'. timer_irq_handler sample_clock = Inr s' \<and> system_ticks s' = 10 \<and> contents (lq (tledger s')) = []"
proof -
  have "system_ticks sample_clock = 9" by (simp add: sample_clock_def)
  with timer_irq_composes[OF sample_clock_ok] show ?thesis by auto
qed

text \<open>C28: Sleeping ends exactly when it should, if and only if time passes. When every halt brings a timer
  interrupt on a sound clock, \<^verbatim>\<open>timer_sleep_ms\<close> returns after exactly the requested number of ticks with the
  clock still sound. When no wake-up advances the counter, as with interrupts disabled, a sleep of at least
  one tick never returns.\<close>

theorem sleep_exact:
  assumes "clock_ok s" "unat (system_ticks s) + unat ms < 2 ^ 64"
  shows "(\<exists>s'. timer_sleep_ms timer_irq_handler ms s = Some (Inr s') \<and> clock_ok s' \<and> system_ticks s' = system_ticks s + ucast ms)
    \<and> (ms \<noteq> 0 \<longrightarrow> timer_sleep_ms (\<lambda>s. Inr s) ms s = None)"
proof (intro conjI impI)
  assume "ms \<noteq> 0"
  then have "0 < unat ms" by (simp add: unat_gt_0)
  moreover have "unat (system_ticks s + ucast ms) = unat (system_ticks s) + unat ms"
    using assms(2) by (simp add: unat_word_ariths unat_ucast_u64)
  ultimately have "system_ticks s < system_ticks s + ucast ms" by (simp add: word_less_nat_alt)
  then show "timer_sleep_ms (\<lambda>s. Inr s) ms s = None"
    using sleep_loop_stuck[of "\<lambda>s. Inr s" "system_ticks s + ucast ms" s]
    by (cases "sleep_loop (\<lambda>s. Inr s) (system_ticks s + ucast ms) s") (simp_all add: timer_sleep_ms_def)
qed (rule irq0.sleep_returns[OF assms])

theorem sleep_exact_witness:
  "(\<exists>s'. timer_sleep_ms timer_irq_handler 5 sample_clock = Some (Inr s') \<and> system_ticks s' = 14)
   \<and> timer_sleep_ms (\<lambda>s. Inr s) 5 sample_clock = None"
proof -
  have t: "system_ticks sample_clock = 9" by (simp add: sample_clock_def)
  then have "unat (system_ticks sample_clock) + unat (5 :: u32) < 2 ^ 64" by simp
  from sleep_exact[OF sample_clock_ok this] t show ?thesis by auto
qed

text \<open>The programmed rate: from 19 Hz on the two bytes sent to the timer are the low and high byte of the
  quotient. Below 19 Hz the quotient does not fit into 16 bits, and its upper part is lost.\<close>

lemma timer_init_divisor:
  assumes "19 \<le> f"
  shows "\<exists>s'. timer_init dev h f s = Inr s' \<and> tick_hz s' = f \<and> unat (PIT_BASE_HZ div f) < 2 ^ 16
    \<and> sent PIT_CHANNEL0 (ports s') = sent PIT_CHANNEL0 (ports s) @ to_le 2 (PIT_BASE_HZ div f)"
proof -
  have "f \<noteq> 0" using assms by auto
  have "unat (PIT_BASE_HZ div f) = 1193182 div unat f" by (simp add: PIT_BASE_HZ_def unat_div)
  also have "\<dots> \<le> 1193182 div 19" using assms by (intro div_le_mono2) (simp_all add: word_le_nat_alt)
  finally have "unat (PIT_BASE_HZ div f) < 2 ^ 16" by simp
  moreover have "(ucast (d AND 0xFF) :: u8) = ucast d" for d :: u32
  proof -
    have "d AND 0xFF = d AND mask 8" by (simp add: mask_eq_exp_minus_1)
    then show ?thesis by (auto intro!: bit_word_eqI simp: bit_simps)
  qed
  moreover have le2: "to_le 2 d = [ucast d, ucast (drop_bit 8 d)]" for d :: u32
  proof -
    have "to_le 2 d = to_le (Suc (Suc 0)) d" by (simp only: numeral_2_eq_2)
    then show ?thesis by (simp only: to_le.simps)
  qed
  ultimately show ?thesis
    using \<open>f \<noteq> 0\<close>
    by (simp add: timer_init_def Let_def pic_unmask_irq_def pic_line_def pic_consts irq_register_def outb_def inb_def
        PIT_CMD_def PIT_CHANNEL0_def le2)
qed

end
