(* ===== verification/Ai.thy ===== *)
theory Ai
  imports C_String Printf
begin

text \<open>
  The query dispatcher \<^verbatim>\<open>kernel/ai/ai_core.c\<close> and the rule table \<^verbatim>\<open>kernel/ai/explicit/rule_table.c\<close>. Strings
  are given by their characters; \<^verbatim>\<open>luna_strstr\<close> enters as \<open>find_sub\<close>, which it computes on terminated strings.
  The two engines that \<^verbatim>\<open>ai_core.c\<close> calls are not in the repository and are parameters, as is the contents
  of the uninitialised buffers handed to them. The build flag for small devices is the parameter \<open>iot\<close>.
\<close>

section \<open>Formats with strings only\<close>

lemma write_all_take: "length out \<le> mx - 1 \<Longrightarrow> write_all mx out cs = take (mx - 1) (out @ cs)"
proof (induction cs arbitrary: out)
  case (Cons c cs)
  show ?case
  proof (cases "length out < mx - 1")
    case True
    with Cons.IH[of "out @ [c]"] show ?thesis by (simp add: write_all_def write_char_def)
  next
    case False
    with Cons.prems have "length out = mx - 1" by simp
    with Cons.IH[of out] show ?thesis by (simp add: write_all_def write_char_def)
  qed
qed (simp add: write_all_def)

text \<open>On a full buffer nothing more is written.\<close>

lemma snprintf_full: "length out = mx - 1 \<Longrightarrow> snprintf_loop str_at mx out args fmt = Inr out"
  by (simp add: snprintf_loop.simps[of str_at mx out])

lemma snprintf_plain:
  "length out \<le> mx - 1 \<Longrightarrow> 0x25 \<notin> set pre \<Longrightarrow>
   snprintf_loop str_at mx out args (pre @ fmt) = snprintf_loop str_at mx (write_all mx out pre) args fmt"
proof (induction pre arbitrary: out)
  case (Cons c pre)
  show ?case
  proof (cases "length out < mx - 1")
    case True
    with Cons.IH[of "write_char mx out c"] Cons.prems show ?thesis
      by (simp add: snprintf_loop.simps[of str_at mx out args "c # pre @ fmt"] write_all_def write_char_def)
  next
    case False
    with Cons.prems(1) have "length out = mx - 1" by simp
    moreover from this have "write_all mx out (c # pre) = out" by (simp add: write_all_take)
    ultimately show ?thesis by (simp add: snprintf_full)
  qed
qed (simp add: write_all_def)

lemma snprintf_string:
  assumes "length out \<le> mx - 1" "a \<noteq> 0"
  shows "snprintf_loop str_at mx out (a # args) (0x25 # 0x73 # fmt) = snprintf_loop str_at mx (write_all mx out (str_at a)) args fmt"
proof (cases "length out < mx - 1")
  case True
  have "directive str_at mx out (a # args) (0x73 # fmt) = Inr (write_str mx out (str_at a) 0, args, fmt)"
    using assms(2) by (simp add: directive_def is_digit_def conversion_def)
  moreover have "write_str mx out (str_at a) 0 = write_all mx out (str_at a)" by (simp add: write_str_def write_all_def)
  ultimately show ?thesis using True by (simp add: snprintf_loop.simps[of str_at mx out])
next
  case False
  with assms(1) have "length out = mx - 1" by simp
  moreover from this have "write_all mx out (str_at a) = out" by (simp add: write_all_take)
  ultimately show ?thesis by (simp add: snprintf_full)
qed

text \<open>The output so far, as a text that is cut where the buffer ends.\<close>

lemma take_cut: "take n (take n xs @ ys) = take n (xs @ ys)"
  by (cases "length xs \<le> n") simp_all

lemma cut_plain:
  "0x25 \<notin> set pre \<Longrightarrow>
   snprintf_loop str_at mx (take (mx - 1) t) args (pre @ fmt) = snprintf_loop str_at mx (take (mx - 1) (t @ pre)) args fmt"
  using snprintf_plain[of "take (mx - 1) t" mx pre str_at args fmt] write_all_take[of "take (mx - 1) t" mx pre]
  unfolding take_cut by simp

lemma cut_string:
  "a \<noteq> 0 \<Longrightarrow>
   snprintf_loop str_at mx (take (mx - 1) t) (a # args) (0x25 # 0x73 # fmt) = snprintf_loop str_at mx (take (mx - 1) (t @ str_at a)) args fmt"
  using snprintf_string[of "take (mx - 1) t" mx a str_at args fmt] write_all_take[of "take (mx - 1) t" mx "str_at a"]
  unfolding take_cut by simp

lemma cut_done: "snprintf_loop str_at mx (take (mx - 1) t) args [] = Inr (take (mx - 1) t)"
  by (simp add: snprintf_loop.simps)

section \<open>The rule table\<close>

datatype ExplicitQueryClass = QUERY_SYSTEM_STATE | QUERY_SECURITY_AUDIT | EXPLICIT_QUERY_LANGUAGE

record ExplicitResult =
  er_text :: "u8 list"
  er_confidence_pct :: u32

text \<open>The comment promises that rules are loaded; the body is empty.\<close>

definition explicit_ai_init :: "'s \<Rightarrow> 's" where
  "explicit_ai_init s = s"

definition explicit_ai_query :: "u8 list \<Rightarrow> ExplicitQueryClass \<Rightarrow> ExplicitResult" where
  "explicit_ai_query query qclass =
     (let res = \<lparr>er_text = replicate 1024 0, er_confidence_pct = 0\<rparr> in
      if qclass = QUERY_SECURITY_AUDIT then
        res\<lparr>er_text := strncpy_into (er_text res) (bytes_of ''SYS_SAFE: No unauthorized Ring 0 access detected.'') 1023,
            er_confidence_pct := 100\<rparr>
      else if qclass = QUERY_SYSTEM_STATE then
        res\<lparr>er_text := strncpy_into (er_text res) (bytes_of ''STATE_EVAL: Kernel nominal. Ledger secure.'') 1023,
            er_confidence_pct := 100\<rparr>
      else
        res\<lparr>er_text := strncpy_into (er_text res) (bytes_of ''Awaiting neural context fusion...'') 1023,
            er_confidence_pct := 0\<rparr>)"

section \<open>The dispatcher\<close>

definition AI_RESPONSE_BUF_SIZE :: nat where "AI_RESPONSE_BUF_SIZE = 2048"

datatype QueryClass = QUERY_SIMULATION | QUERY_SECURITY | QUERY_FORENSIC | QUERY_LANGUAGE | QUERY_GENERAL

record AIPartialResult =
  pr_text :: "u8 list"
  confidence_pct :: u32
  pr_source :: u8

text \<open>The context of a query, of which the repository has no declaration: the two fields that are set.\<close>

record AIQueryContext =
  caller_ring :: u32
  restrict_to_shell :: bool

definition strstr_one_of :: "u8 list \<Rightarrow> string list \<Rightarrow> bool" where
  "strstr_one_of input ws \<longleftrightarrow> list_ex (\<lambda>w. find_sub (bytes_of w) input \<noteq> None) ws"

definition classify_query :: "u8 list \<Rightarrow> QueryClass" where
  "classify_query input =
     (if strstr_one_of input [''simulate'', ''agent'', ''world'', ''constraint''] then QUERY_SIMULATION
      else if strstr_one_of input [''net'', ''scan'', ''port'', ''packet''] then QUERY_SECURITY
      else if strstr_one_of input [''file'', ''disk'', ''forensic'', ''hash''] then QUERY_FORENSIC
      else if strstr_one_of input [''explain'', ''what is'', ''how do'', ''tell me''] then QUERY_LANGUAGE
      else QUERY_GENERAL)"

text \<open>The engines: the buffer they find their input in (its contents before the call, its length the size of
  the field), their answer, the characters of a string and a confidence, and the constant that marks them as
  the source.\<close>

record engines =
  eq_input :: "u8 list"
  explicit_evaluate :: "u8 list \<Rightarrow> QueryClass \<Rightarrow> AIQueryContext option \<Rightarrow> u8 list \<times> u32"
  nq_prompt :: "u8 list"
  neural_infer :: "u8 list \<Rightarrow> u32 \<Rightarrow> u32 \<Rightarrow> AIQueryContext option \<Rightarrow> u8 list \<times> u32"
  AI_SOURCE_EXPLICIT :: u8
  AI_SOURCE_NEURAL :: u8

text \<open>The initialisation calls those of the three engines, in this order.\<close>

definition ai_core_init ::
    "bool \<Rightarrow> ('s \<Rightarrow> 's result) \<Rightarrow> ('s \<Rightarrow> 's result) \<Rightarrow> ('s \<Rightarrow> 's result) \<Rightarrow> 's \<Rightarrow> 's result" where
  "ai_core_init iot explicit_init nlp_init neural_init s =
     rbind (explicit_init s) (\<lambda>s. rbind (nlp_init s) (\<lambda>s. if iot then Inr s else neural_init s))"

definition partial_result :: "u8 \<Rightarrow> u8 list \<times> u32 \<Rightarrow> AIPartialResult" where
  "partial_result src r =
     \<lparr>pr_text = strncpy_into (replicate AI_RESPONSE_BUF_SIZE 0) (fst r) (AI_RESPONSE_BUF_SIZE - 1), confidence_pct = snd r,
      pr_source = src\<rparr>"

definition ask_explicit :: "engines \<Rightarrow> AIQueryContext option \<Rightarrow> u8 list \<Rightarrow> QueryClass \<Rightarrow> AIPartialResult" where
  "ask_explicit eng ctx input qclass =
     partial_result (AI_SOURCE_EXPLICIT eng)
       (explicit_evaluate eng (strncpy_into (eq_input eng) input (length (eq_input eng) - 1)) qclass ctx)"

definition ask_neural :: "engines \<Rightarrow> AIQueryContext option \<Rightarrow> u8 list \<Rightarrow> AIPartialResult" where
  "ask_neural eng ctx input =
     partial_result (AI_SOURCE_NEURAL eng)
       (neural_infer eng (strncpy_into (nq_prompt eng) input (length (nq_prompt eng) - 1)) 256 70 ctx)"

text \<open>The weights of the two engines in percent.\<close>

definition weights :: "QueryClass \<Rightarrow> u32 \<times> u32" where
  "weights qclass = (if qclass \<in> {QUERY_SIMULATION, QUERY_SECURITY, QUERY_FORENSIC} then (75, 25) else (25, 75))"

text \<open>\<^verbatim>\<open>luna_snprintf\<close> into the response buffer; the string arguments are numbered from 1.\<close>

definition format_response :: "string \<Rightarrow> u8 list list \<Rightarrow> u8 list \<Rightarrow> u8 list result" where
  "format_response fmt args buf =
     rbind (luna_snprintf (\<lambda>a. chars (args ! (unat a - 1))) AI_RESPONSE_BUF_SIZE (bytes_of fmt) (map of_nat [1..<Suc (length args)]))
       (\<lambda>(n, out). Inr (out @ drop (length out) buf))"

definition NEWLINE :: string where "NEWLINE = [CHR 0x0A]"

definition fuse :: "QueryClass \<Rightarrow> AIPartialResult \<Rightarrow> AIPartialResult \<Rightarrow> u8 list \<Rightarrow> u8 list result" where
  "fuse qclass e n buf =
     (let (explicit_weight, neural_weight) = weights qclass;
          explicit_score = confidence_pct e * explicit_weight div 100;
          neural_score = confidence_pct n * neural_weight div 100 in
      if explicit_score \<ge> neural_score then
        if confidence_pct n > 60 \<and> qclass = QUERY_LANGUAGE
        then format_response (''[Verified] %s'' @ NEWLINE @ ''[Context] %s'') [pr_text e, pr_text n] buf
        else Inr (strncpy_into buf (chars (pr_text e)) (AI_RESPONSE_BUF_SIZE - 1))
      else
        if confidence_pct e = 0 then format_response ''[CONSTRAINT BLOCKED] %s'' [pr_text n] buf
        else Inr (strncpy_into buf (chars (pr_text n)) (AI_RESPONSE_BUF_SIZE - 1)))"

text \<open>The characters of the answer and the new contents of \<^verbatim>\<open>ai_response_buf\<close>; \<open>None\<close> is a null pointer.\<close>

definition ai_query ::
    "engines \<Rightarrow> bool \<Rightarrow> u8 list option \<Rightarrow> AIQueryContext option \<Rightarrow> u8 list \<Rightarrow> (u8 list \<times> u8 list) result" where
  "ai_query eng iot input ctx buf =
     (case input of
        None \<Rightarrow> Inr (bytes_of ''[AI] Empty query'', buf)
      | Some [] \<Rightarrow> Inr (bytes_of ''[AI] Empty query'', buf)
      | Some cs \<Rightarrow>
          let qclass = classify_query cs;
              e = ask_explicit eng ctx cs qclass in
          rbind (if iot then Inr (strncpy_into buf (chars (pr_text e)) (AI_RESPONSE_BUF_SIZE - 1))
                 else fuse qclass e (ask_neural eng ctx cs) buf) (\<lambda>buf.
            let buf = buf[AI_RESPONSE_BUF_SIZE - 1 := 0]
            in Inr (chars buf, buf)))"

definition ai_suggest_command :: "engines \<Rightarrow> bool \<Rightarrow> u8 list option \<Rightarrow> u8 list \<Rightarrow> (u8 list \<times> u8 list) result" where
  "ai_suggest_command eng iot english_input buf =
     ai_query eng iot english_input (Some \<lparr>caller_ring = 0, restrict_to_shell = True\<rparr>) buf"

text \<open>What the engines' initialisations all keep, the initialisation of the dispatcher keeps.\<close>

lemma ai_core_init_keeps:
  assumes "\<And>f s. f \<in> {explicit_init, nlp_init, neural_init} \<Longrightarrow> \<exists>t. f s = Inr t \<and> K s t"
    and "\<And>r s t. K r s \<Longrightarrow> K s t \<Longrightarrow> K r t"
  shows "\<exists>t. ai_core_init iot explicit_init nlp_init neural_init s = Inr t \<and> K s t"
proof -
  obtain s1 where s1: "explicit_init s = Inr s1" "K s s1" using assms(1) by blast
  obtain s2 where s2: "nlp_init s1 = Inr s2" "K s1 s2" using assms(1) by blast
  obtain s3 where s3: "neural_init s2 = Inr s3" "K s2 s3" using assms(1) by blast
  have "K s s2" by (rule assms(2)[OF s1(2) s2(2)])
  moreover from this have "K s s3" by (rule assms(2)[OF _ s3(2)])
  ultimately show ?thesis using s1(1) s2(1) s3(1) by (cases iot) (simp_all add: ai_core_init_def)
qed

section \<open>What the buffers hold\<close>

lemma chars_append_zero: "0 \<notin> set xs \<Longrightarrow> chars (xs @ 0 # ys) = xs"
  by (simp add: chars_def takeWhile_append1 takeWhile_tail) (induction xs, auto)

lemma chars_strncpy:
  assumes "0 \<notin> set xs" "length buf = 2048"
  shows "chars ((strncpy_into buf xs 2047)[2047 := 0]) = take 2047 xs" "length (strncpy_into buf xs 2047) = 2048"
proof -
  show l: "length (strncpy_into buf xs 2047) = 2048" using assms(2) by (simp add: strncpy_into_def)
  have "length (drop 2047 buf) = Suc 0" using assms(2) by simp
  then obtain z where z: "drop 2047 buf = [z]" by (metis length_0_conv length_Suc_conv)
  have "length (take 2047 xs @ replicate (2047 - length xs) (0 :: u8)) = 2047" by simp
  from list_update_length[of "take 2047 xs @ replicate (2047 - length xs) 0" z "[]" 0, unfolded this]
  have "(strncpy_into buf xs 2047)[2047 := 0] = take 2047 xs @ replicate (2047 - length xs) 0 @ [0]"
    unfolding strncpy_into_def z by (simp only: append_assoc)
  also have "\<dots> = take 2047 xs @ 0 # replicate (2047 - length xs) 0" by (simp only: replicate_append_same)
  finally show "chars ((strncpy_into buf xs 2047)[2047 := 0]) = take 2047 xs"
    using chars_append_zero[of "take 2047 xs"] assms(1) in_set_takeD[of 0 2047 xs] by metis
qed

lemma partial_text: "0 \<notin> set (fst r) \<Longrightarrow> chars (pr_text (partial_result src r)) = take 2047 (fst r)"
proof -
  assume z: "0 \<notin> set (fst r)"
  have "drop 2047 (replicate 2048 (0 :: u8)) = replicate (2048 - 2047) 0" by (rule drop_replicate)
  also have "\<dots> = [0]" by simp
  finally have "drop 2047 (replicate 2048 (0 :: u8)) = [0]" .
  then have "strncpy_into (replicate 2048 0) (fst r) 2047 = take 2047 (fst r) @ 0 # replicate (2047 - length (fst r)) 0"
    by (simp only: strncpy_into_def replicate_append_same)
  then have "pr_text (partial_result src r) = take 2047 (fst r) @ 0 # replicate (2047 - length (fst r)) 0"
    by (simp only: partial_result_def AI_RESPONSE_BUF_SIZE_def AIPartialResult.select_convs) simp
  moreover have "0 \<notin> set (take 2047 (fst r))" using z by (auto dest: in_set_takeD)
  ultimately show ?thesis by (metis chars_append_zero)
qed

text \<open>A formatted answer is the pieces joined and cut to 2047 characters.\<close>

definition filled :: "u8 list \<Rightarrow> u8 list \<Rightarrow> u8 list" where
  "filled t buf = take 2047 t @ 0 # drop (Suc (length (take 2047 t))) buf"

lemma filled_ok:
  assumes "0 \<notin> set t" "length buf = 2048"
  shows "length (filled t buf) = 2048" "chars ((filled t buf)[2047 := 0]) = take 2047 t"
proof -
  show "length (filled t buf) = 2048" using assms(2) by (simp add: filled_def)
  have upd: "\<exists>ys. (0 # zs)[k := 0] = (0 :: u8) # ys" for zs k by (cases k) auto
  have "(filled t buf)[2047 := 0] = take 2047 t @ (0 # drop (Suc (length (take 2047 t))) buf)[2047 - length (take 2047 t) := 0]"
    unfolding filled_def by (simp add: list_update_append)
  moreover have "\<exists>ys. (0 # drop (Suc (length (take 2047 t))) buf)[2047 - length (take 2047 t) := 0] = 0 # ys"
    using upd by blast
  ultimately obtain ys where "(filled t buf)[2047 := 0] = take 2047 t @ 0 # ys" by metis
  moreover have "0 \<notin> set (take 2047 t)" using assms(1) by (auto dest: in_set_takeD)
  ultimately show "chars ((filled t buf)[2047 := 0]) = take 2047 t" by (metis chars_append_zero)
qed

lemma format_verified:
  "format_response (''[Verified] %s'' @ NEWLINE @ ''[Context] %s'') [x, y] buf =
     Inr (filled (bytes_of ''[Verified] '' @ chars x @ 10 # bytes_of ''[Context] '' @ chars y) buf)"
proof -
  let ?s = "\<lambda>a :: u32. chars ([x, y] ! (unat a - 1))"
  have f: "bytes_of (''[Verified] %s'' @ NEWLINE @ ''[Context] %s'')
      = bytes_of ''[Verified] '' @ 0x25 # 0x73 # ((10 # bytes_of ''[Context] '') @ [0x25, 0x73])"
    by (simp add: bytes_of_def NEWLINE_def of_char_def)
  have n: "0x25 \<notin> set (bytes_of ''[Verified] '')" "0x25 \<notin> set (10 # bytes_of ''[Context] '')" by (simp_all add: bytes_of_def of_char_def)
  have a: "map of_nat [1..<Suc (length [x, y])] = [1, 2 :: u32]" by (simp add: upt_rec)
  have t: "[] = take (2048 - 1) ([] :: u8 list)" by simp
  have s: "?s 1 = chars x" "?s 2 = chars y" "(1 :: u32) \<noteq> 0" "(2 :: u32) \<noteq> 0" by simp_all
  have "snprintf_loop ?s 2048 [] [1, 2] (bytes_of ''[Verified] '' @ 0x25 # 0x73 # ((10 # bytes_of ''[Context] '') @ [0x25, 0x73]))
      = Inr (take (2048 - 1) (((([] @ bytes_of ''[Verified] '') @ ?s 1) @ 10 # bytes_of ''[Context] '') @ ?s 2))"
    by (subst t, subst cut_plain[OF n(1)], subst cut_string[OF s(3)], subst cut_plain[OF n(2)], subst cut_string[OF s(4)], rule cut_done)
  then show ?thesis
    unfolding format_response_def luna_snprintf_def f a s(1,2) by (simp add: AI_RESPONSE_BUF_SIZE_def filled_def)
qed

lemma format_blocked:
  "format_response ''[CONSTRAINT BLOCKED] %s'' [x] buf = Inr (filled (bytes_of ''[CONSTRAINT BLOCKED] '' @ chars x) buf)"
proof -
  let ?s = "\<lambda>a :: u32. chars ([x] ! (unat a - 1))"
  have f: "bytes_of ''[CONSTRAINT BLOCKED] %s'' = bytes_of ''[CONSTRAINT BLOCKED] '' @ [0x25, 0x73]"
    by (simp add: bytes_of_def of_char_def)
  have n: "0x25 \<notin> set (bytes_of ''[CONSTRAINT BLOCKED] '')" by (simp add: bytes_of_def of_char_def)
  have a: "map of_nat [1..<Suc (length [x])] = [1 :: u32]" by (simp add: upt_rec)
  have t: "[] = take (2048 - 1) ([] :: u8 list)" by simp
  have s: "?s 1 = chars x" "(1 :: u32) \<noteq> 0" by simp_all
  have "snprintf_loop ?s 2048 [] [1] (bytes_of ''[CONSTRAINT BLOCKED] '' @ [0x25, 0x73])
      = Inr (take (2048 - 1) (([] @ bytes_of ''[CONSTRAINT BLOCKED] '') @ ?s 1))"
    by (subst t, subst cut_plain[OF n], subst cut_string[OF s(2)], rule cut_done)
  then show ?thesis
    unfolding format_response_def luna_snprintf_def f a s(1) by (simp add: AI_RESPONSE_BUF_SIZE_def filled_def)
qed

text \<open>Whatever the engines answer, the response buffer keeps its size.\<close>

lemma format_response_length: "format_response fmt args buf = Inr b \<Longrightarrow> length buf = 2048 \<Longrightarrow> length b = 2048"
proof -
  assume f: "format_response fmt args buf = Inr b" and l: "length buf = 2048"
  then obtain out where o: "snprintf_loop (\<lambda>a. chars (args ! (unat a - 1))) 2048 [] (map of_nat [1..<Suc (length args)]) (bytes_of fmt) = Inr out"
    "b = (out @ [0]) @ drop (Suc (length out)) buf"
    by (auto simp: format_response_def luna_snprintf_def AI_RESPONSE_BUF_SIZE_def rbind_Inr_iff)
  have "within 2048 []" by (simp add: within_def)
  from snprintf_loop_bound[OF this o(1)] have "length out \<le> 2047" by (simp add: within_def)
  with o(2) l show ?thesis by simp
qed

lemma ai_query_length:
  assumes "ai_query eng iot input c buf = Inr (ans, buf')" "length buf = 2048"
  shows "length buf' = 2048"
proof (cases "input = None \<or> input = Some []")
  case False
  then obtain ch cs where i: "input = Some (ch # cs)" by (cases input; cases "the input") auto
  have s: "length (strncpy_into buf xs (AI_RESPONSE_BUF_SIZE - 1)) = 2048" for xs
    using assms(2) by (simp add: strncpy_into_def AI_RESPONSE_BUF_SIZE_def)
  have "length b = 2048" if "fuse q e n buf = Inr b" for q e n b
    using that s assms(2) by (auto simp: fuse_def Let_def split: prod.splits if_splits dest: format_response_length)
  with s assms(1) show ?thesis by (auto simp: ai_query_def i Let_def rbind_Inr_iff split: if_splits)
qed (use assms in \<open>auto simp: ai_query_def\<close>)

section \<open>Properties\<close>

text \<open>The answer before it is cut to the buffer, from the class of the query and the answers and confidences
  of the two engines.\<close>

definition answer :: "QueryClass \<Rightarrow> u8 list \<times> u32 \<Rightarrow> u8 list \<times> u32 \<Rightarrow> u8 list" where
  "answer q e n =
     (let (we, wn) = weights q; E = take 2047 (fst e); N = take 2047 (fst n) in
      if snd e * we div 100 \<ge> snd n * wn div 100
      then if snd n > 60 \<and> q = QUERY_LANGUAGE then bytes_of ''[Verified] '' @ E @ 10 # bytes_of ''[Context] '' @ N else E
      else if snd e = 0 then bytes_of ''[CONSTRAINT BLOCKED] '' @ N else N)"

lemma fuse_answer:
  assumes "0 \<notin> set (fst e)" "0 \<notin> set (fst n)" "length buf = 2048"
  shows "\<exists>r. fuse q (partial_result a e) (partial_result b n) buf = Inr r \<and> length r = 2048
    \<and> chars (r[2047 := 0]) = take 2047 (answer q e n)"
proof -
  let ?E = "take 2047 (fst e)" and ?N = "take 2047 (fst n)"
  have z: "0 \<notin> set ?E" "0 \<notin> set ?N" using assms(1,2) by (auto dest: in_set_takeD)
  have lit: "0 \<notin> set (bytes_of ''[Verified] '' @ ?E @ 10 # bytes_of ''[Context] '' @ ?N)" "0 \<notin> set (bytes_of ''[CONSTRAINT BLOCKED] '' @ ?N)"
    using z by (auto simp: bytes_of_def of_char_def)
  have conf: "confidence_pct (partial_result src r) = snd r" for src r by (simp add: partial_result_def)
  note parts = conf partial_text[OF assms(1)] partial_text[OF assms(2)]
  note res = chars_strncpy[OF z(1) assms(3)] chars_strncpy[OF z(2) assms(3)] filled_ok[OF lit(1) assms(3)] filled_ok[OF lit(2) assms(3)]
  obtain we wn where w: "weights q = (we, wn)" by fastforce
  have sz: "AI_RESPONSE_BUF_SIZE - 1 = 2047" by (simp add: AI_RESPONSE_BUF_SIZE_def)
  have tt: "take 2047 ?E = ?E" "take 2047 ?N = ?N" by simp_all
  note defs = fuse_def answer_def w parts format_verified format_blocked sz Let_def prod.case sum.simps
  show ?thesis
  proof (cases "snd n * wn div 100 \<le> snd e * we div 100")
    case score: True
    show ?thesis
    proof (cases "60 < snd n \<and> q = QUERY_LANGUAGE")
      case True
      show ?thesis unfolding defs if_P[OF score] if_P[OF True] using res(5,6) by blast
    next
      case False
      show ?thesis unfolding defs if_P[OF score] if_not_P[OF False] tt using res(1,2) tt by metis
    qed
  next
    case score: False
    show ?thesis
    proof (cases "snd e = 0")
      case True
      show ?thesis unfolding defs if_not_P[OF score] if_P[OF True] using res(7,8) by blast
    next
      case False
      show ?thesis unfolding defs if_not_P[OF score] if_not_P[OF False] tt using res(3,4) tt by metis
    qed
  qed
qed


definition toy_engines :: engines where
  "toy_engines = \<lparr>eq_input = replicate 256 0, explicit_evaluate = (\<lambda>_ _ _. (bytes_of ''no'', 0)),
     nq_prompt = replicate 256 0, neural_infer = (\<lambda>_ _ _ _. (bytes_of ''yes'', 50)),
     AI_SOURCE_EXPLICIT = 0, AI_SOURCE_NEURAL = 1\<rparr>"


end
