(* ===== verification/Syscall.thy ===== *)
theory Syscall
  imports Timer Ai
begin

text \<open>
  System calls, \<^verbatim>\<open>kernel/syscall.c\<close>: the handlers, the table, the dispatcher, and the gate \<^verbatim>\<open>isr128\<close> of
  \<^verbatim>\<open>arch/x86/interrupts.asm\<close> that leads to it. The state extends the clock by the memory that user pointers
  reach and the response buffer of the query dispatcher. The functions that the handlers call and that the
  repository does not declare (a lookup by path, surfaces of two arguments, their mapping, the field that marks
  a surface) are parameters, and so is what the software interrupt of a yield does.
\<close>

section \<open>State and environment\<close>

record kern = clock +
  umem :: mem
  ai_response_buf :: "u8 list"

record sys_env =
  env_vfs_find :: "u8 list \<Rightarrow> bool"
  env_surface_create :: "u32 \<Rightarrow> u32 \<Rightarrow> kern \<Rightarrow> (u32 \<times> kern) result"
  env_surface_map :: "u32 \<Rightarrow> u32 \<Rightarrow> kern \<Rightarrow> kern result"
  env_set_dirty :: "u32 \<Rightarrow> mem \<Rightarrow> mem"
  env_engines :: engines
  env_iot :: bool
  env_int20 :: "sched \<Rightarrow> sched result"
  env_wake :: "kern \<Rightarrow> kern result"

type_synonym handler = "u32 \<Rightarrow> u32 \<Rightarrow> u32 \<Rightarrow> kern \<Rightarrow> (u32 \<times> kern) result"

definition SYSCALL_COUNT :: u32 where "SYSCALL_COUNT = 14"

text \<open>The characters of the string at a user pointer; a string without end is never left.\<close>

definition user_string :: "u32 \<Rightarrow> kern \<Rightarrow> u8 list result" where
  "user_string p s = (case luna_strlen (umem s) p of None \<Rightarrow> Inl NoReturn | Some n \<Rightarrow> Inr (load_bytes (umem s) p (unat n)))"

section \<open>Handlers\<close>

definition sys_exit :: "sys_env \<Rightarrow> handler" where
  "sys_exit env code _ _ s =
     (case process_get_current (tsched s) of
        None \<Rightarrow> Inl NullDeref
      | Some p \<Rightarrow>
          let sch = process_kill (pid (process_table (tsched s) ! p)) (tsched s) in
          rbind (scheduler_yield (env_int20 env) sch) (\<lambda>sch. Inr (code, s\<lparr>tsched := sch\<rparr>)))"

definition sys_read :: "sys_env \<Rightarrow> handler" where
  "sys_read env fd buf_virt n s = Inr (0, s)"

text \<open>The loop over the buffer only reads it.\<close>

definition sys_write :: "sys_env \<Rightarrow> handler" where
  "sys_write env fd buf_virt n s = Inr (n, s)"

definition sys_open :: "sys_env \<Rightarrow> handler" where
  "sys_open env path_virt flags _ s =
     rbind (user_string path_virt s) (\<lambda>path.
       if \<not> env_vfs_find env path then Inr (- 1, s)
       else Inr (0, s\<lparr>tledger := ledger_enqueue (tledger s) LEDGER_ACTION_VFS_READ LEDGER_STREAM_KERNEL path (timer_ticks s)\<rparr>))"

definition sys_close :: "sys_env \<Rightarrow> handler" where
  "sys_close env fd _ _ s = Inr (0, s)"

definition sys_getpid :: "sys_env \<Rightarrow> handler" where
  "sys_getpid env _ _ _ s =
     Inr (case process_get_current (tsched s) of None \<Rightarrow> 0 | Some p \<Rightarrow> pid (process_table (tsched s) ! p), s)"

definition sys_fork :: "sys_env \<Rightarrow> handler" where
  "sys_fork env _ _ _ s = Inr (- 1, s)"

definition sys_map_surface :: "sys_env \<Rightarrow> handler" where
  "sys_map_surface env w h _ s =
     rbind (env_surface_create env w h s) (\<lambda>(sf, s).
       if sf = 0 then Inr (- 1, s)
       else
         rbind (case process_get_current (tsched s) of
                  None \<Rightarrow> Inr s
                | Some p \<Rightarrow> env_surface_map env sf (page_dir (process_table (tsched s) ! p)) s) (\<lambda>s. Inr (sf, s)))"

definition sys_submit_surface :: "sys_env \<Rightarrow> handler" where
  "sys_submit_surface env surface_ptr _ _ s =
     Inr (0, if surface_ptr \<noteq> 0 then s\<lparr>umem := env_set_dirty env surface_ptr (umem s)\<rparr> else s)"

definition sys_get_input :: "sys_env \<Rightarrow> handler" where
  "sys_get_input env event_buf _ _ s = Inr (0, s)"

definition sys_sbrk :: "sys_env \<Rightarrow> handler" where
  "sys_sbrk env increment _ _ s = Inr (0, s)"

definition sys_sleep :: "sys_env \<Rightarrow> handler" where
  "sys_sleep env ms _ _ s =
     (case timer_sleep_ms (env_wake env) ms s of
        None \<Rightarrow> Inl NoReturn
      | Some r \<Rightarrow> rbind r (\<lambda>s. Inr (0, s)))"

text \<open>The copy of the answer; a length beyond the answer reads behind the response buffer.\<close>

definition sys_ai_query :: "sys_env \<Rightarrow> handler" where
  "sys_ai_query env prompt_virt resp_virt max_len s =
     rbind (if prompt_virt = 0 then Inr None else rbind (user_string prompt_virt s) (\<lambda>p. Inr (Some p))) (\<lambda>prompt.
     rbind (ai_query (env_engines env) (env_iot env) prompt (Some \<lparr>caller_ring = 3, restrict_to_shell = False\<rparr>) (ai_response_buf s)) (\<lambda>(ans, buf).
       let s = s\<lparr>ai_response_buf := buf\<rparr>;
           rlen = of_nat (length ans);
           rlen = (if rlen \<ge> max_len then max_len - 1 else rlen) in
       if unat rlen > length ans then Inl OutOfBounds
       else
         let m = store_bytes (umem s) resp_virt (take (unat rlen) ans)
         in Inr (rlen, s\<lparr>umem := m(resp_virt + rlen := 0)\<rparr>)))"

definition sys_ledger_read :: "sys_env \<Rightarrow> handler" where
  "sys_ledger_read env idx out_virt _ s =
     (case ledger_get_block (tledger s) idx of
        None \<Rightarrow> Inr (0, s)
      | Some b \<Rightarrow> Inr (176, s\<lparr>umem := store_bytes (umem s) out_virt (encode b @ block_hash b)\<rparr>))"

definition sys_undefined :: "u32 \<Rightarrow> u32" where
  "sys_undefined num = - 1"

section \<open>Dispatch\<close>

definition syscall_table :: "sys_env \<Rightarrow> handler list" where
  "syscall_table env = map (\<lambda>h. h env)
     [sys_exit, sys_read, sys_write, sys_open, sys_close, sys_getpid, sys_fork, sys_map_surface, sys_submit_surface,
      sys_get_input, sys_sbrk, sys_sleep, sys_ai_query, sys_ledger_read]"

definition syscall_init :: "'a kern_scheme \<Rightarrow> 'a kern_scheme" where
  "syscall_init s = s"

definition syscall_dispatch :: "sys_env \<Rightarrow> CPU_Regs \<Rightarrow> kern \<Rightarrow> (u32 \<times> CPU_Regs \<times> kern) result" where
  "syscall_dispatch env regs s =
     (let num = r_eax regs in
      if num \<ge> SYSCALL_COUNT then Inr (sys_undefined num, regs, s)
      else
        rbind ((syscall_table env ! unat num) (r_ebx regs) (r_ecx regs) (r_edx regs) s) (\<lambda>(result, s).
          Inr (result, regs\<lparr>r_eax := result\<rparr>, s)))"

text \<open>The gate: the frame that \<^verbatim>\<open>isr128\<close> builds from the registers of the caller, the call, and what the end
  of the stub restores.\<close>

definition isr128 :: "sys_env \<Rightarrow> u32 \<Rightarrow> cpu \<Rightarrow> kern \<Rightarrow> (cpu \<times> kern) result" where
  "isr128 env sp c s =
     (let f = stub_frame c sp 0x80 0 in
      rbind (syscall_dispatch env (as_regs f) s) (\<lambda>(_, regs, s). Inr (stub_return (write_regs regs f) c, s)))"

text \<open>The macro that programs make a call with: the number and the arguments in the registers, the software
  interrupt, and the result from \<^verbatim>\<open>eax\<close>.\<close>

definition LUNA_SYSCALL :: "sys_env \<Rightarrow> u32 \<Rightarrow> u32 \<Rightarrow> u32 \<Rightarrow> u32 \<Rightarrow> u32 \<Rightarrow> cpu \<Rightarrow> kern \<Rightarrow> (u32 \<times> cpu \<times> kern) result" where
  "LUNA_SYSCALL env sp num a b c user s =
     rbind (isr128 env sp (user\<lparr>c_eax := num, c_ebx := a, c_ecx := b, c_edx := c\<rparr>) s)
       (\<lambda>(user, s). Inr (c_eax user, user, s))"

section \<open>What the handlers keep\<close>

lemma sched_ok_slot:
  assumes "sched_ok s" "pnext q = pnext (process_table s ! i)" "ticks_alloc q = ticks_alloc (process_table s ! i)"
    and "pstate q = PROC_RUNNING \<Longrightarrow> pstate (process_table s ! i) = PROC_RUNNING"
  shows "sched_ok (set_slot i q s)"
proof -
  obtain qs where qs: "queues s qs" using assms(1) by (auto simp: sched_ok_def)
  have "queues (set_slot i q s) qs"
    using qs queues_cong[of "set_slot i q s" s qs] slot_field_links[OF assms(2)] by (simp add: set_slot_def)
  moreover have f: "current_process (set_slot i q s) = current_process s" "length (process_table (set_slot i q s)) = length (process_table s)"
    by (simp_all add: set_slot_def)
  moreover have "one_running (set_slot i q s)"
    unfolding one_running_def
  proof (intro allI impI)
    fix j assume j: "j < length (process_table (set_slot i q s))" "pstate (process_table (set_slot i q s) ! j) = PROC_RUNNING"
    have "pstate (process_table s ! j) = PROC_RUNNING"
    proof (cases "j = i")
      case True
      with j have "pstate q = PROC_RUNNING" by (simp add: set_slot_def)
      from assms(4)[OF this] True show ?thesis by simp
    qed (use j in \<open>simp add: set_slot_def\<close>)
    moreover have "one_running s" using assms(1) by (simp only: sched_ok_def)
    ultimately show "current_process (set_slot i q s) = Some j"
      using j(1) unfolding f one_running_def by blast
  qed
  moreover have "slices (set_slot i q s) = slices s" by (rule slices_set_slot[OF assms(3)])
  ultimately show ?thesis using assms(1) unfolding sched_ok_def f by metis
qed

lemma sched_ok_kill: "sched_ok s \<Longrightarrow> sched_ok (process_kill n s)"
  unfolding process_kill_def by (cases "process_get_by_pid n s") (auto intro: sched_ok_slot)

lemma sched_ok_yield:
  assumes "sched_ok s"
  shows "\<exists>s'. scheduler_yield scheduler_tick s = Inr s' \<and> sched_ok s'"
proof (cases "current_process s")
  case None
  with sched_ok_tick[OF assms] show ?thesis by (simp add: scheduler_yield_def)
next
  case (Some p)
  have "sched_ok (set_slot p ((process_table s ! p)\<lparr>ticks_run := 0\<rparr>) s)" by (rule sched_ok_slot[OF assms]) simp_all
  from sched_ok_tick[OF this] Some show ?thesis by (simp add: scheduler_yield_def)
qed

lemma clock_ok_fields:
  "tsched s' = tsched s \<Longrightarrow> tledger s' = tledger s \<Longrightarrow> clock_ok s' = clock_ok s"
  by (simp add: clock_ok_def)

text \<open>The environment in which the parts of this development stand for the calls they model, and the others
  leave the scheduler and the ledger alone.\<close>

definition env_ok :: "sys_env \<Rightarrow> bool" where
  "env_ok env \<longleftrightarrow> env_int20 env = scheduler_tick \<and> env_wake env = timer_irq_handler
     \<and> (\<forall>w h s r s'. env_surface_create env w h s = Inr (r, s') \<longrightarrow> tsched s' = tsched s \<and> tledger s' = tledger s)
     \<and> (\<forall>p d s s'. env_surface_map env p d s = Inr s' \<longrightarrow> tsched s' = tsched s \<and> tledger s' = tledger s)"

definition event_room :: "kern \<Rightarrow> bool" where
  "event_room s \<longleftrightarrow> unat (ledger_count (tledger s)) + length (contents (lq (tledger s))) < 4096"

text \<open>The outcome of a handler: a fault where \<open>faulty\<close>, or a sound state.\<close>

definition outcome :: "bool \<Rightarrow> (u32 \<times> kern) result \<Rightarrow> bool" where
  "outcome faulty r = (case r of Inl e \<Rightarrow> faulty | Inr (v, s) \<Rightarrow> clock_ok s)"

lemma outcome_simps [simp]: "outcome f (Inl e) = f" "outcome f (Inr (v, s)) = clock_ok s"
  by (simp_all add: outcome_def)

lemma outcome_rbind:
  "(\<And>e. r = Inl e \<Longrightarrow> f) \<Longrightarrow> (\<And>x. r = Inr x \<Longrightarrow> outcome f (g x)) \<Longrightarrow> outcome f (rbind r g)"
  by (cases r) simp_all

lemma sys_exit_ok:
  assumes "env_ok env" "clock_ok s"
  shows "outcome True (sys_exit env a b c s)"
proof (cases "process_get_current (tsched s)")
  case (Some p)
  have "sched_ok (process_kill (pid (process_table (tsched s) ! p)) (tsched s))"
    using assms(2) by (intro sched_ok_kill) (simp add: clock_ok_def)
  from sched_ok_yield[OF this] assms Some show ?thesis
    by (auto simp: sys_exit_def env_ok_def clock_ok_def Let_def)
qed (simp add: sys_exit_def)

lemma sys_open_ok:
  assumes "clock_ok s" "event_room s"
  shows "outcome True (sys_open env a b c s)"
proof -
  have l: "chain_inv (tledger s)" using assms(1) by (simp add: clock_ok_def ledger_room_def)
  have "clock_ok (s\<lparr>tledger := ledger_enqueue (tledger s) x y p t\<rparr>)" for x y p t
    using enqueue_inv[OF l, of x y p t] assms by (simp add: clock_ok_def ledger_room_def event_room_def)
  with assms(1) show ?thesis unfolding sys_open_def by (intro outcome_rbind) auto
qed

lemma sys_sleep_ok:
  assumes "env_ok env" "clock_ok s" "unat (system_ticks s) + 2 ^ 32 \<le> 2 ^ 64"
  shows "outcome False (sys_sleep env a b c s)"
proof -
  have "unat (system_ticks s) + unat a < 2 ^ 64" using assms(3) u32_bound[of a] by simp
  from irq0.sleep_returns[OF assms(2) this] assms(1) show ?thesis by (auto simp: sys_sleep_def env_ok_def)
qed

lemma sys_map_surface_ok:
  assumes "env_ok env" "clock_ok s"
  shows "outcome True (sys_map_surface env a b c s)"
  unfolding sys_map_surface_def
proof (rule outcome_rbind)
  fix x assume x: "env_surface_create env a b s = Inr x"
  obtain sf s1 where p: "x = (sf, s1)" by (cases x)
  with x assms(1) have "tsched s1 = tsched s" "tledger s1 = tledger s" unfolding env_ok_def by blast+
  then have ok: "clock_ok s1" using assms(2) clock_ok_fields by blast
  have "clock_ok s2" if "env_surface_map env sf d s1 = Inr s2" for d s2
    using that assms(1) ok clock_ok_fields unfolding env_ok_def by blast
  with ok show "outcome True (case x of (sf, s) \<Rightarrow> if sf = 0 then Inr (- 1, s) else
      rbind (case process_get_current (tsched s) of None \<Rightarrow> Inr s
        | Some p \<Rightarrow> env_surface_map env sf (page_dir (process_table (tsched s) ! p)) s) (\<lambda>s. Inr (sf, s)))"
    by (auto simp: p intro!: outcome_rbind split: option.splits)
qed simp

lemma sys_ai_query_ok:
  assumes "clock_ok s"
  shows "outcome True (sys_ai_query env a b c s)"
proof -
  have "clock_ok (s\<lparr>ai_response_buf := x, umem := y\<rparr>)" for x y using assms by (simp add: clock_ok_def)
  then show ?thesis
    unfolding sys_ai_query_def Let_def by (intro outcome_rbind) (auto split: prod.splits)
qed

text \<open>The query copies a terminated answer into the caller's buffer and nothing outside it. A buffer of length
  zero wraps the length: the copy runs over 4 GiB.\<close>

lemma sys_ai_query_bounded:
  assumes "sys_ai_query env p r n s = Inr (v, s')" "n \<noteq> 0"
  shows "v < n" "\<not> q - r < n \<Longrightarrow> umem s' q = umem s q" "umem s' (r + v) = 0"
proof -
  from assms(1) obtain ans buf where k: "(let s1 = s\<lparr>ai_response_buf := buf\<rparr>; rlen = of_nat (length ans);
           rlen = (if rlen \<ge> n then n - 1 else rlen) in
       if unat rlen > length ans then Inl OutOfBounds
       else let m = store_bytes (umem s1) r (take (unat rlen) ans)
         in Inr (rlen, s1\<lparr>umem := m(r + rlen := 0)\<rparr>)) = Inr (v, s')"
    unfolding sys_ai_query_def by (fastforce simp only: rbind_Inr_iff split: prod.splits)
  define w where "w = (if of_nat (length ans) \<ge> n then n - 1 else of_nat (length ans))"
  from k have "unat w \<le> length ans" "v = w"
    "s' = s\<lparr>ai_response_buf := buf, umem := (store_bytes (umem s) r (take (unat w) ans))(r + w := 0)\<rparr>"
    unfolding Let_def w_def[symmetric] by (auto split: if_split_asm)
  then have v: "v = (if of_nat (length ans) \<ge> n then n - 1 else of_nat (length ans))" "unat v \<le> length ans"
    and m: "umem s' = (store_bytes (umem s) r (take (unat v) ans))(r + v := 0)"
    by (simp_all add: w_def)
  have "n - 1 < n" using assms(2) by (simp add: word_less_nat_alt unat_minus_one unat_gt_0)
  then show lt: "v < n" using v(1) by (auto simp: not_le)
  show "umem s' (r + v) = 0" by (simp add: m)
  have len: "length (take (unat v) ans) \<le> 2 ^ 32" using u32_bound[of v] by simp
  assume q: "\<not> q - r < n"
  then have "q \<noteq> r + v" using lt by auto
  moreover have "\<not> unat (q - r) < length (take (unat v) ans)" using q lt v(2) by (simp add: word_less_nat_alt)
  ultimately show "umem s' q = umem s q" by (simp only: m store_bytes_lookup[OF len] fun_upd_other if_False simp_thms)
qed

lemma sys_ai_query_zero:
  assumes "ai_query (env_engines env) (env_iot env) None (Some \<lparr>caller_ring = 3, restrict_to_shell = False\<rparr>) (ai_response_buf s) = Inr (ans, buf)" "length ans < 2 ^ 32 - 1"
  shows "sys_ai_query env 0 r 0 s = Inl OutOfBounds"
  using assms by (simp add: sys_ai_query_def unsigned_minus_1_eq_mask mask_eq_exp_minus_1)

section \<open>Properties\<close>


definition sample_kern :: kern where
  "sample_kern = \<lparr>idt = (\<lambda>_. make_gate 0 0 0), idt_ptr = \<lparr>ip_limit = 0, ip_base = 0\<rparr>, irq_handlers = replicate 16 0,
     reg_idtr = \<lparr>ip_limit = 0, ip_base = 0\<rparr>, ports = [], system_ticks = 9, tick_hz = 1000, tsched = sample_sched,
     tledger = ledger_init blank_ledger, umem = (\<lambda>_. 0), ai_response_buf = replicate 2048 0\<rparr>"

definition sample_env :: sys_env where
  "sample_env = \<lparr>env_vfs_find = (\<lambda>_. True), env_surface_create = (\<lambda>_ _ s. Inr (0, s)), env_surface_map = (\<lambda>_ _ s. Inr s),
     env_set_dirty = (\<lambda>_ m. m), env_engines = toy_engines, env_iot = False, env_int20 = scheduler_tick,
     env_wake = timer_irq_handler\<rparr>"

definition call_regs :: "u32 \<Rightarrow> u32 \<Rightarrow> CPU_Regs" where
  "call_regs num a = (as_regs (replicate 15 0))\<lparr>r_eax := num, r_ebx := a\<rparr>"


lemma gate_returns: "14 \<le> sp \<Longrightarrow> isr128 env sp c s = Inr (c, s)"
  by (simp add: isr128_def Let_def syscall_dispatch_def as_regs_def stub_frame_def SYSCALL_COUNT_def write_regs_def
      stub_return_def numeral_eq_Suc)

text \<open>C34: No system call ever reaches its handler. The gate pushes the segment registers below the registers it
  passes, so the dispatcher takes the saved stack pointer for the call number; a stack pointer of 14 or more is
  an unknown call. All registers of the caller come back unchanged and the state of the kernel is untouched; the
  macro that programs call with returns the number of the call as its result.\<close>

theorem system_calls_lost:
  assumes "14 \<le> sp"
  shows "isr128 env sp c s = Inr (c, s)
    \<and> LUNA_SYSCALL env sp num x y z c s = Inr (num, c\<lparr>c_eax := num, c_ebx := x, c_ecx := y, c_edx := z\<rparr>, s)"
  using gate_returns[OF assms] by (simp add: LUNA_SYSCALL_def)

definition sample_caller :: cpu where
  "sample_caller = \<lparr>c_eax = 5, c_ecx = 0, c_edx = 0, c_ebx = 0, c_esp = 0xBFFFFF00, c_ebp = 0, c_esi = 0, c_edi = 0,
     c_ds = 0x23, c_es = 0x23, c_fs = 0x23, c_gs = 0x23, c_eip = 0x400000, c_cs = 0x1B, c_eflags = 0x202,
     c_user_esp = 0xBFFFFF00, c_user_ss = 0x23\<rparr>"

theorem system_calls_lost_witness:
  "isr128 sample_env 0xC0100FD8 sample_caller sample_kern = Inr (sample_caller, sample_kern)
   \<and> (\<exists>c. LUNA_SYSCALL sample_env 0xC0100FD8 5 0 0 0 sample_caller sample_kern = Inr (5, c, sample_kern))"
  using system_calls_lost[of "0xC0100FD8" sample_env sample_caller sample_kern 5 0 0 0] by simp

end
