(* ===== verification/Shell.thy ===== *)
theory Shell
  imports Syscall Framebuffer Arena "HOL-Library.Signed_Division"
begin

text \<open>
  The command shell \<^verbatim>\<open>user/shell/shell.c\<close>: the line editor, the history, the tokenizer, the routing of
  sentences and the built-in commands. The state extends the kernel by the variables of the shell, the
  framebuffer, the script arena, a file store and the calls made to the text screen. Buffers are byte lists,
  strings their characters. What the shell calls and the repository does not define with the signature used
  (the path-based file functions, the resolution of sentences, parser and evaluator of scripts, the text screen)
  is a parameter or a recorded call. The bytes of an uninitialised buffer are a parameter too.
\<close>

section \<open>State\<close>

definition SHELL_BUF_LEN :: nat where "SHELL_BUF_LEN = 256"
definition HISTORY_DEPTH :: int where "HISTORY_DEPTH = 8"
definition MAX_ARGS :: nat where "MAX_ARGS = 16"

datatype screen_call =
    FontPrint int int "u8 list"
  | FontSetFg u32
  | FontSetBg u32
  | FontEraseChar int int int

record 'f shell = kern +
  input_buf :: "u8 list"
  sh_cursor :: int
  history :: "u8 list list"
  hist_count :: int
  hist_idx :: int
  shell_row :: int
  shell_running :: bool
  sh_fb :: framebuffer
  g_lang_arena :: Arena
  files :: 'f
  screen_calls :: "screen_call list"

text \<open>An entry of a directory listing: the address of its name, its size and permissions.\<close>

record VFSNode =
  vn_name :: u32
  vn_size :: u32
  vn_perms :: u32

record 'f shell_env =
  se_dev :: device
  se_engines :: engines
  se_iot :: bool
  se_junk :: "nat \<Rightarrow> u8 list"
  se_nlp :: "u8 list \<Rightarrow> u8 list option"
  se_vfs_list :: "'f \<Rightarrow> VFSNode list"
  se_vfs_read :: "u8 list \<Rightarrow> nat \<Rightarrow> 'f \<Rightarrow> int \<times> u8 list"
  se_vfs_write :: "u8 list \<Rightarrow> u8 list \<Rightarrow> 'f \<Rightarrow> int \<times> 'f"
  se_vfs_delete :: "u8 list \<Rightarrow> 'f \<Rightarrow> bool \<times> 'f"
  se_perm :: "u32 \<times> u32 \<times> u32"
  se_str_at :: "u32 \<Rightarrow> u8 list"
  se_lit :: "string \<Rightarrow> u32"
  se_parse :: "u8 list \<Rightarrow> Arena \<Rightarrow> u32 \<times> Arena"
  se_eval :: "u32 \<Rightarrow> Arena \<Rightarrow> 'f \<Rightarrow> (Arena \<times> 'f) result"

text \<open>The string in a buffer that is handed on; without a terminator it runs out of the buffer.\<close>

definition string_in :: "u8 list \<Rightarrow> u8 list result" where
  "string_in buf = (if 0 \<in> set buf then Inr (chars buf) else Inl OutOfBounds)"

text \<open>\<^verbatim>\<open>luna_snprintf\<close> into a local buffer of \<open>mx\<close> bytes, and the string it leaves there. String arguments are
  numbered by their position; the formats that use this read them with \<^verbatim>\<open>%s\<close> only.\<close>

definition format_line :: "nat \<Rightarrow> string \<Rightarrow> (u32 + u8 list) list \<Rightarrow> u8 list result" where
  "format_line mx fmt args =
     rbind (luna_snprintf (\<lambda>a. case args ! (unat a - 1) of Inl _ \<Rightarrow> [] | Inr t \<Rightarrow> t) mx (bytes_of fmt)
             (map (\<lambda>(i, a). case a of Inl v \<Rightarrow> v | Inr _ \<Rightarrow> of_nat i) (zip [1..<Suc (length args)] args)))
       (\<lambda>(n, out). Inr (chars out))"

section \<open>Output\<close>

definition shell_print :: "'f shell_env \<Rightarrow> u8 list \<Rightarrow> 'f shell \<Rightarrow> 'f shell result" where
  "shell_print env str s =
     (case uart_puts (se_dev env) str (ports s) of
        None \<Rightarrow> Inl NoReturn
      | Some tr \<Rightarrow> Inr (s\<lparr>ports := tr, screen_calls := screen_calls s @ [FontPrint 0 (shell_row s * 16) str]\<rparr>))"

definition shell_println :: "'f shell_env \<Rightarrow> u8 list \<Rightarrow> 'f shell \<Rightarrow> 'f shell result" where
  "shell_println env str s =
     rbind (shell_print env str s) (\<lambda>s.
       let s = s\<lparr>shell_row := shell_row s + 1\<rparr>
       in Inr (if shell_row s > 46 then s\<lparr>shell_row := 0\<rparr> else s))"

text \<open>The variable arguments are collected and not passed on.\<close>

definition shell_printf :: "'f shell_env \<Rightarrow> u8 list \<Rightarrow> u32 list \<Rightarrow> 'f shell \<Rightarrow> 'f shell result" where
  "shell_printf env fmt args s =
     rbind (luna_snprintf (se_str_at env) 512 fmt []) (\<lambda>(n, out). shell_println env (chars out) s)"

definition font_set_fg :: "u32 \<Rightarrow> 'f shell \<Rightarrow> 'f shell" where
  "font_set_fg c s = s\<lparr>screen_calls := screen_calls s @ [FontSetFg c]\<rparr>"

definition shell_prompt :: "'f shell_env \<Rightarrow> 'f shell \<Rightarrow> 'f shell result" where
  "shell_prompt env s =
     rbind (shell_print env (bytes_of (NEWLINE @ ''luna@aeterna:~$ '')) (font_set_fg 0x00E5FF s)) (\<lambda>s.
       Inr (font_set_fg 0xFFFFFF s))"

text \<open>A line for each element of a list, in order.\<close>

fun each :: "('a \<Rightarrow> 's \<Rightarrow> 's result) \<Rightarrow> 'a list \<Rightarrow> 's \<Rightarrow> 's result" where
  "each f [] s = Inr s"
| "each f (x # xs) s = rbind (f x s) (each f xs)"

section \<open>Built-in commands\<close>

definition cmd_ls :: "'f shell_env \<Rightarrow> 'f shell \<Rightarrow> 'f shell result" where
  "cmd_ls env s =
     (let (r, w, x) = se_perm env in
      each (\<lambda>node s.
        rbind (luna_snprintf (se_str_at env) 128 (bytes_of ''  %-20s  %6u bytes  [%s%s%s]'')
                 [vn_name node, vn_size node,
                  se_lit env (if vn_perms node AND r \<noteq> 0 then ''r'' else ''-''),
                  se_lit env (if vn_perms node AND w \<noteq> 0 then ''w'' else ''-''),
                  se_lit env (if vn_perms node AND x \<noteq> 0 then ''x'' else ''-'')]) (\<lambda>(n, out).
          shell_println env (chars out) s)) (se_vfs_list env (files s)) s)"

definition cmd_cat :: "'f shell_env \<Rightarrow> u8 list list \<Rightarrow> 'f shell \<Rightarrow> 'f shell result" where
  "cmd_cat env argv s =
     (if length argv < 2 then shell_println env (bytes_of ''Usage: cat <file>'') s
      else
        let (rd, buf) = se_vfs_read env (argv ! 1) 1024 (files s) in
        if rd < 0 then shell_println env (bytes_of ''cat: file not found'') s
        else if rd \<ge> 1024 then Inl OutOfBounds
        else shell_println env (chars (buf[nat rd := 0])) s)"

definition cmd_write :: "'f shell_env \<Rightarrow> u8 list list \<Rightarrow> 'f shell \<Rightarrow> 'f shell result" where
  "cmd_write env argv s =
     (if length argv < 3 then shell_println env (bytes_of ''Usage: write <file> <data>'') s
      else
        let (r, fs) = se_vfs_write env (argv ! 1) (argv ! 2) (files s);
            s = s\<lparr>files := fs\<rparr> in
        if r < 0 then shell_println env (bytes_of ''write: failed'') s
        else shell_println env (bytes_of ''OK'') s)"

definition cmd_rm :: "'f shell_env \<Rightarrow> u8 list list \<Rightarrow> 'f shell \<Rightarrow> 'f shell result" where
  "cmd_rm env argv s =
     (if length argv < 2 then shell_println env (bytes_of ''Usage: rm <file>'') s
      else
        let (ok, fs) = se_vfs_delete env (argv ! 1) (files s);
            s = s\<lparr>files := fs\<rparr> in
        if ok then shell_println env (bytes_of ''Deleted'') s
        else shell_println env (bytes_of ''rm: not found'') s)"

definition cmd_ledger :: "'f shell_env \<Rightarrow> u8 list list \<Rightarrow> 'f shell \<Rightarrow> 'f shell result" where
  "cmd_ledger env argv s =
     (if length argv \<ge> 2 \<and> argv ! 1 = bytes_of ''verify'' then
        shell_println env (bytes_of (if ledger_verify_chain (tledger s) then ''[LEDGER] Chain VALID'' else ''[LEDGER] TAMPER DETECTED'')) s
      else
        let count = ledger_get_count (tledger s);
            shown = (if count > 8 then 8 else count);
            first = (if count > shown then count - shown else 0) in
        rbind (format_line 128 ''[LEDGER] %u blocks'' [Inl count]) (\<lambda>line.
        rbind (shell_println env line s) (each (\<lambda>i s.
          case ledger_get_block (tledger s) i of
            None \<Rightarrow> Inl NullDeref
          | Some b \<Rightarrow>
              rbind (format_line 128 ''  [%04u] %s | %s | %.8s...''
                [Inl (index b), Inr (chars (target b)),
                 Inr (bytes_of (if action_type b = LEDGER_ACTION_VFS_WRITE then ''WRITE''
                                else if action_type b = LEDGER_ACTION_VFS_READ then ''READ'' else ''OTHER'')),
                 Inr (chars (sha256_to_hex (block_hash b)))]) (\<lambda>line. shell_println env line s))
          (map of_nat [unat first..<unat count]))))"

definition state_name :: "ProcessState \<Rightarrow> string" where
  "state_name st =
     (if st = PROC_RUNNING then ''RUNNING'' else if st = PROC_READY then ''READY''
      else if st = PROC_BLOCKED then ''BLOCKED'' else ''ZOMBIE'')"

definition cmd_ps :: "'f shell_env \<Rightarrow> 'f shell \<Rightarrow> 'f shell result" where
  "cmd_ps env s =
     rbind (shell_println env (bytes_of ''  PID  RING  STATE    NAME'') s) (each (\<lambda>i s.
       case process_get_by_pid i (tsched s) of
         None \<Rightarrow> Inr s
       | Some k \<Rightarrow>
           let p = process_table (tsched s) ! k in
           if pstate p = PROC_DEAD then Inr s
           else
             rbind (format_line 128 ''  %3u   %u    %-8s %s''
               [Inl (pid p), Inl (ucast (ring p)), Inr (bytes_of (state_name (pstate p))), Inr (chars (pname p))]) (\<lambda>line.
               shell_println env line s))
       (map of_nat [1..<MAX_PROCESSES]))"

text \<open>\<^verbatim>\<open>luna_strcat\<close> onto the query buffer of 256 bytes.\<close>

definition query_cat :: "u8 list \<Rightarrow> u8 list \<Rightarrow> u8 list result" where
  "query_cat query t = (if length query + length t < 256 then Inr (query @ t) else Inl OutOfBounds)"

fun join_args :: "u8 list \<Rightarrow> u8 list list \<Rightarrow> u8 list result" where
  "join_args query [] = Inr query"
| "join_args query (a # as) =
     rbind (query_cat query a) (\<lambda>query.
       if as \<noteq> [] then rbind (query_cat query (bytes_of '' '')) (\<lambda>query. join_args query as) else Inr query)"

definition cmd_ai :: "'f shell_env \<Rightarrow> u8 list list \<Rightarrow> 'f shell \<Rightarrow> 'f shell result" where
  "cmd_ai env argv s =
     (if length argv < 2 then shell_println env (bytes_of ''Usage: ai <query>'') s
      else
        rbind (join_args [] (tl argv)) (\<lambda>query.
        rbind (ai_query (se_engines env) (se_iot env) (Some query) (Some \<lparr>caller_ring = 0, restrict_to_shell = False\<rparr>) (ai_response_buf s)) (\<lambda>(resp, buf).
          shell_println env resp (s\<lparr>ai_response_buf := buf\<rparr>))))"

definition cmd_hash :: "'f shell_env \<Rightarrow> u8 list list \<Rightarrow> 'f shell \<Rightarrow> 'f shell result" where
  "cmd_hash env argv s =
     (if length argv < 2 then shell_println env (bytes_of ''Usage: hash <string|file>'') s
      else
        rbind (format_line 128 ''SHA-256: %s'' [Inr (chars (sha256_to_hex (sha256 (argv ! 1))))]) (\<lambda>line.
          shell_println env line s))"

definition cmd_run :: "'f shell_env \<Rightarrow> u8 list list \<Rightarrow> 'f shell \<Rightarrow> 'f shell result" where
  "cmd_run env argv s =
     (if length argv < 2 then shell_println env (bytes_of ''Usage: run <script.luna>'') s
      else
        let (rd, src) = se_vfs_read env (argv ! 1) 4095 (files s) in
        if rd < 0 then shell_println env (bytes_of ''run: script not found'') s
        else if rd \<ge> 4096 then Inl OutOfBounds
        else
          let (root, ar) = se_parse env (chars (src[nat rd := 0])) (arena_reset (g_lang_arena s)) in
          if root = 0 then shell_println env (bytes_of ''run: parse error'') (s\<lparr>g_lang_arena := ar\<rparr>)
          else
            rbind (se_eval env root ar (files s)) (\<lambda>(ar, fs).
              Inr (s\<lparr>g_lang_arena := arena_reset ar, files := fs\<rparr>)))"

definition DASH :: string where "DASH = [CHR 0xE2, CHR 0x80, CHR 0x94]"
definition ARROW :: string where "ARROW = [CHR 0xE2, CHR 0x86, CHR 0x92]"

definition cmd_help :: "'f shell_env \<Rightarrow> 'f shell \<Rightarrow> 'f shell result" where
  "cmd_help env s = each (\<lambda>l. shell_println env (bytes_of l))
     [''Luna OS '' @ DASH @ '' Project AETERNA | Available Commands:'',
      ''  ls                   '' @ DASH @ '' list filesystem'',
      ''  cat <file>           '' @ DASH @ '' read file'',
      ''  write <file> <data>  '' @ DASH @ '' write to file'',
      ''  rm <file>            '' @ DASH @ '' delete file'',
      ''  clear                '' @ DASH @ '' clear screen'',
      ''  ledger [verify]      '' @ DASH @ '' show/verify DAG-Ledger'',
      ''  ps                   '' @ DASH @ '' show processes'',
      ''  ai <query>           '' @ DASH @ '' query Luna AI'',
      ''  hash <text>          '' @ DASH @ '' SHA-256 hash'',
      ''  run <script.luna>    '' @ DASH @ '' run Luna script'',
      ''  shutdown             '' @ DASH @ '' halt system'',
      ''  <English sentence>   '' @ DASH @ '' NLP intent '' @ ARROW @ '' command''] s"

text \<open>The command word selects the command; halting with interrupts off never returns.\<close>

definition run_builtin :: "'f shell_env \<Rightarrow> u8 list list \<Rightarrow> 'f shell \<Rightarrow> 'f shell result" where
  "run_builtin env argv s =
     (let cmd = argv ! 0 in
      if cmd = bytes_of ''ls'' then cmd_ls env s
      else if cmd = bytes_of ''cat'' then cmd_cat env argv s
      else if cmd = bytes_of ''write'' then cmd_write env argv s
      else if cmd = bytes_of ''rm'' then cmd_rm env argv s
      else if cmd = bytes_of ''clear'' then Inr (s\<lparr>umem := fb_clear (sh_fb s) 0x000000 (umem s)\<rparr>)
      else if cmd = bytes_of ''ledger'' then cmd_ledger env argv s
      else if cmd = bytes_of ''ps'' then cmd_ps env s
      else if cmd = bytes_of ''ai'' then cmd_ai env argv s
      else if cmd = bytes_of ''hash'' then cmd_hash env argv s
      else if cmd = bytes_of ''run'' then cmd_run env argv s
      else if cmd = bytes_of ''help'' then cmd_help env s
      else if cmd = bytes_of ''shutdown'' then
        rbind (shell_println env (bytes_of ''Luna OS shutting down.'') s) (\<lambda>_. Inl NoReturn)
      else
        rbind (format_line 128 ''Unknown command: '%s' (try 'help')'' [Inr cmd]) (\<lambda>msg. shell_println env msg s))"

section \<open>Lines\<close>

text \<open>The tokenizer on memory, with the pointers it stores in \<^verbatim>\<open>argv\<close>. \<open>room\<close> counts the free entries.\<close>

fun tokenize_loop :: "nat \<Rightarrow> mem \<Rightarrow> u32 \<Rightarrow> u32 option \<Rightarrow> u32 option \<Rightarrow> (mem \<times> u32 list) option" where
  "tokenize_loop 0 m delim tok save = Some (m, [])"
| "tokenize_loop (Suc room) m delim tok save =
     (case tok of
        None \<Rightarrow> Some (m, [])
      | Some t \<Rightarrow>
          Option.bind (luna_strtok m None delim save) (\<lambda>(m, tok, save).
          Option.bind (tokenize_loop room m delim tok save) (\<lambda>(m, argv). Some (m, t # argv))))"

definition tokenize :: "mem \<Rightarrow> u32 \<Rightarrow> u32 \<Rightarrow> (mem \<times> u32 list) option" where
  "tokenize m delim line =
     Option.bind (luna_strtok m (Some line) delim None) (\<lambda>(m, tok, save). tokenize_loop (MAX_ARGS - 1) m delim tok save)"

text \<open>The words it finds.\<close>

definition BLANKS :: "u8 list" where "BLANKS = [0x20, 0x09]"

definition words_of :: "u8 list \<Rightarrow> u8 list list" where
  "words_of line = take (MAX_ARGS - 1) (tokens (set BLANKS) line)"

definition known_cmds :: "string list" where
  "known_cmds = [''ls'', ''cat'', ''write'', ''rm'', ''clear'', ''ledger'', ''ps'',
     ''ai'', ''hash'', ''run'', ''help'', ''shutdown'', ''reboot'']"

definition is_english_intent :: "u8 list \<Rightarrow> bool" where
  "is_english_intent line =
     (let first = take 31 (takeWhile (\<lambda>c. c \<noteq> 0x20) line) in
      if list_ex (\<lambda>k. first = bytes_of k) known_cmds then False else 0x20 \<in> set line)"

definition execute_words :: "'f shell_env \<Rightarrow> u8 list \<Rightarrow> 'f shell \<Rightarrow> 'f shell result" where
  "execute_words env line s =
     rbind (string_in (strncpy_into (se_junk env SHELL_BUF_LEN) line (SHELL_BUF_LEN - 1))) (\<lambda>line_copy.
       let argv = words_of line_copy in
       if argv = [] then Inr s else run_builtin env argv s)"

text \<open>What happens to a resolved sentence before it is executed in turn: it is announced and copied.\<close>

definition announce :: "'f shell_env \<Rightarrow> u8 list \<Rightarrow> 'f shell \<Rightarrow> (u8 list \<times> 'f shell) result" where
  "announce env mapped s =
     rbind (format_line SHELL_BUF_LEN (''[NLP] '' @ ARROW @ '' %s'') [Inr mapped]) (\<lambda>nl_buf.
     rbind (shell_println env nl_buf s) (\<lambda>s.
     rbind (string_in (strncpy_into (se_junk env SHELL_BUF_LEN) mapped (SHELL_BUF_LEN - 1))) (\<lambda>cmd_copy.
       Inr (cmd_copy, s))))"

definition resolve :: "'f shell_env \<Rightarrow> u8 list \<Rightarrow> u8 list option" where
  "resolve env line =
     (if is_english_intent line then
        (case se_nlp env line of Some mapped \<Rightarrow> if mapped \<noteq> [] then Some mapped else None | None \<Rightarrow> None)
      else None)"

definition trim :: "u8 list \<Rightarrow> u8 list" where
  "trim line = dropWhile (\<lambda>c. c = 0x20 \<or> c = 0x09) line"

text \<open>A resolved sentence is executed recursively, which need not end.\<close>

partial_function (option) execute_line :: "'f shell_env \<Rightarrow> u8 list \<Rightarrow> 'f shell \<Rightarrow> 'f shell result option" where
  [code]: "execute_line env line s =
     (if trim line = [] then Some (Inr s)
      else case resolve env (trim line) of
        None \<Rightarrow> Some (execute_words env (trim line) s)
      | Some mapped \<Rightarrow>
          (case announce env mapped s of
             Inl e \<Rightarrow> Some (Inl e)
           | Inr r \<Rightarrow> execute_line env (fst r) (snd r)))"

section \<open>Keys\<close>

definition put_char :: "int \<Rightarrow> u8 \<Rightarrow> 'f shell \<Rightarrow> 'f shell result" where
  "put_char i c s =
     (if 0 \<le> i \<and> i < int SHELL_BUF_LEN then Inr (s\<lparr>input_buf := (input_buf s)[nat i := c]\<rparr>) else Inl OutOfBounds)"

definition remember :: "'f shell \<Rightarrow> 'f shell result" where
  "remember s =
     (let i = hist_count s smod HISTORY_DEPTH in
      if i < 0 then Inl OutOfBounds
      else if hist_count s \<ge> 2147483647 then Inl SignedOverflow
      else Inr (s\<lparr>history := (history s)[nat i := strncpy_into (history s ! nat i) (chars (input_buf s)) (SHELL_BUF_LEN - 1)],
                  hist_count := hist_count s + 1\<rparr>))"

text \<open>The characters are of the signed type \<^verbatim>\<open>char\<close>.\<close>

definition shell_on_key :: "'f shell_env \<Rightarrow> u8 \<Rightarrow> 'f shell \<Rightarrow> 'f shell result" where
  "shell_on_key env c s =
     (if c = 0x0A then
        rbind (put_char (sh_cursor s) 0 s) (\<lambda>s.
        rbind (shell_println env [] s) (\<lambda>s.
        rbind (if sh_cursor s > 0 then remember s else Inr s) (\<lambda>s.
          case execute_line env (chars (input_buf s)) s of
            None \<Rightarrow> Inl NoReturn
          | Some r \<Rightarrow> rbind r (\<lambda>s. shell_prompt env (s\<lparr>sh_cursor := 0, hist_idx := - 1\<rparr>)))))
      else if c = 0x08 then
        if sh_cursor s > 0 then
          let s = s\<lparr>sh_cursor := sh_cursor s - 1\<rparr> in
          rbind (put_char (sh_cursor s) 0 s) (\<lambda>s.
            Inr (s\<lparr>screen_calls := screen_calls s @ [FontEraseChar 0 (shell_row s * 16) (sh_cursor s)]\<rparr>))
        else Inr s
      else if sint c \<ge> 0x20 \<and> sh_cursor s < int SHELL_BUF_LEN - 1 then
        rbind (put_char (sh_cursor s) c s) (\<lambda>s.
        let s = s\<lparr>sh_cursor := sh_cursor s + 1\<rparr> in
        rbind (put_char (sh_cursor s) 0 s) (\<lambda>s. shell_print env [c] s))
      else Inr s)"

definition shell_init :: "'f shell \<Rightarrow> 'f shell" where
  "shell_init s = s\<lparr>sh_cursor := 0, hist_count := 0, shell_running := True, input_buf := replicate SHELL_BUF_LEN 0\<rparr>"

text \<open>The loop that waits for interrupts ends when \<^verbatim>\<open>shell_running\<close> is cleared; an interrupt may do anything.\<close>

partial_function (option) hlt_loop :: "('f shell \<Rightarrow> 'f shell result) \<Rightarrow> 'f shell \<Rightarrow> 'f shell result option" where
  [code]: "hlt_loop interrupt s =
     (if shell_running s then
        (case interrupt s of Inl e \<Rightarrow> Some (Inl e) | Inr s \<Rightarrow> hlt_loop interrupt s)
      else Some (Inr s))"

definition shell_run :: "'f shell_env \<Rightarrow> ('f shell \<Rightarrow> 'f shell result) \<Rightarrow> 'f shell \<Rightarrow> 'f shell result option" where
  "shell_run env interrupt s =
     (case rbind (shell_println env (bytes_of (''Luna OS '' @ DASH @ '' Project AETERNA (type 'help' for commands)'')) s) (shell_prompt env) of
        Inl e \<Rightarrow> Some (Inl e)
      | Inr s \<Rightarrow> hlt_loop interrupt s)"

section \<open>What commands leave alone\<close>

text \<open>A contract of computations that may fault: they stay within a reflexive and transitive relation of states.\<close>

definition kept :: "('s \<Rightarrow> 's \<Rightarrow> bool) \<Rightarrow> 's \<Rightarrow> 's result \<Rightarrow> bool" where
  "kept keeps s r \<longleftrightarrow> (\<forall>s'. r = Inr s' \<longrightarrow> keeps s s')"

lemma kept_simps [simp]: "kept keeps s (Inl e)" "kept keeps s (Inr s') \<longleftrightarrow> keeps s s'"
  by (simp_all add: kept_def)

lemma kept_value: "(\<And>x. r = Inr x \<Longrightarrow> kept keeps s (f x)) \<Longrightarrow> kept keeps s (rbind r f)"
  by (cases r) simp_all

locale framed =
  fixes keeps :: "'s \<Rightarrow> 's \<Rightarrow> bool"
  assumes keeps_refl: "keeps s s"
    and keeps_trans: "keeps s t \<Longrightarrow> keeps t u \<Longrightarrow> keeps s u"
begin

lemma kept_then:
  assumes "kept keeps s r" "\<And>t. keeps s t \<Longrightarrow> kept keeps t (f t)"
  shows "kept keeps s (rbind r f)"
proof (cases r)
  case (Inr t)
  with assms have "keeps s t" "kept keeps t (f t)" by simp_all
  with Inr show ?thesis using keeps_trans by (auto simp: kept_def)
qed simp

lemma kept_after: "keeps s t \<Longrightarrow> kept keeps t r \<Longrightarrow> kept keeps s r"
  using keeps_trans by (auto simp: kept_def)

lemma kept_each: "(\<And>x t. kept keeps t (f x t)) \<Longrightarrow> kept keeps s (each f xs s)"
  by (induction xs arbitrary: s) (simp_all add: keeps_refl kept_then)

end

text \<open>Commands leave the editor, the processes, the ledger, the clock and the interrupt handlers alone, the output
  row on the screen and the response buffer at its size.\<close>

definition row_ok :: "'f shell \<Rightarrow> bool" where
  "row_ok s \<longleftrightarrow> 0 \<le> shell_row s \<and> shell_row s \<le> 46"

definition shell_keeps :: "'f shell \<Rightarrow> 'f shell \<Rightarrow> bool" where
  "shell_keeps s s' \<longleftrightarrow>
     input_buf s' = input_buf s \<and> sh_cursor s' = sh_cursor s \<and> history s' = history s \<and> hist_count s' = hist_count s
     \<and> hist_idx s' = hist_idx s \<and> shell_running s' = shell_running s
     \<and> tsched s' = tsched s \<and> tledger s' = tledger s \<and> system_ticks s' = system_ticks s \<and> irq_handlers s' = irq_handlers s
     \<and> (length (ai_response_buf s) = 2048 \<longrightarrow> length (ai_response_buf s') = 2048) \<and> (row_ok s \<longrightarrow> row_ok s')"

interpretation cmds: framed shell_keeps
  by unfold_locales (auto simp: shell_keeps_def)

lemma shell_print_keeps: "kept shell_keeps s (shell_print env str s)"
  by (auto simp: shell_print_def shell_keeps_def row_ok_def split: option.splits)

lemma shell_println_keeps: "kept shell_keeps s (shell_println env str s)"
  unfolding shell_println_def
  by (rule cmds.kept_then[OF shell_print_keeps]) (auto simp: shell_keeps_def row_ok_def Let_def)

lemma shell_prompt_keeps: "kept shell_keeps s (shell_prompt env s)"
  unfolding shell_prompt_def
proof (rule cmds.kept_then)
  show "kept shell_keeps s (shell_print env (bytes_of (NEWLINE @ ''luna@aeterna:~$ '')) (font_set_fg 0x00E5FF s))"
    by (rule cmds.kept_after[OF _ shell_print_keeps]) (simp add: font_set_fg_def shell_keeps_def row_ok_def)
qed (simp add: font_set_fg_def shell_keeps_def row_ok_def)

lemmas output_keeps = shell_println_keeps shell_prompt_keeps shell_print_keeps

lemma println_after: "shell_keeps s t \<Longrightarrow> kept shell_keeps s (shell_println env str t)"
  by (rule cmds.kept_after[OF _ shell_println_keeps])

lemma cmd_ls_keeps: "kept shell_keeps s (cmd_ls env s)"
  by (auto simp: cmd_ls_def shell_println_keeps split: prod.splits intro!: cmds.kept_each kept_value)

lemma cmd_file_keeps:
  "kept shell_keeps s (cmd_cat env argv s)" "kept shell_keeps s (cmd_write env argv s)" "kept shell_keeps s (cmd_rm env argv s)"
  by (auto simp: cmd_cat_def cmd_write_def cmd_rm_def shell_println_keeps Let_def shell_keeps_def row_ok_def
      split: prod.splits intro!: println_after)

lemma cmd_ledger_keeps: "kept shell_keeps s (cmd_ledger env argv s)"
proof (cases "2 \<le> length argv \<and> argv ! 1 = bytes_of ''verify''")
  case False
  show ?thesis
    unfolding cmd_ledger_def Let_def if_not_P[OF False]
    by (rule kept_value, rule cmds.kept_then[OF shell_println_keeps], rule cmds.kept_each)
      (auto simp: shell_println_keeps split: option.splits intro!: kept_value)
qed (simp add: cmd_ledger_def shell_println_keeps)

lemma cmd_ps_keeps: "kept shell_keeps s (cmd_ps env s)"
  unfolding cmd_ps_def Let_def
  by (auto simp: shell_println_keeps cmds.keeps_refl split: option.splits
      intro!: kept_value cmds.kept_then[OF shell_println_keeps] cmds.kept_each)

lemma cmd_ai_keeps: "kept shell_keeps s (cmd_ai env argv s)"
  by (auto simp: cmd_ai_def shell_println_keeps shell_keeps_def row_ok_def split: prod.splits
      intro!: kept_value println_after dest: ai_query_length)

lemma cmd_hash_keeps: "kept shell_keeps s (cmd_hash env argv s)"
  by (auto simp: cmd_hash_def shell_println_keeps intro!: kept_value)

lemma cmd_run_keeps: "kept shell_keeps s (cmd_run env argv s)"
  by (auto simp: cmd_run_def shell_println_keeps shell_keeps_def row_ok_def Let_def split: prod.splits
      intro!: kept_value println_after)

lemma cmd_help_keeps: "kept shell_keeps s (cmd_help env s)"
  unfolding cmd_help_def by (rule cmds.kept_each[OF shell_println_keeps])

lemmas command_keeps = cmd_ls_keeps cmd_file_keeps cmd_ledger_keeps cmd_ps_keeps cmd_ai_keeps cmd_hash_keeps
  cmd_run_keeps cmd_help_keeps

lemma run_builtin_keeps: "kept shell_keeps s (run_builtin env argv s)"
  unfolding run_builtin_def Let_def
  by (auto simp: command_keeps shell_println_keeps shell_keeps_def row_ok_def intro!: kept_value)

lemma execute_words_keeps: "kept shell_keeps s (execute_words env line s)"
  unfolding execute_words_def by (rule kept_value) (simp add: run_builtin_keeps cmds.keeps_refl Let_def)

lemma announce_keeps: "announce env mapped s = Inr (cmd, s') \<Longrightarrow> shell_keeps s s'"
  using shell_println_keeps[of s env] by (fastforce simp: announce_def rbind_Inr_iff kept_def)

lemma execute_line_keeps: "execute_line env line s = Some r \<Longrightarrow> kept shell_keeps s r"
proof (induction env line s r rule: execute_line.raw_induct[rotated, consumes 1, case_names step])
  case (step execute env line s r)
  show ?case
  proof (cases "trim line = [] \<or> resolve env (trim line) = None")
    case True
    with step.hyps show ?thesis by (auto simp: execute_words_keeps cmds.keeps_refl split: if_splits)
  next
    case False
    then obtain mapped where m: "resolve env (trim line) = Some mapped" by auto
    show ?thesis
    proof (cases "announce env mapped s")
      case (Inr c)
      with False m step.hyps have "execute env (fst c) (snd c) = Some r" by auto
      then have "kept shell_keeps (snd c) r" by (rule step.IH)
      moreover have "shell_keeps s (snd c)" using Inr by (intro announce_keeps[of env mapped s "fst c"]) simp
      ultimately show ?thesis by (blast intro: cmds.kept_after)
    qed (use False m step.hyps in auto)
  qed
qed

end
