(* ===== verification/Shell_Lines.thy ===== *)
theory Shell_Lines
  imports Shell
begin

text \<open>
  What the shell of \<^verbatim>\<open>user/shell/shell.c\<close> promises: the line editor refines an editor on lists, the tokenizer
  finds the words of a line, and the execution of a line ends when the resolution of sentences does.
\<close>

section \<open>The editor on lists\<close>

text \<open>The line being typed and the lines entered so far. Only printable ASCII is accepted, up to 255
  characters; empty lines are not remembered.\<close>

type_synonym editor = "u8 list \<times> u8 list list"

definition edit :: "u8 \<Rightarrow> editor \<Rightarrow> editor" where
  "edit c a =
     (let (l, ls) = a in
      if c = 0x0A then ([], if l \<noteq> [] then ls @ [l] else ls)
      else if c = 0x08 then (butlast l, ls)
      else if sint c \<ge> 0x20 \<and> length l < 255 then (l @ [c], ls)
      else (l, ls))"

text \<open>The concrete state: the characters before the cursor are the line, and the history ring holds the last
  eight lines.\<close>

definition ring_holds :: "u8 list list \<Rightarrow> u8 list list \<Rightarrow> bool" where
  "ring_holds h ls \<longleftrightarrow> length h = 8 \<and> (\<forall>b \<in> set h. length b = 256 \<and> last b = 0)
     \<and> (\<forall>i < length ls. length ls \<le> i + 8 \<longrightarrow> chars (h ! (i mod 8)) = ls ! i)"

definition editor_rel :: "'f shell \<Rightarrow> editor \<Rightarrow> bool" where
  "editor_rel s a \<longleftrightarrow>
     length (input_buf s) = 256 \<and> length (fst a) \<le> 255 \<and> 0 \<notin> set (fst a)
     \<and> sh_cursor s = int (length (fst a)) \<and> take (length (fst a)) (input_buf s) = fst a
     \<and> hist_count s = int (length (snd a)) \<and> ring_holds (history s) (snd a) \<and> row_ok s"

lemma editor_rel_keeps: "editor_rel s a \<Longrightarrow> shell_keeps s s' \<Longrightarrow> editor_rel s' a"
  by (simp add: editor_rel_def shell_keeps_def)

section \<open>Buffers\<close>

lemma chars_terminated: "length l < length buf \<Longrightarrow> take (length l) buf = l \<Longrightarrow> 0 \<notin> set l \<Longrightarrow> chars (buf[length l := 0]) = l"
  by (simp add: upd_conv_take_nth_drop chars_append_zero)

lemma type_char: "n + 1 < length buf \<Longrightarrow> take n buf = l \<Longrightarrow> take (Suc n) (buf[n := c, Suc n := 0]) = l @ [c]"
  by (simp add: take_Suc_conv_app_nth)

lemma strncpy_line:
  assumes "length b = 256" "last b = 0" "length l \<le> 255" "0 \<notin> set l"
  shows "chars (strncpy_into b l 255) = l" "length (strncpy_into b l 255) = 256" "last (strncpy_into b l 255) = 0"
proof -
  have "length (drop 255 b) = 1" using assms(1) by simp
  then obtain z where z: "drop 255 b = [z]" by (metis One_nat_def length_0_conv length_Suc_conv)
  have "last b = last (drop 255 b)" using assms(1) by (simp add: last_drop)
  with z assms(2) have d: "drop 255 b = [0]" by simp
  have e: "strncpy_into b l 255 = l @ 0 # replicate (255 - length l) 0"
    using assms(3) by (simp only: strncpy_into_def d replicate_append_same take_all)
  show "chars (strncpy_into b l 255) = l" unfolding e by (rule chars_append_zero[OF assms(4)])
  show "length (strncpy_into b l 255) = 256" using assms(3) by (simp add: e)
  show "last (strncpy_into b l 255) = 0" unfolding e by (cases "255 - length l") (simp_all add: last_replicate)
qed

text \<open>Entering a line overwrites the oldest of eight.\<close>

lemma ring_enter:
  assumes "ring_holds h ls" "length l \<le> 255" "0 \<notin> set l"
  defines "i \<equiv> length ls mod 8"
  shows "ring_holds (h[i := strncpy_into (h ! i) l 255]) (ls @ [l])"
proof -
  have h: "length h = 8" "i < length h" using assms(1) by (simp_all add: ring_holds_def i_def)
  then have "h ! i \<in> set h" by simp
  then have b: "length (h ! i) = 256" "last (h ! i) = 0" using assms(1) by (auto simp: ring_holds_def)
  note s = strncpy_line[OF b assms(2,3)]
  have "\<forall>b \<in> set (h[i := strncpy_into (h ! i) l 255]). length b = 256 \<and> last b = 0"
    using assms(1) s set_update_subset_insert[of h i "strncpy_into (h ! i) l 255"] by (fastforce simp: ring_holds_def)
  moreover have "chars (h[i := strncpy_into (h ! i) l 255] ! (k mod 8)) = (ls @ [l]) ! k"
    if k: "k < length (ls @ [l])" "length (ls @ [l]) \<le> k + 8" for k
  proof (cases "k = length ls")
    case True
    then show ?thesis using h s(1) by (simp add: i_def)
  next
    case False
    with k have "k < length ls" "length ls < k + 8" by simp_all
    then have "i \<noteq> k mod 8" unfolding i_def by (metis add.commute less_le_not_le mod_eq_dvd_iff_nat
        dvd_imp_le nat_less_le zero_less_diff less_diff_conv2 not_less order_less_imp_le)
    with k False show ?thesis using assms(1) by (simp add: ring_holds_def nth_append)
  qed
  ultimately show ?thesis using h by (simp add: ring_holds_def)
qed

lemma smod_8: "int n smod HISTORY_DEPTH = int (n mod 8)"
  by (cases "n = 0") (simp_all add: signed_modulo_int_def HISTORY_DEPTH_def zmod_int)

section \<open>Keys\<close>

text \<open>On a serial line that drains, output always returns.\<close>

lemma print_returns: "transmitter_drains (se_dev env) \<Longrightarrow> \<exists>s'. shell_print env str s = Inr s'"
  using uart_puts_sends[of "se_dev env" str "ports s"] by (auto simp: shell_print_def)

lemma println_returns: "transmitter_drains (se_dev env) \<Longrightarrow> \<exists>s'. shell_println env str s = Inr s'"
  using print_returns[of env str s] by (auto simp: shell_println_def Let_def)

lemma key_printable:
  assumes "editor_rel s (l, ls)" "transmitter_drains (se_dev env)" "c \<noteq> 0x0A" "c \<noteq> 0x08" "sint c \<ge> 0x20" "length l < 255"
  shows "\<exists>s'. shell_on_key env c s = Inr s' \<and> editor_rel s' (l @ [c], ls)"
proof -
  note r = assms(1)[unfolded editor_rel_def fst_conv snd_conv]
  let ?s = "s\<lparr>sh_cursor := int (length l) + 1, input_buf := (input_buf s)[length l := c, Suc (length l) := 0]\<rparr>"
  have "shell_on_key env c s = shell_print env [c] ?s"
    using r assms(3-) by (simp add: shell_on_key_def put_char_def SHELL_BUF_LEN_def Let_def nat_add_distrib)
  moreover have "c \<noteq> 0" using assms(5) by auto
  then have "editor_rel ?s (l @ [c], ls)"
    using r assms(6) type_char[of "length l" "input_buf s" l c] by (simp add: editor_rel_def row_ok_def)
  moreover obtain s' where "shell_print env [c] ?s = Inr s'" using print_returns[OF assms(2)] by blast
  moreover from this have "shell_keeps ?s s'" using shell_print_keeps[of ?s env "[c]"] by simp
  ultimately show ?thesis using editor_rel_keeps by fastforce
qed

lemma key_backspace:
  assumes "editor_rel s (l, ls)"
  shows "\<exists>s'. shell_on_key env 0x08 s = Inr s' \<and> editor_rel s' (butlast l, ls)"
proof (cases l rule: rev_cases)
  case Nil
  then show ?thesis using assms by (simp add: shell_on_key_def editor_rel_def)
next
  case (snoc l' x)
  note r = assms[unfolded editor_rel_def fst_conv snd_conv snoc]
  have "take (length l') (input_buf s) = take (length l') (take (length (l' @ [x])) (input_buf s))" by simp
  also have "\<dots> = l'" using r by simp
  finally have "take (length l') (input_buf s) = l'" .
  with r snoc show ?thesis
    by (simp add: shell_on_key_def put_char_def SHELL_BUF_LEN_def Let_def editor_rel_def row_ok_def)
qed

lemma remember_enters:
  assumes "editor_rel s (l, ls)" "chars (input_buf s) = l" "remember s = Inr s'"
  shows "editor_rel s' (l, ls @ [l])"
proof -
  note r = assms(1)[unfolded editor_rel_def fst_conv snd_conv]
  from r have i: "hist_count s smod HISTORY_DEPTH = int (length ls mod 8)" by (simp add: smod_8)
  have "s' = s\<lparr>history := (history s)[length ls mod 8 := strncpy_into (history s ! (length ls mod 8)) l 255],
      hist_count := hist_count s + 1\<rparr>"
    using assms(2,3) by (simp add: remember_def Let_def i SHELL_BUF_LEN_def split: if_splits)
  moreover have "ring_holds ((history s)[length ls mod 8 := strncpy_into (history s ! (length ls mod 8)) l 255]) (ls @ [l])"
    using r by (intro ring_enter) simp_all
  ultimately show ?thesis using r by (simp add: editor_rel_def row_ok_def)
qed

lemma key_newline:
  assumes "editor_rel s (l, ls)" "shell_on_key env 0x0A s = Inr s'"
  shows "editor_rel s' ([], if l \<noteq> [] then ls @ [l] else ls)"
proof -
  note r = assms(1)[unfolded editor_rel_def fst_conv snd_conv]
  let ?s1 = "s\<lparr>input_buf := (input_buf s)[length l := 0]\<rparr>"
  let ?ls = "if l \<noteq> [] then ls @ [l] else ls"
  have p: "put_char (sh_cursor s) 0 s = Inr ?s1" using r by (simp add: put_char_def SHELL_BUF_LEN_def)
  obtain s2 s3 x where s2: "shell_println env [] ?s1 = Inr s2"
    and s3: "(if sh_cursor s2 > 0 then remember s2 else Inr s2) = Inr s3"
    and x: "execute_line env (chars (input_buf s3)) s3 = Some (Inr x)"
    and s': "shell_prompt env (x\<lparr>sh_cursor := 0, hist_idx := - 1\<rparr>) = Inr s'"
    using assms(2) by (auto simp: shell_on_key_def p rbind_Inr_iff split: option.splits)
  have r1: "editor_rel ?s1 (l, ls)" "chars (input_buf ?s1) = l"
    using r chars_terminated[of l "input_buf s"] by (simp_all add: editor_rel_def row_ok_def)
  have k2: "shell_keeps ?s1 s2" using shell_println_keeps[of ?s1 env "[]"] s2 by (simp add: kept_def)
  then have r2: "editor_rel s2 (l, ls)" "chars (input_buf s2) = l"
    using r1 editor_rel_keeps by (blast, simp add: shell_keeps_def)
  have "editor_rel s3 (l, ?ls)"
    using s3 r2 remember_enters[OF r2] by (cases "l = []") (auto simp: editor_rel_def)
  moreover have "shell_keeps s3 x" using execute_line_keeps[OF x] by simp
  ultimately have "editor_rel x (l, ?ls)" by (rule editor_rel_keeps)
  then have "editor_rel (x\<lparr>sh_cursor := 0, hist_idx := - 1\<rparr>) ([], ?ls)"
    by (simp add: editor_rel_def row_ok_def)
  moreover have "shell_keeps (x\<lparr>sh_cursor := 0, hist_idx := - 1\<rparr>) s'"
    using shell_prompt_keeps[of "x\<lparr>sh_cursor := 0, hist_idx := - 1\<rparr>" env] s' by (simp add: kept_def)
  ultimately show ?thesis by (rule editor_rel_keeps)
qed

lemma key_refines:
  assumes "editor_rel s a" "transmitter_drains (se_dev env)"
  shows "case shell_on_key env c s of Inl e \<Rightarrow> c = 0x0A | Inr s' \<Rightarrow> editor_rel s' (edit c a)"
proof -
  obtain l ls where a: "a = (l, ls)" by (cases a)
  consider "c = 0x0A" | "c = 0x08" | "c \<noteq> 0x0A" "c \<noteq> 0x08" "sint c \<ge> 0x20" "length l < 255"
    | "c \<noteq> 0x0A" "c \<noteq> 0x08" "\<not> (sint c \<ge> 0x20 \<and> length l < 255)" by blast
  then show ?thesis
  proof cases
    case 1
    then show ?thesis using key_newline[of s l ls env] assms a by (auto simp: edit_def split: sum.splits)
  next
    case 2
    then show ?thesis using key_backspace[of s l ls env] assms a by (auto simp: edit_def)
  next
    case 3
    then show ?thesis using key_printable[of s l ls env c] assms a by (auto simp: edit_def)
  next
    case 4
    with assms(1) a have "shell_on_key env c s = Inr s"
      by (auto simp: shell_on_key_def editor_rel_def SHELL_BUF_LEN_def)
    with 4 assms(1) a show ?thesis by (auto simp: edit_def)
  qed
qed

lemma keys_refine:
  assumes "editor_rel s a" "transmitter_drains (se_dev env)"
  shows "case each (shell_on_key env) ks s of Inl e \<Rightarrow> 0x0A \<in> set ks | Inr s' \<Rightarrow> editor_rel s' (fold edit ks a)"
  using assms(1)
proof (induction ks arbitrary: s a)
  case (Cons c ks)
  show ?case
  proof (cases "shell_on_key env c s")
    case (Inl e)
    with key_refines[OF Cons.prems assms(2), of c] show ?thesis by simp
  next
    case (Inr s')
    with key_refines[OF Cons.prems assms(2), of c] have "editor_rel s' (edit c a)" by simp
    from Cons.IH[OF this] Inr show ?thesis by (auto split: sum.splits)
  qed
qed simp

section \<open>Words\<close>

lemma cstr_agree:
  "cstr m p xs \<Longrightarrow> (\<And>i. i \<le> length xs \<Longrightarrow> m' (p + of_nat i) = m (p + of_nat i)) \<Longrightarrow> cstr m' p xs"
proof (induction xs arbitrary: p)
  case Nil
  from Nil.prems(2)[of 0] Nil.prems(1) show ?case by simp
next
  case (Cons x xs)
  have "m' (p + 1 + of_nat i) = m (p + 1 + of_nat i)" if "i \<le> length xs" for i
    using Cons.prems(2)[of "Suc i"] that by (simp add: add.assoc)
  with Cons.IH[of "p + 1"] Cons.prems(1) Cons.prems(2)[of 0] show ?case by simp
qed

text \<open>Addresses inside a stretch of memory, relative to an earlier one.\<close>

lemma inside_shift:
  assumes "unat (a - (s + of_nat k) :: u32) < n" "k + n \<le> N" "N < 2 ^ 32"
  shows "unat (a - s) < N"
proof -
  have "a - s = (a - (s + of_nat k)) + of_nat k" by simp
  then have "unat (a - s) \<le> unat (a - (s + of_nat k)) + unat (of_nat k :: u32)" by (metis unat_word_ariths(1) mod_less_eq_dividend)
  also have "unat (of_nat k :: u32) = k" using assms by (intro unat_of_nat_eq_32) simp
  finally show ?thesis using assms by simp
qed

lemma before_outside:
  assumes "i < k" "k + n < 2 ^ 32"
  shows "\<not> unat (s + of_nat i - (s + of_nat k) :: u32) < n"
proof
  define u where "u = unat (s + of_nat i - (s + of_nat k) :: u32)"
  assume "unat (s + of_nat i - (s + of_nat k) :: u32) < n"
  then have u: "u < n" by (simp add: u_def)
  have "(of_nat u :: u32) = of_nat i - of_nat k" by (simp add: u_def)
  then have "(of_nat i :: u32) = of_nat (u + k)" by simp
  then have "unat (of_nat i :: u32) = unat (of_nat (u + k) :: u32)" by simp
  moreover have "unat (of_nat i :: u32) = i" "unat (of_nat (u + k) :: u32) = u + k"
    using assms u by (intro unat_of_nat_eq_32; simp)+
  ultimately show False using assms by simp
qed

text \<open>One call of \<^verbatim>\<open>luna_strtok\<close>: the token, the position where the next call starts, and the byte it may
  write, which lies inside the string.\<close>

lemma strtok_step:
  assumes s: "cstr m s xs" and d: "cstr m dp ds" and src: "(if str \<noteq> None then str else save) = Some s"
    and xs: "xs = pre @ t @ rest" and pre: "set pre \<subseteq> set ds" and ne: "t \<noteq> []" and t: "set t \<inter> set ds = {}"
    and rest: "rest = [] \<or> hd rest \<in> set ds"
  defines "k \<equiv> length pre + length t + (if rest = [] then 0 else 1)"
  obtains m' where "luna_strtok m str dp save = Some (m', Some (s + of_nat (length pre)), Some (s + of_nat k))"
    "cstr m' (s + of_nat (length pre)) t" "cstr m' (s + of_nat k) (tl rest)"
    "\<And>a. \<not> unat (a - s) < length xs \<Longrightarrow> m' a = m a"
proof -
  let ?p = "s + of_nat (length pre)" and ?e = "s + of_nat (length pre) + of_nat (length t)"
  have c: "cstr m ?p (t @ rest)" using s by (simp add: xs cstr_append)
  have "takeWhile (\<lambda>x. x \<in> set ds) xs = pre"
    using pre ne t unfolding xs by (cases t) (auto simp: takeWhile_append)
  then have sd: "skip_delims m s dp = Some ?p" using skip_delims_cstr[OF d s] by simp
  have "takeWhile (\<lambda>x. x \<notin> set ds) (t @ rest) = t"
    using t rest by (cases rest) (auto simp: takeWhile_append)
  then have st: "skip_token m ?p dp = Some ?e" using skip_token_cstr[OF d c] by simp
  have "m ?p \<noteq> 0" using c ne by (cases t) auto
  with sd st src have tok: "luna_strtok m str dp save =
      (if m ?e \<noteq> 0 then Some (m(?e := 0), Some ?p, Some (?e + 1)) else Some (m, Some ?p, Some ?e))"
    by (simp add: luna_strtok_def)
  show thesis
  proof (cases rest)
    case Nil
    with c have "cstr m ?p t" "cstr m ?e []" using cstr_append[of m ?p t "[]"] by auto
    with tok Nil show thesis by (intro that[of m]) (simp_all add: k_def add.assoc)
  next
    case (Cons z zs)
    have "m ?e \<noteq> 0" using c Cons by (simp add: cstr_append)
    have len: "length xs < 2 ^ 32" by (rule cstr_length[OF s])
    have "unat (?e - s) < length xs"
    proof -
      have "?e - s = of_nat (length pre + length t)" by simp
      also have "unat (of_nat (length pre + length t) :: u32) = length pre + length t"
        using len by (intro unat_of_nat_eq_32) (simp add: xs)
      finally show ?thesis by (simp add: xs Cons)
    qed
    then have "a \<noteq> ?e" if "\<not> unat (a - s) < length xs" for a using that by blast
    with tok Cons \<open>m ?e \<noteq> 0\<close> cstr_cut[of m ?p t z zs] c show thesis
      by (intro that[of "m(?e := 0)"]) (simp_all add: k_def ac_simps)
  qed
qed

text \<open>The shape of a string that has a token.\<close>

lemma tokens_skip: "x \<in> D \<Longrightarrow> tokens D (x # xs) = tokens D xs"
  by (simp add: tokens.simps[of D "x # xs"] tokens.simps[of D xs])

lemma token_split:
  assumes "tokens D xs = t # ts"
  obtains pre rest where "xs = pre @ t @ rest" "set pre \<subseteq> D" "t \<noteq> []" "set t \<inter> D = {}"
    "rest = [] \<or> hd rest \<in> D" "ts = tokens D (tl rest)"
proof -
  define ys where "ys = dropWhile (\<lambda>x. x \<in> D) xs"
  have ys: "ys \<noteq> []" and t: "t = takeWhile (\<lambda>x. x \<notin> D) ys" and ts: "ts = tokens D (dropWhile (\<lambda>x. x \<notin> D) ys)"
    using assms by (auto simp: tokens.simps[of D xs] ys_def[symmetric] Let_def split: if_splits)
  define rest where "rest = dropWhile (\<lambda>x. x \<notin> D) ys"
  have hd: "hd ys \<notin> D" using ys unfolding ys_def by (rule hd_dropWhile)
  show thesis
  proof (rule that[of "takeWhile (\<lambda>x. x \<in> D) xs" rest])
    show "xs = takeWhile (\<lambda>x. x \<in> D) xs @ t @ rest" by (simp add: t rest_def ys_def)
    show "set (takeWhile (\<lambda>x. x \<in> D) xs) \<subseteq> D" by (auto dest: set_takeWhileD)
    show "t \<noteq> []" using hd ys by (cases ys) (simp_all add: t)
    show "set t \<inter> D = {}" unfolding t by (auto dest: set_takeWhileD)
    show r: "rest = [] \<or> hd rest \<in> D" using hd_dropWhile[of "\<lambda>x. x \<notin> D" ys] by (auto simp: rest_def)
    show "ts = tokens D (tl rest)"
      using r unfolding ts rest_def[symmetric]
      by (cases rest) (auto simp: tokens_skip)
  qed
qed

text \<open>The loop over the tokens, from the call that scans the string at \<open>s\<close>.\<close>

lemma strtok_none:
  assumes "cstr m s xs" "cstr m dp ds" "(if str \<noteq> None then str else save) = Some s" "tokens (set ds) xs = []"
  shows "luna_strtok m str dp save = Some (m, None, None)"
  using assms by (intro luna_strtok_end) (auto simp: tokens.simps[of "set ds" xs] Let_def split: if_splits)

lemma first_word_kept:
  assumes c: "cstr m1 (s + of_nat (length pre)) t" and len: "length xs < 2 ^ 32" and xs: "xs = pre @ t @ rest"
  defines "k \<equiv> length pre + length t + (if rest = [] then 0 else 1)"
  assumes f: "\<And>a. \<not> unat (a - (s + of_nat k)) < length (tl rest) \<Longrightarrow> m' a = m1 a"
  shows "cstr m' (s + of_nat (length pre)) t"
proof (rule cstr_agree[OF c])
  fix i assume i: "i \<le> length t"
  have "\<not> unat (s + of_nat (length pre + i) - (s + of_nat k)) < length (tl rest)"
  proof (cases rest)
    case (Cons z zs)
    with i len xs show ?thesis by (intro before_outside) (simp_all add: k_def)
  qed simp
  then show "m' (s + of_nat (length pre) + of_nat i) = m1 (s + of_nat (length pre) + of_nat i)"
    using f[of "s + of_nat (length pre + i)"] by (simp add: add.assoc)
qed

lemma tokenize_loop_words:
  assumes "cstr m s xs" "cstr m dp ds" "(if str \<noteq> None then str else save) = Some s"
    "\<And>i. i \<le> length ds \<Longrightarrow> \<not> unat (dp + of_nat i - s) < length xs"
  shows "\<exists>m1 tok save1 m' argv. luna_strtok m str dp save = Some (m1, tok, save1)
    \<and> tokenize_loop room m1 dp tok save1 = Some (m', argv)
    \<and> list_all2 (cstr m') argv (take room (tokens (set ds) xs)) \<and> (\<forall>a. \<not> unat (a - s) < length xs \<longrightarrow> m' a = m a)"
  using assms
proof (induction room arbitrary: m s xs str save)
  case (0 m s xs str save)
  show ?case
  proof (cases "tokens (set ds) xs")
    case Nil
    with strtok_none[OF 0(1-3)] show ?thesis by simp
  next
    case (Cons t ts)
    then obtain pre rest where sp: "xs = pre @ t @ rest" "set pre \<subseteq> set ds" "t \<noteq> []" "set t \<inter> set ds = {}"
      "rest = [] \<or> hd rest \<in> set ds" by (rule token_split)
    show ?thesis by (rule strtok_step[OF 0(1-3) sp]) auto
  qed
next
  case (Suc room m s xs str save)
  show ?case
  proof (cases "tokens (set ds) xs")
    case Nil
    with strtok_none[OF Suc.prems(1-3)] show ?thesis by simp
  next
    case (Cons t ts)
    then obtain pre rest where sp: "xs = pre @ t @ rest" "set pre \<subseteq> set ds" "t \<noteq> []" "set t \<inter> set ds = {}"
      "rest = [] \<or> hd rest \<in> set ds" and ts: "ts = tokens (set ds) (tl rest)" by (rule token_split)
    define k where "k = length pre + length t + (if rest = [] then 0 else 1)"
    from strtok_step[OF Suc.prems(1-3) sp] obtain m1 where
      m1: "luna_strtok m str dp save = Some (m1, Some (s + of_nat (length pre)), Some (s + of_nat k))"
      and c1: "cstr m1 (s + of_nat (length pre)) t" and r1: "cstr m1 (s + of_nat k) (tl rest)"
      and f1: "\<And>a. \<not> unat (a - s) < length xs \<Longrightarrow> m1 a = m a" unfolding k_def by metis
    have len: "length xs < 2 ^ 32" by (rule cstr_length[OF Suc.prems(1)])
    have k: "k + length (tl rest) \<le> length xs" by (cases rest) (simp_all add: k_def sp(1))
    have d1: "cstr m1 dp ds" by (rule cstr_agree[OF Suc.prems(2)]) (simp add: f1 Suc.prems(4))
    have out: "\<not> unat (a - (s + of_nat k)) < length (tl rest)" if "\<not> unat (a - s) < length xs" for a
      using inside_shift[OF _ k len] that by blast
    from Suc.IH[OF r1 d1, of None "Some (s + of_nat k)"] out Suc.prems(4) obtain m2 tok save1 m' argv where
      m2: "luna_strtok m1 None dp (Some (s + of_nat k)) = Some (m2, tok, save1)"
        "tokenize_loop room m2 dp tok save1 = Some (m', argv)"
      and w: "list_all2 (cstr m') argv (take room ts)"
      and f2: "\<And>a. \<not> unat (a - (s + of_nat k)) < length (tl rest) \<Longrightarrow> m' a = m1 a"
      unfolding ts by auto
    have "cstr m' (s + of_nat (length pre)) t" using f2 unfolding k_def by (rule first_word_kept[OF c1 len sp(1)])
    moreover have "\<forall>a. \<not> unat (a - s) < length xs \<longrightarrow> m' a = m a" using f1 f2 out by simp
    ultimately show ?thesis using m1 m2 w Cons by simp
  qed
qed

section \<open>Execution of lines\<close>

text \<open>A string copied into a buffer of 256 bytes is complete when it has less than 255 characters; a longer one
  depends on the last byte that was there before.\<close>

lemma copy_short:
  assumes "length l < 255" "0 \<notin> set l"
  shows "string_in (strncpy_into junk l 255) = Inr l"
proof -
  obtain n where n: "255 - length l = Suc n" using assms(1) by (cases "255 - length l") simp_all
  have "strncpy_into junk l 255 = l @ 0 # replicate n 0 @ drop 255 junk"
    using assms(1) by (simp add: strncpy_into_def n)
  with chars_append_zero[OF assms(2)] show ?thesis by (simp add: string_in_def)
qed

lemma copy_long:
  assumes "255 \<le> length l" "0 \<notin> set l" "length junk = 256"
  shows "string_in (strncpy_into junk l 255) = (if last junk = 0 then Inr (take 255 l) else Inl OutOfBounds)"
proof -
  have "length (drop 255 junk) = 1" using assms(3) by simp
  then obtain z where z: "drop 255 junk = [z]" by (metis One_nat_def length_0_conv length_Suc_conv)
  moreover have "last junk = last (drop 255 junk)" using assms(3) by (simp add: last_drop)
  ultimately have d: "drop 255 junk = [last junk]" by simp
  have "0 \<notin> set (take 255 l)" using assms(2) by (auto dest: in_set_takeD)
  with chars_append_zero[OF this, of "[]"] assms(1) show ?thesis
    by (auto simp: string_in_def strncpy_into_def d)
qed

lemma copy_line:
  assumes "string_in (strncpy_into junk l 255) = Inr cmd" "0 \<notin> set l" "length junk = 256"
  shows "cmd = take 255 l"
  using assms copy_short[of l junk] copy_long[of l junk] by (cases "length l < 255") (auto split: if_splits)

lemma announce_text: "\<exists>nl. format_line SHELL_BUF_LEN (''[NLP] '' @ ARROW @ '' %s'') [Inr mapped] = Inr nl"
proof -
  let ?at = "\<lambda>a :: u32. case [Inr mapped :: u32 + u8 list] ! (unat a - 1) of Inl _ \<Rightarrow> [] | Inr t \<Rightarrow> t"
  have f: "bytes_of (''[NLP] '' @ ARROW @ '' %s'') = bytes_of (''[NLP] '' @ ARROW @ '' '') @ 0x25 # 0x73 # []"
    by (simp add: bytes_of_def of_char_def)
  have "0x25 \<notin> set (bytes_of (''[NLP] '' @ ARROW @ '' ''))" by (simp add: bytes_of_def of_char_def ARROW_def)
  from cut_plain[OF this, of ?at 256 "[]" "[1]" "0x25 # 0x73 # []"]
  have "snprintf_loop ?at 256 [] [1] (bytes_of (''[NLP] '' @ ARROW @ '' %s''))
      = snprintf_loop ?at 256 (take (256 - 1) (bytes_of (''[NLP] '' @ ARROW @ '' ''))) [1] (0x25 # 0x73 # [])"
    unfolding f by simp
  also have "\<dots> = snprintf_loop ?at 256 (take (256 - 1) (bytes_of (''[NLP] '' @ ARROW @ '' '') @ ?at 1)) [] []"
    by (rule cut_string) simp
  also have "\<dots> = Inr (take (256 - 1) (bytes_of (''[NLP] '' @ ARROW @ '' '') @ ?at 1))" by (rule cut_done)
  finally show ?thesis by (simp add: format_line_def luna_snprintf_def SHELL_BUF_LEN_def)
qed

lemma announce_short:
  assumes "length l < 255" "0 \<notin> set l" "transmitter_drains (se_dev env)"
  shows "\<exists>s'. announce env l s = Inr (l, s')"
proof -
  obtain nl where nl: "format_line SHELL_BUF_LEN (''[NLP] '' @ ARROW @ '' %s'') [Inr l] = Inr nl"
    using announce_text by blast
  moreover obtain s' where "shell_println env nl s = Inr s'" using println_returns[OF assms(3)] by blast
  ultimately show ?thesis using copy_short[OF assms(1,2)] by (simp add: announce_def SHELL_BUF_LEN_def)
qed

text \<open>A sentence that is resolved to itself is executed for ever.\<close>

lemma execute_line_diverges:
  assumes "trim l = l" "resolve env l = Some l" "length l < 255" "0 \<notin> set l" "l \<noteq> []" "transmitter_drains (se_dev env)"
  shows "execute_line env l s = None"
proof -
  have "execute_line e k u = Some r \<Longrightarrow> e = env \<Longrightarrow> k = l \<Longrightarrow> False" for e k u r
  proof (induction e k u r rule: execute_line.raw_induct[rotated, consumes 1, case_names step])
    case (step execute e k u r)
    from announce_short[OF assms(3,4,6), of u] obtain u' where "announce env l u = Inr (l, u')" by blast
    with step.hyps step.prems assms(1,2,5) have "execute env l u' = Some r" by simp
    with step.IH step.prems show ?case by blast
  qed
  then show ?thesis by (cases "execute_line env l s") blast+
qed

lemma execute_line_direct:
  "\<not> is_english_intent (trim line) \<Longrightarrow> execute_line env line s = Some (if trim line = [] then Inr s else execute_words env (trim line) s)"
  by (simp add: execute_line.simps resolve_def)

lemma execute_line_resolved:
  assumes "\<And>line mapped. se_nlp env line = Some mapped \<Longrightarrow> 0 \<notin> set mapped \<and> \<not> is_english_intent (trim (take 255 mapped))"
    and "length (se_junk env 256) = 256" "trim line \<noteq> []" "resolve env (trim line) = Some mapped"
  shows "execute_line env line s = Some (case announce env mapped s of Inl e \<Rightarrow> Inl e
    | Inr (cmd, s') \<Rightarrow> if trim cmd = [] then Inr s' else execute_words env (trim cmd) s')"
proof (cases "announce env mapped s")
  case (Inr r)
  obtain cmd s' where r: "r = (cmd, s')" by (cases r)
  have "se_nlp env (trim line) = Some mapped"
    using assms(4) by (auto simp: resolve_def split: if_splits option.splits)
  from assms(1)[OF this] have z: "0 \<notin> set mapped" and n: "\<not> is_english_intent (trim (take 255 mapped))" by simp_all
  have "string_in (strncpy_into (se_junk env 256) mapped 255) = Inr cmd"
    using Inr r by (auto simp: announce_def rbind_Inr_iff SHELL_BUF_LEN_def)
  from copy_line[OF this z assms(2)] n have "\<not> is_english_intent (trim cmd)" by simp
  from execute_line_direct[OF this, of env s'] show ?thesis using assms(3,4) Inr r by (auto simp: execute_line.simps[of env line])
qed (use assms(3,4) in \<open>simp add: execute_line.simps[of env line]\<close>)

text \<open>The query of the command \<^verbatim>\<open>ai\<close> fits its buffer when the words come from a line that fits.\<close>

definition joined :: "u8 list list \<Rightarrow> nat" where
  "joined as = sum_list (map length as) + (length as - 1)"

lemma join_args_fits:
  assumes "length q + joined as < 256"
  shows "\<exists>query. join_args q as = Inr query \<and> length query = length q + joined as"
  using assms
proof (induction as arbitrary: q)
  case (Cons a as)
  show ?case
  proof (cases "as = []")
    case True
    with Cons.prems show ?thesis by (simp add: query_cat_def joined_def)
  next
    case False
    then have j: "joined (a # as) = length a + 1 + joined as" by (cases as) (simp_all add: joined_def)
    with Cons.prems Cons.IH[of "q @ a @ bytes_of '' ''"] False show ?thesis
      by (auto simp: query_cat_def bytes_of_def)
  qed
qed (simp add: joined_def)

lemma joined_Cons: "joined (a # as) = length a + (if as = [] then 0 else 1 + joined as)"
  by (cases as) (simp_all add: joined_def)

lemma joined_tokens: "joined (tokens D xs) \<le> length xs"
proof (induction "length xs" arbitrary: xs rule: less_induct)
  case less
  show ?case
  proof (cases "tokens D xs")
    case (Cons t ts)
    then obtain pre rest where sp: "xs = pre @ t @ rest" "t \<noteq> []" "ts = tokens D (tl rest)" by (rule token_split) blast
    show ?thesis
    proof (cases rest)
      case Nil
      with sp Cons show ?thesis by (simp add: joined_Cons tokens.simps[of D "[]"])
    next
      case (Cons z zs)
      with sp less[of zs] \<open>tokens D xs = t # ts\<close> show ?thesis by (simp add: joined_Cons)
    qed
  qed (simp add: joined_def)
qed

text \<open>Faults of commands: a file that fills the buffer of \<^verbatim>\<open>cat\<close>, a line of 255 characters over an
  uninitialised byte, the arguments of \<^verbatim>\<open>shell_printf\<close>.\<close>

lemma cat_full_buffer:
  "se_vfs_read env f 1024 (files s) = (1024, buf) \<Longrightarrow> cmd_cat env [c, f] s = Inl OutOfBounds"
  by (simp add: cmd_cat_def)

lemma long_line_unterminated:
  assumes "length l = 255" "0 \<notin> set l" "length (se_junk env 256) = 256" "last (se_junk env 256) \<noteq> 0"
  shows "execute_words env l s = Inl OutOfBounds"
  using copy_long[of l "se_junk env 256"] assms by (simp add: execute_words_def SHELL_BUF_LEN_def)

lemma printf_arguments_lost: "shell_printf env (bytes_of ''%u'') [n] s = Inl MissingArgument"
  by (simp add: shell_printf_def luna_snprintf_def bytes_of_def of_char_def snprintf_loop.simps[of _ 512] directive_def
      is_digit_def conversion_def)

lemma cmd_ai_query_fits:
  assumes "length line < 256" "words_of line = argv" "2 \<le> length argv"
  shows "\<exists>query. join_args [] (tl argv) = Inr query"
proof -
  have "joined (take n as) \<le> joined as" for n and as :: "u8 list list"
  proof -
    have "sum_list (map length as) = sum_list (map length (take n as)) + sum_list (map length (drop n as))"
      by (metis append_take_drop_id map_append sum_list_append)
    then show ?thesis by (auto simp: joined_def)
  qed
  then have "joined argv \<le> length line"
    using joined_tokens[of "set BLANKS" line] assms(2) unfolding words_of_def by (metis order_trans)
  moreover have "joined (tl argv) \<le> joined argv" by (cases argv) (auto simp: joined_Cons joined_def)
  ultimately show ?thesis using join_args_fits[of "[]" "tl argv"] assms(1) by auto
qed

section \<open>The kernel behind the shell\<close>

definition kernel_keeps :: "'f shell \<Rightarrow> 'f shell \<Rightarrow> bool" where
  "kernel_keeps s s' \<longleftrightarrow> tsched s' = tsched s \<and> tledger s' = tledger s \<and> system_ticks s' = system_ticks s"

interpretation kernel: framed kernel_keeps
  by unfold_locales (auto simp: kernel_keeps_def)

lemma kernel_kept: "kept shell_keeps s r \<Longrightarrow> kept kernel_keeps s r"
  by (auto simp: kept_def shell_keeps_def kernel_keeps_def)

lemma put_char_kernel: "kept kernel_keeps s (put_char i c s)"
  by (simp add: put_char_def kernel_keeps_def)

lemma remember_kernel: "kept kernel_keeps s (if b then remember s else Inr s)"
  by (simp add: remember_def Let_def kernel_keeps_def)

lemma newline_kernel:
  "kept kernel_keeps s (case execute_line env l s of None \<Rightarrow> Inl NoReturn
    | Some r \<Rightarrow> rbind r (\<lambda>s. shell_prompt env (s\<lparr>sh_cursor := 0, hist_idx := - 1\<rparr>)))"
proof (cases "execute_line env l s")
  case (Some r)
  have "kept kernel_keeps t (shell_prompt env (t\<lparr>sh_cursor := 0, hist_idx := - 1\<rparr>))" for t
    by (rule kernel.kept_after[OF _ kernel_kept[OF shell_prompt_keeps]]) (simp add: kernel_keeps_def)
  with Some show ?thesis
    by (simp add: kernel.kept_then[OF kernel_kept[OF execute_line_keeps[OF Some]]])
qed simp

lemma print_kernel: "shell_print env str s = Inr s' \<Longrightarrow> tsched s' = tsched s \<and> tledger s' = tledger s \<and> system_ticks s' = system_ticks s"
  using kernel_kept[OF shell_print_keeps, of s env str] by (simp add: kept_def kernel_keeps_def)

lemma shell_on_key_kernel: "kept kernel_keeps s (shell_on_key env c s)"
proof -
  have "kept kernel_keeps s (shell_on_key env 0x0A s)"
    unfolding shell_on_key_def if_P[OF refl]
    by (intro kernel.kept_then[OF put_char_kernel] kernel.kept_then[OF kernel_kept[OF shell_println_keeps]]
        kernel.kept_then[OF remember_kernel] newline_kernel)
  moreover have "kept kernel_keeps s (shell_on_key env c s)" if "c \<noteq> 0x0A"
    using that by (auto simp: shell_on_key_def put_char_def Let_def kernel_keeps_def kept_def dest!: print_kernel)
  ultimately show ?thesis by blast
qed

section \<open>Properties\<close>


definition sample_shell :: "unit shell" where
  "sample_shell = \<lparr>idt = (\<lambda>_. make_gate 0 0 0), idt_ptr = \<lparr>ip_limit = 0, ip_base = 0\<rparr>, irq_handlers = replicate 16 0,
     reg_idtr = \<lparr>ip_limit = 0, ip_base = 0\<rparr>, ports = [], system_ticks = 9, tick_hz = 1000, tsched = sample_sched,
     tledger = ledger_init blank_ledger, umem = (\<lambda>_. 0), ai_response_buf = replicate 2048 0,
     input_buf = replicate 256 0, sh_cursor = 0, history = replicate 8 (replicate 256 0), hist_count = 0, hist_idx = - 1,
     shell_row = 0, shell_running = True, sh_fb = fb_init 0xE0000000 4096 1024 768 32,
     g_lang_arena = snd (arena_init (\<lambda>_. 0) 0xD0000000 65536 ''LANG''), files = (), screen_calls = []\<rparr>"

definition sample_shell_env :: "unit shell_env" where
  "sample_shell_env = \<lparr>se_dev = (\<lambda>_ _. 0x20), se_engines = toy_engines, se_iot = False, se_junk = (\<lambda>n. replicate n 0),
     se_nlp = (\<lambda>_. Some (bytes_of ''ls'')), se_vfs_list = (\<lambda>_. []), se_vfs_read = (\<lambda>_ n _. (- 1, replicate n 0)),
     se_vfs_write = (\<lambda>_ _ f. (- 1, f)), se_vfs_delete = (\<lambda>_ f. (False, f)), se_perm = (4, 2, 1),
     se_str_at = (\<lambda>_. []), se_lit = (\<lambda>_. 1), se_parse = (\<lambda>_ a. (0, a)), se_eval = (\<lambda>_ a f. Inr (a, f))\<rparr>"

lemma sample_drains: "transmitter_drains (se_dev sample_shell_env)"
  by (simp add: transmitter_drains_def sample_shell_env_def)


text \<open>C36: The tokenizer finds the words of a line. On a terminated line in memory, with the delimiters outside it,
  \<^verbatim>\<open>tokenize\<close> returns pointers to the words between blanks and tabs, in order, each terminated in place and at
  most fifteen of them; bytes outside the line are untouched.\<close>

theorem tokenize_finds_words:
  assumes "cstr m line xs" "cstr m delim BLANKS" "\<And>i. i \<le> 2 \<Longrightarrow> \<not> unat (delim + of_nat i - line) < length xs"
  shows "\<exists>m' argv. tokenize m delim line = Some (m', argv) \<and> list_all2 (cstr m') argv (words_of xs) \<and> length argv \<le> 15
    \<and> (\<forall>a. \<not> unat (a - line) < length xs \<longrightarrow> m' a = m a)"
proof -
  have "\<not> unat (delim + of_nat i - line) < length xs" if "i \<le> length BLANKS" for i
    using assms(3)[of i] that by (simp add: BLANKS_def)
  from tokenize_loop_words[OF assms(1,2) _ this, of "Some line" None "MAX_ARGS - 1"]
  obtain m1 tok save1 m' argv where "luna_strtok m (Some line) delim None = Some (m1, tok, save1)"
    "tokenize_loop (MAX_ARGS - 1) m1 delim tok save1 = Some (m', argv)"
    and w: "list_all2 (cstr m') argv (words_of xs)" "\<forall>a. \<not> unat (a - line) < length xs \<longrightarrow> m' a = m a"
    by (auto simp: words_of_def)
  moreover have "length argv \<le> 15" using list_all2_lengthD[OF w(1)] by (simp add: words_of_def MAX_ARGS_def)
  ultimately show ?thesis by (simp add: tokenize_def)
qed

theorem tokenize_finds_words_witness:
  "\<exists>m' argv. tokenize (store_bytes (store_bytes (\<lambda>_. 0) 16 (bytes_of ''cat  a'')) 64 BLANKS) 64 16 = Some (m', argv)
     \<and> list_all2 (cstr m') argv [bytes_of ''cat'', bytes_of ''a'']"
proof -
  let ?m = "store_bytes (store_bytes (\<lambda>_. 0) 16 (bytes_of ''cat  a'')) 64 BLANKS"
  have "cstr ?m 16 (bytes_of ''cat  a'')" "cstr ?m 64 BLANKS" by (simp_all add: bytes_of_def of_char_def BLANKS_def)
  moreover have "\<not> unat (64 + of_nat i - 16 :: u32) < length (bytes_of ''cat  a'')" if "i \<le> 2" for i
  proof -
    from that have "i = 0 \<or> i = 1 \<or> i = 2" by auto
    then show ?thesis by (auto simp: bytes_of_def)
  qed
  moreover have "words_of (bytes_of ''cat  a'') = [bytes_of ''cat'', bytes_of ''a'']"
    by (simp add: words_of_def MAX_ARGS_def BLANKS_def bytes_of_def of_char_def tokens.simps)
  ultimately show ?thesis using tokenize_finds_words[of ?m 16 "bytes_of ''cat  a''" 64] by metis
qed

text \<open>C37: The execution of a line ends when sentences are resolved to commands. If no answer of the resolver is
  itself a sentence, a line is executed directly or after one resolution, and the result is that of the words
  of the line or of the answer.\<close>

theorem execute_line_ends:
  assumes "\<And>line mapped. se_nlp env line = Some mapped \<Longrightarrow> 0 \<notin> set mapped \<and> \<not> is_english_intent (trim (take 255 mapped))"
    and "length (se_junk env 256) = 256"
  shows "execute_line env line s = Some (
     if trim line = [] then Inr s
     else case resolve env (trim line) of
       None \<Rightarrow> execute_words env (trim line) s
     | Some mapped \<Rightarrow>
         (case announce env mapped s of Inl e \<Rightarrow> Inl e
          | Inr (cmd, s') \<Rightarrow> if trim cmd = [] then Inr s' else execute_words env (trim cmd) s'))"
proof (cases "resolve env (trim line)")
  case (Some mapped)
  show ?thesis
  proof (cases "trim line = []")
    case False
    from execute_line_resolved[OF assms this Some] Some False show ?thesis by simp
  qed (simp add: execute_line.simps[of env line])
qed (simp add: execute_line.simps[of env line])

theorem execute_line_ends_witness:
  "\<exists>r. execute_line sample_shell_env (bytes_of ''show files'') sample_shell = Some r"
proof -
  have "\<not> is_english_intent (trim (take 255 (bytes_of ''ls'')))" "0 \<notin> set (bytes_of ''ls'')"
    by (simp_all add: is_english_intent_def trim_def bytes_of_def of_char_def)
  then have "0 \<notin> set mapped \<and> \<not> is_english_intent (trim (take 255 mapped))"
    if "se_nlp sample_shell_env line = Some mapped" for line mapped
    using that by (auto simp: sample_shell_env_def)
  moreover have "length (se_junk sample_shell_env 256) = 256" by (simp add: sample_shell_env_def)
  ultimately show ?thesis using execute_line_ends[of sample_shell_env "bytes_of ''show files''" sample_shell] by blast
qed

end
