(* ===== verification/Heap.thy ===== *)
theory Heap
  imports Vmm
begin

text \<open>
  The kernel heap, \<^verbatim>\<open>kernel/heap.c\<close>: eight slab caches whose free lists are threaded through the
  objects themselves, in the kernel's memory, and page-granular large allocations behind an eight
  byte header. Pages come from the physical memory manager and are mapped at the heap cursor.
\<close>

section \<open>State and operations\<close>

definition SLAB_SIZES :: "u32 list" where
  "SLAB_SIZES = [8, 16, 32, 64, 128, 256, 512, 1024]"

definition SLAB_PAGES :: u32 where "SLAB_PAGES = 4"

record SlabCache =
  free_list :: u32
  obj_size :: u32
  total :: u32
  used :: u32

definition LARGE_MAGIC :: u32 where "LARGE_MAGIC = 0xDEADBEEF"

definition HEAP_VIRT_BASE :: u32 where "HEAP_VIRT_BASE = 0xD0000000"

text \<open>The machine below the heap, the array of caches and the cursor.\<close>

record heap =
  mach :: vm
  caches :: "SlabCache list"
  heap_cursor :: u32

abbreviation hmem :: "heap \<Rightarrow> mem" where
  "hmem h \<equiv> kmem (mach h)"

abbreviation set_hmem :: "heap \<Rightarrow> mem \<Rightarrow> heap" where
  "set_hmem h m \<equiv> h\<lparr>mach := (mach h)\<lparr>kmem := m\<rparr>\<rparr>"

text \<open>One step of the loop of \<^verbatim>\<open>heap_alloc_pages\<close>, and the loop.\<close>

definition heap_alloc_page :: "heap \<Rightarrow> heap result" where
  "heap_alloc_page h = rbind (pmm_alloc_frame (frames (mach h))) (\<lambda>(phys, fr).
     let v = (mach h)\<lparr>frames := fr\<rparr> in
     rbind (vmm_map_page v (vmm_get_kernel_pd v) (heap_cursor h) phys 0x003) (\<lambda>v.
       Inr (h\<lparr>mach := v, heap_cursor := heap_cursor h + PAGE_SIZE\<rparr>)))"

primrec heap_pages_loop :: "nat \<Rightarrow> heap \<Rightarrow> heap result" where
  "heap_pages_loop 0 h = Inr h"
| "heap_pages_loop (Suc n) h = rbind (heap_alloc_page h) (heap_pages_loop n)"

definition heap_alloc_pages :: "heap \<Rightarrow> u32 \<Rightarrow> (u32 \<times> heap) result" where
  "heap_alloc_pages h n =
     (let vaddr = heap_cursor h in rbind (heap_pages_loop (unat n) h) (\<lambda>h. Inr (vaddr, h)))"

text \<open>The loop that threads \<open>count\<close> objects from \<open>ptr\<close> onto a free list.\<close>

primrec thread_objs :: "nat \<Rightarrow> mem \<Rightarrow> u32 \<Rightarrow> u32 \<Rightarrow> u32 \<Rightarrow> mem \<times> u32" where
  "thread_objs 0 m fl ptr obj = (m, fl)"
| "thread_objs (Suc n) m fl ptr obj = thread_objs n (store_u32 m ptr fl) ptr (ptr + obj) obj"

definition init_cache :: "heap \<Rightarrow> nat \<Rightarrow> heap result" where
  "init_cache h i = rbind (heap_alloc_pages h SLAB_PAGES) (\<lambda>(base, h).
     let osz = SLAB_SIZES ! i;
         capacity = SLAB_PAGES * PAGE_SIZE;
         count = capacity div osz;
         (m, fl) = thread_objs (unat count) (hmem h) 0 base osz
     in Inr ((set_hmem h m)\<lparr>caches := (caches h)[i := \<lparr>free_list = fl, obj_size = osz, total = count, used = 0\<rparr>]\<rparr>))"

primrec init_caches :: "nat list \<Rightarrow> heap \<Rightarrow> heap result" where
  "init_caches [] h = Inr h"
| "init_caches (i # is) h = rbind (init_cache h i) (init_caches is)"

definition heap_init :: "heap \<Rightarrow> heap result" where
  "heap_init h = init_caches [0..<8] h"

text \<open>The refill of an exhausted cache.\<close>

definition refill :: "heap \<Rightarrow> nat \<Rightarrow> heap result" where
  "refill h i = rbind (heap_alloc_pages h SLAB_PAGES) (\<lambda>(base, h).
     let c = caches h ! i;
         count = (SLAB_PAGES * PAGE_SIZE) div obj_size c;
         (m, fl) = thread_objs (unat count) (hmem h) (free_list c) base (obj_size c)
     in Inr ((set_hmem h m)\<lparr>caches := (caches h)[i := c\<lparr>free_list := fl, total := total c + count\<rparr>]\<rparr>))"

text \<open>Taking the first object of cache \<open>i\<close>.\<close>

definition pop_obj :: "heap \<Rightarrow> nat \<Rightarrow> u32 \<times> heap" where
  "pop_obj h i =
     (let c = caches h ! i;
          obj = free_list c;
          c = c\<lparr>free_list := load_u32 (hmem h) obj, used := used c + 1\<rparr>
      in (obj, (set_hmem h (luna_memset (hmem h) obj 0 (obj_size c)))\<lparr>caches := (caches h)[i := c]\<rparr>))"

text \<open>The first cache, from \<open>i\<close> on, whose objects are large enough.\<close>

fun find_cache :: "SlabCache list \<Rightarrow> u32 \<Rightarrow> nat option" where
  "find_cache [] sz = None"
| "find_cache (c # cs) sz = (if sz \<le> obj_size c then Some 0 else map_option Suc (find_cache cs sz))"

definition large_pages :: "u32 \<Rightarrow> u32" where
  "large_pages sz = (let total = sz + 8 in (total + PAGE_SIZE - 1) div PAGE_SIZE)"

definition large_alloc :: "heap \<Rightarrow> u32 \<Rightarrow> (u32 \<times> heap) result" where
  "large_alloc h sz =
     (let pages = large_pages sz in
      rbind (heap_alloc_pages h pages) (\<lambda>(base, h).
        let m = store_u32 (hmem h) base LARGE_MAGIC;
            m = store_u32 m (base + 4) (pages * PAGE_SIZE)
        in Inr (base + 8, set_hmem h m)))"

definition k_malloc :: "heap \<Rightarrow> u32 \<Rightarrow> (u32 \<times> heap) result" where
  "k_malloc h sz =
     (if sz = 0 then Inr (0, h)
      else case find_cache (caches h) sz of
        Some i \<Rightarrow>
          rbind (if free_list (caches h ! i) = 0 then refill h i else Inr h) (\<lambda>h. Inr (pop_obj h i))
      | None \<Rightarrow> large_alloc h sz)"

text \<open>The loop of \<^verbatim>\<open>k_free\<close> over the caches: the first whose object size divides the address takes the
  object. A zero object size divides by zero.\<close>

fun match_cache :: "SlabCache list \<Rightarrow> u32 \<Rightarrow> nat option result" where
  "match_cache [] ptr = Inr None"
| "match_cache (c # cs) ptr =
     (if obj_size c = 0 then Inl DivideByZero
      else if ptr mod obj_size c = 0 then Inr (Some 0)
      else rbind (match_cache cs ptr) (\<lambda>r. Inr (map_option Suc r)))"

definition push_obj :: "heap \<Rightarrow> nat \<Rightarrow> u32 \<Rightarrow> heap" where
  "push_obj h i ptr =
     (let c = caches h ! i;
          m = store_u32 (hmem h) ptr (free_list c)
      in (set_hmem h m)\<lparr>caches := (caches h)[i := c\<lparr>free_list := ptr, used := used c - 1\<rparr>]\<rparr>)"

definition k_free :: "heap \<Rightarrow> u32 \<Rightarrow> heap result" where
  "k_free h ptr =
     (if ptr = 0 then Inr h
      else if load_u32 (hmem h) (ptr - 8) = LARGE_MAGIC then Inr (set_hmem h (store_u32 (hmem h) (ptr - 8) 0))
      else rbind (match_cache (caches h) ptr) (\<lambda>r. case r of
          None \<Rightarrow> Inr h
        | Some i \<Rightarrow> Inr (push_obj h i ptr)))"

definition k_realloc :: "heap \<Rightarrow> u32 \<Rightarrow> u32 \<Rightarrow> (u32 \<times> heap) result" where
  "k_realloc h ptr new_size =
     (if ptr = 0 then k_malloc h new_size
      else if new_size = 0 then rbind (k_free h ptr) (\<lambda>h. Inr (0, h))
      else rbind (k_malloc h new_size) (\<lambda>(new_ptr, h).
        let h = (if new_ptr \<noteq> 0 then set_hmem h (luna_memcpy (hmem h) new_ptr ptr new_size) else h)
        in rbind (k_free h ptr) (\<lambda>h. Inr (new_ptr, h))))"

section \<open>Free lists\<close>

text \<open>The chain of objects from \<open>p\<close> through memory is \<open>xs\<close>.\<close>

primrec chain :: "mem \<Rightarrow> u32 \<Rightarrow> u32 list \<Rightarrow> bool" where
  "chain m p [] \<longleftrightarrow> p = 0"
| "chain m p (x # xs) \<longleftrightarrow> p = x \<and> x \<noteq> 0 \<and> chain m (load_u32 m x) xs"

section \<open>Pages for the heap\<close>

text \<open>Page tables lie in the window below the heap region: their frames are below 256 MiB, as are all
  free frames, and the cursor cannot outrun the frames.\<close>

definition mach_ok :: "heap \<Rightarrow> bool" where
  "mach_ok h \<longleftrightarrow>
     (let v = mach h; pd = kernel_pd v in
      pd_ok v pd \<and> frame_of pd < 0x10000
      \<and> (\<forall>i < 1024. has_table v pd i \<longrightarrow> frame_of (table v pd i) < 0x10000)
      \<and> (\<forall>f \<in> free_set (frames v). f < 0x10000))
     \<and> page (heap_cursor h) = heap_cursor h \<and> HEAP_VIRT_BASE \<le> heap_cursor h
     \<and> unat (heap_cursor h) + 4096 * card (free_set (frames (mach h))) \<le> 0xE0000000"

lemma low_page:
  assumes "frame_of t < 0x10000" "HEAP_VIRT_BASE \<le> q"
  shows "page q \<noteq> t"
proof
  assume q: "page q = t"
  have "unat (t - 0xC0000000) div 4096 < 65536"
    using assms(1) by (simp add: frame_of_def word_less_nat_alt unat_div)
  then have lt: "unat (t - 0xC0000000) < 268435456" by linarith
  have hi: "3489660928 \<le> unat q" using assms(2) by (simp add: HEAP_VIRT_BASE_def word_le_nat_alt)
  then have "3489660928 div 4096 * 4096 \<le> unat q div 4096 * 4096"
    by (intro mult_le_mono1 div_le_mono)
  then have "3489660928 \<le> unat t" using unat_page[of q] q by simp
  moreover from this have "unat (t - 0xC0000000) = unat t - 3221225472"
    by (subst unat_minus_numeral) (simp_all add: word_le_nat_alt)
  ultimately show False using lt by simp
qed

lemma heap_alloc_page_ok:
  assumes ok: "mach_ok h" and al: "heap_alloc_page h = Inr h'"
  shows "mach_ok h'" "caches h' = caches h" "unat (heap_cursor h') = unat (heap_cursor h) + 4096"
    "HEAP_VIRT_BASE \<le> q \<Longrightarrow> hmem h' q = hmem h q"
proof -
  let ?v = "mach h" and ?pd = "kernel_pd (mach h)"
  have v: "pd_ok ?v ?pd" "frame_of ?pd < 0x10000"
    "\<forall>i < 1024. has_table ?v ?pd i \<longrightarrow> frame_of (table ?v ?pd i) < 0x10000"
    "\<forall>f \<in> free_set (frames ?v). f < 0x10000"
    and cur: "page (heap_cursor h) = heap_cursor h" "HEAP_VIRT_BASE \<le> heap_cursor h"
      "unat (heap_cursor h) + 4096 * card (free_set (frames ?v)) \<le> 0xE0000000"
    using ok by (simp_all add: mach_ok_def Let_def)
  have inv: "pmm_inv (frames ?v)" using v(1) by (simp add: pd_ok_def)
  from al obtain a fr v' where a: "pmm_alloc_frame (frames ?v) = Inr (a, fr)"
    and m: "vmm_map_page (?v\<lparr>frames := fr\<rparr>) ?pd (heap_cursor h) a 3 = Inr v'"
    and h': "h' = h\<lparr>mach := v', heap_cursor := heap_cursor h + 4096\<rparr>"
    by (auto simp: heap_alloc_page_def rbind_Inr_iff Let_def vmm_get_kernel_pd_def PAGE_SIZE_def)
  note fr = pm.alloc_Inr[OF inv a]
  have ok1: "pd_ok (?v\<lparr>frames := fr\<rparr>) ?pd" using v(1) fr by (intro pd_ok_fewer_frames) auto
  note mf = map_page_frame[OF ok1 m]
  have sub: "free_set (frames v') \<subseteq> free_set fr" using mf(2) by simp
  have card: "card (free_set (frames v')) + 1 \<le> card (free_set (frames ?v))"
  proof -
    have "card (free_set (frames v')) \<le> card (free_set fr)" using sub by (intro card_mono) simp_all
    also have "card (free_set fr) = card (free_set (frames ?v)) - 1" using fr by simp
    finally have "card (free_set (frames v')) \<le> card (free_set (frames ?v)) - 1" .
    moreover have "0 < card (free_set (frames ?v))" using fr by (auto simp: card_gt_0_iff)
    ultimately show ?thesis by linarith
  qed
  have "unat (heap_cursor h + 4096) = unat (heap_cursor h) + unat (4096 :: u32)"
    using cur(3) card by (intro unat_add_lem[THEN iffD1]) simp
  then show c: "unat (heap_cursor h') = unat (heap_cursor h) + 4096" by (simp add: h')
  show "caches h' = caches h" by (simp add: h')
  have low: "frame_of (table v' ?pd i) < 0x10000" if "i < 1024" "has_table v' ?pd i" for i
    using mf(3)[OF that] v(3,4) that(1) fr by auto
  show "hmem h' q = hmem h q" if "HEAP_VIRT_BASE \<le> q"
    using mf(4)[of q] low_page[OF v(2) that] low_page[OF low[OF index_less(1) mf(5)] that] by (simp add: h')
  have "page (heap_cursor h + 4096) = heap_cursor h + 4096"
    using cur(1) by (intro page_add) (simp_all add: page_def)
  moreover have "HEAP_VIRT_BASE \<le> heap_cursor h'" using c cur(2) by (simp add: word_le_nat_alt)
  moreover have "\<forall>f \<in> free_set (frames v'). f < 0x10000" using v(4) sub fr by auto
  moreover have "kernel_pd v' = ?pd" using mf(1) by simp
  ultimately show "mach_ok h'"
    using map_page_ok(1)[OF ok1 m] v(2) low c cur(3) card by (simp add: mach_ok_def Let_def h')
qed

lemma heap_pages_loop_ok:
  "mach_ok h \<Longrightarrow> heap_pages_loop n h = Inr h' \<Longrightarrow>
   mach_ok h' \<and> caches h' = caches h \<and> unat (heap_cursor h') = unat (heap_cursor h) + 4096 * n
   \<and> (\<forall>q. HEAP_VIRT_BASE \<le> q \<longrightarrow> hmem h' q = hmem h q)"
proof (induction n arbitrary: h)
  case (Suc n)
  then obtain h1 where h1: "heap_alloc_page h = Inr h1" "heap_pages_loop n h1 = Inr h'"
    by (auto simp: rbind_Inr_iff)
  note one = heap_alloc_page_ok[OF Suc.prems(1) h1(1)]
  from Suc.IH[OF one(1) h1(2)] one show ?case by auto
qed simp

text \<open>Two free frames are enough for each page: one for the page, one for a page table.\<close>

lemma heap_alloc_page_total:
  assumes ok: "mach_ok h" and two: "2 \<le> card (free_set (frames (mach h)))"
  shows "\<exists>h'. heap_alloc_page h = Inr h' \<and> card (free_set (frames (mach h))) \<le> card (free_set (frames (mach h'))) + 2"
proof -
  let ?v = "mach h" and ?pd = "kernel_pd (mach h)"
  have pd: "pd_ok ?v ?pd" using ok by (simp add: mach_ok_def Let_def)
  then have inv: "pmm_inv (frames ?v)" by (simp add: pd_ok_def)
  obtain a fr where a: "pmm_alloc_frame (frames ?v) = Inr (a, fr)"
    using pm.alloc_Inl[OF inv] two by (cases "pmm_alloc_frame (frames ?v)") auto
  note fr = pm.alloc_Inr[OF inv a]
  have c: "card (free_set (frames ?v)) = card (free_set fr) + 1" using fr two by (simp add: card_Diff_singleton)
  have ok1: "pd_ok (?v\<lparr>frames := fr\<rparr>) ?pd" using pd fr by (intro pd_ok_fewer_frames) auto
  obtain v' where v': "vmm_map_page (?v\<lparr>frames := fr\<rparr>) ?pd (heap_cursor h) a 3 = Inr v'"
    using map_page_Inl(1)[OF ok1] c two by (cases "vmm_map_page (?v\<lparr>frames := fr\<rparr>) ?pd (heap_cursor h) a 3") auto
  from map_page_card[OF ok1 v'] c a v' show ?thesis
    by (auto simp: heap_alloc_page_def Let_def vmm_get_kernel_pd_def)
qed

lemma heap_pages_loop_total:
  "mach_ok h \<Longrightarrow> 2 * n \<le> card (free_set (frames (mach h))) \<Longrightarrow>
   \<exists>h'. heap_pages_loop n h = Inr h' \<and> card (free_set (frames (mach h))) \<le> card (free_set (frames (mach h'))) + 2 * n"
proof (induction n arbitrary: h)
  case (Suc n)
  obtain h1 where h1: "heap_alloc_page h = Inr h1"
    "card (free_set (frames (mach h))) \<le> card (free_set (frames (mach h1))) + 2"
    using heap_alloc_page_total[OF Suc.prems(1)] Suc.prems(2) by auto
  have "\<exists>h'. heap_pages_loop n h1 = Inr h' \<and>
      card (free_set (frames (mach h1))) \<le> card (free_set (frames (mach h'))) + 2 * n"
    using heap_alloc_page_ok(1)[OF Suc.prems(1) h1(1)] h1(2) Suc.prems(2) by (intro Suc.IH) auto
  with h1 show ?case by auto
qed simp

lemma heap_alloc_pages_ok:
  assumes "mach_ok h" "heap_alloc_pages h n = Inr (base, h')"
  shows "mach_ok h'" "caches h' = caches h" "base = heap_cursor h"
    "unat (heap_cursor h') = unat base + 4096 * unat n" "HEAP_VIRT_BASE \<le> q \<Longrightarrow> hmem h' q = hmem h q"
  using assms heap_pages_loop_ok[OF assms(1)]
  by (auto simp: heap_alloc_pages_def Let_def rbind_Inr_iff)

section \<open>Blocks\<close>

text \<open>A block is an address with a size. Two blocks are apart when their bytes are disjoint.\<close>

type_synonym block = "u32 \<times> u32"

fun apart :: "block \<Rightarrow> block \<Rightarrow> bool" where
  "apart (a, s) (b, t) \<longleftrightarrow> unat a + unat s \<le> unat b \<or> unat b + unat t \<le> unat a"

definition in_heap :: "u32 \<Rightarrow> block \<Rightarrow> bool" where
  "in_heap cur = (\<lambda>(a, s). HEAP_VIRT_BASE \<le> a \<and> unat a + unat s \<le> unat cur \<and> 8 \<le> unat s \<and> unat a mod 8 = 0)"

definition free_blocks :: "u32 list list \<Rightarrow> block set" where
  "free_blocks fls = (\<Union>i < 8. (\<lambda>x. (x, SLAB_SIZES ! i)) ` set (fls ! i))"

text \<open>The heap invariant with the free lists \<open>fls\<close> and the live blocks \<open>L\<close>, after the first \<open>n\<close>
  caches were set up: the lists are chained through memory, all free and live blocks lie in the heap
  and are pairwise apart, and none is both free and live.\<close>

definition heap_inv_upto :: "nat \<Rightarrow> heap \<Rightarrow> u32 list list \<Rightarrow> block set \<Rightarrow> bool" where
  "heap_inv_upto n h fls L \<longleftrightarrow> mach_ok h \<and> length (caches h) = 8 \<and> length fls = 8
     \<and> (\<forall>i < n. obj_size (caches h ! i) = SLAB_SIZES ! i)
     \<and> (\<forall>i < 8. chain (hmem h) (free_list (caches h ! i)) (fls ! i) \<and> distinct (fls ! i))
     \<and> free_blocks fls \<inter> L = {} \<and> (\<forall>b \<in> free_blocks fls \<union> L. in_heap (heap_cursor h) b)
     \<and> pairwise apart (free_blocks fls \<union> L)"

abbreviation heap_inv :: "heap \<Rightarrow> u32 list list \<Rightarrow> block set \<Rightarrow> bool" where
  "heap_inv \<equiv> heap_inv_upto 8"

lemma heap_invD:
  assumes "heap_inv_upto n h fls L"
  shows "mach_ok h" "length (caches h) = 8" "length fls = 8"
    "\<And>i. i < n \<Longrightarrow> obj_size (caches h ! i) = SLAB_SIZES ! i"
    "\<And>i. i < 8 \<Longrightarrow> chain (hmem h) (free_list (caches h ! i)) (fls ! i)" "\<And>i. i < 8 \<Longrightarrow> distinct (fls ! i)"
    "free_blocks fls \<inter> L = {}" "\<And>b. b \<in> free_blocks fls \<union> L \<Longrightarrow> in_heap (heap_cursor h) b"
    "pairwise apart (free_blocks fls \<union> L)"
  using assms by (simp_all add: heap_inv_upto_def)

lemma less_8_cases: "i < (8 :: nat) \<Longrightarrow> i \<in> {0, 1, 2, 3, 4, 5, 6, 7}"
  by auto

lemma slab_sizes:
  assumes "i < 8"
  shows "unat (SLAB_SIZES ! i) = 8 * 2 ^ i" "8 \<le> unat (SLAB_SIZES ! i)" "unat (SLAB_SIZES ! i) \<le> 1024"
    "unat (SLAB_SIZES ! i) mod 8 = 0"
  using less_8_cases[OF assms] by (auto simp: SLAB_SIZES_def)

lemma slab_sizes_inj: "i < 8 \<Longrightarrow> j < 8 \<Longrightarrow> SLAB_SIZES ! i = SLAB_SIZES ! j \<longleftrightarrow> i = j"
  by (rule nth_eq_iff_index_eq) (simp_all add: SLAB_SIZES_def)

lemma cursor_bound: "mach_ok h \<Longrightarrow> unat (heap_cursor h) \<le> 0xE0000000"
  by (simp add: mach_ok_def)

lemma chain_cong:
  "(\<And>x. x \<in> set xs \<Longrightarrow> load_u32 m' x = load_u32 m x) \<Longrightarrow> chain m' p xs = chain m p xs"
  by (induction xs arbitrary: p) auto

lemma chain_nonzero: "chain m p xs \<Longrightarrow> p = 0 \<longleftrightarrow> xs = []"
  by (cases xs) auto

lemma aligned_8_4: "unat x mod 8 = 0 \<Longrightarrow> aligned4 x"
  by (auto simp: aligned_unat dest!: mod_0_imp_dvd intro: dvd_trans[of 4 8])

text \<open>A set of blocks stays apart when one of them shrinks, or when blocks above all of them join it.\<close>

lemma apart_shrink:
  assumes "pairwise apart B" "(p, s) \<in> B" "unat r \<le> unat s"
  shows "pairwise apart (insert (p, r) (B - {(p, s)}))"
proof -
  have "apart (p, r) b \<and> apart b (p, r)" if "b \<in> B - {(p, s)}" for b
  proof -
    have "apart b (p, s)" using assms(1,2) that by (auto simp: pairwise_def)
    with assms(3) show ?thesis by (cases b) auto
  qed
  moreover have "pairwise apart (B - {(p, s)})" using assms(1) by (rule pairwise_subset) blast
  ultimately show ?thesis by (simp add: pairwise_insert)
qed

lemma apart_union:
  assumes "pairwise apart B" "pairwise apart C" "\<And>a s. (a, s) \<in> B \<Longrightarrow> unat a + unat s \<le> n" "\<And>a s. (a, s) \<in> C \<Longrightarrow> n \<le> unat a"
  shows "pairwise apart (B \<union> C)"
proof (rule pairwiseI)
  have cross: "apart b c \<and> apart c b" if "b \<in> B" "c \<in> C" for b c
    using that assms(3)[of "fst b" "snd b"] assms(4)[of "fst c" "snd c"] by (cases b; cases c) auto
  fix x y assume "x \<in> B \<union> C" "y \<in> B \<union> C" "x \<noteq> y"
  then show "apart x y" using cross assms(1,2) unfolding pairwise_def by blast
qed

text \<open>A byte of one block is outside every block apart from it.\<close>

lemma apart_byte:
  assumes "apart (a, s) (x, t)" "i < unat t" "unat x + unat t \<le> 0xE0000000" "unat a + unat s \<le> 0xE0000000"
  shows "\<not> x + of_nat i - a < s"
proof -
  have i: "unat (of_nat i :: u32) = i" using assms(2,3) by (intro unat_of_nat_eq_32) simp
  have x: "unat (x + of_nat i) = unat x + unat (of_nat i :: u32)"
    using assms(2,3) i by (intro unat_add_lem[THEN iffD1]) simp
  show ?thesis
    using assms x i by (auto simp: word_less_nat_alt unat_sub_if' word_le_nat_alt)
qed

lemma load_memset_apart:
  assumes "apart (a, s) (x, t)" "8 \<le> unat t" "unat x + unat t \<le> 0xE0000000" "unat a + unat s \<le> 0xE0000000"
  shows "load_u32 (luna_memset m a v s) x = load_u32 m x"
  using apart_byte[OF assms(1) _ assms(3,4)] assms(2)
  by (intro load_u32_cong) (simp add: luna_memset_fill fill_def)

lemma store_apart:
  assumes "unat a mod 8 = 0" "apart (a, s) (x, t)" "8 \<le> unat s" "i < unat t"
    "unat x + unat t \<le> 0xE0000000" "unat a + unat s \<le> 0xE0000000"
  shows "store_u32 m a v (x + of_nat i) = m (x + of_nat i)"
  using apart_byte[OF assms(2,4,5,6)] assms(3)
  by (simp add: store_u32_def store_bytes_lookup word_less_nat_alt)

lemma mach_ok_hmem:
  assumes ok: "mach_ok h" and same: "\<And>q. \<not> HEAP_VIRT_BASE \<le> q \<Longrightarrow> m q = hmem h q"
  shows "mach_ok (set_hmem h m)"
proof -
  let ?v = "mach h" and ?pd = "kernel_pd (mach h)"
  have pd: "page ?pd = ?pd" "frame_of ?pd < 0x10000" using ok by (simp_all add: mach_ok_def Let_def pd_ok_def)
  have "pde (?v\<lparr>kmem := m\<rparr>) ?pd i = pde ?v ?pd i" if "i < 1024" for i
  proof -
    have "m (entry ?pd i + of_nat k) = kmem ?v (entry ?pd i + of_nat k)" if "k < 4" for k
    proof (rule same)
      have "page (entry ?pd i + of_nat k) = ?pd"
        using page_add_aligned[OF entry_aligned[OF pd(1) \<open>i < 1024\<close>] that] page_entry[OF pd(1) \<open>i < 1024\<close>] by simp
      with low_page[OF pd(2)] show "\<not> HEAP_VIRT_BASE \<le> entry ?pd i + of_nat k" by blast
    qed
    then have "load_u32 m (entry ?pd i) = load_u32 (kmem ?v) (entry ?pd i)" by (rule load_u32_cong)
    then show ?thesis by (simp add: pde_def)
  qed
  then have "has_table (?v\<lparr>kmem := m\<rparr>) ?pd i = has_table ?v ?pd i" "table (?v\<lparr>kmem := m\<rparr>) ?pd i = table ?v ?pd i"
    if "i < 1024" for i using that by (simp_all add: has_table_def table_def)
  with ok show ?thesis by (simp add: mach_ok_def Let_def pd_ok_def)
qed

lemma mach_ok_caches [simp]: "mach_ok (h\<lparr>caches := cs\<rparr>) = mach_ok h"
  by (simp add: mach_ok_def)

subsection \<open>Taking and returning an object\<close>

lemma free_blocks_upd:
  assumes "length fls = 8" "i < 8"
  shows "free_blocks (fls[i := xs]) =
    (\<Union>j \<in> {..<8} - {i}. (\<lambda>x. (x, SLAB_SIZES ! j)) ` set (fls ! j)) \<union> (\<lambda>x. (x, SLAB_SIZES ! i)) ` set xs"
proof -
  have ins: "{..<8} = insert i ({..<8} - {i})" using assms(2) by auto
  show ?thesis
    unfolding free_blocks_def by (subst ins, subst UN_insert) (use assms in \<open>auto simp: nth_list_update\<close>)
qed

lemma free_blocks_split:
  assumes "length fls = 8" "i < 8"
  shows "free_blocks fls =
    (\<Union>j \<in> {..<8} - {i}. (\<lambda>x. (x, SLAB_SIZES ! j)) ` set (fls ! j)) \<union> (\<lambda>x. (x, SLAB_SIZES ! i)) ` set (fls ! i)"
  using free_blocks_upd[OF assms, of "fls ! i"] by simp

text \<open>Two blocks of the heap that are apart: writing one does not change the word at the start of the
  other.\<close>

lemma heap_block_bounds:
  assumes "heap_inv_upto n h fls L" "(a, s) \<in> free_blocks fls \<union> L"
  shows "unat a + unat s \<le> 0xE0000000" "8 \<le> unat s" "unat a mod 8 = 0" "HEAP_VIRT_BASE \<le> a" "a \<noteq> 0"
  using heap_invD(8)[OF assms] cursor_bound[OF heap_invD(1)[OF assms(1)]]
  by (auto simp: in_heap_def HEAP_VIRT_BASE_def)

lemma heap_blocks_apart:
  assumes "heap_inv_upto n h fls L" "b \<in> free_blocks fls \<union> L" "c \<in> free_blocks fls \<union> L" "b \<noteq> c"
  shows "apart b c"
  using heap_invD(9)[OF assms(1)] assms(2-4) by (auto simp: pairwise_def)

lemma below_heap_outside:
  assumes "HEAP_VIRT_BASE \<le> a" "unat a + unat s \<le> 0xE0000000" "\<not> HEAP_VIRT_BASE \<le> q"
  shows "\<not> q - a < s"
  using assms by (auto simp: HEAP_VIRT_BASE_def word_less_nat_alt word_le_nat_alt unat_sub_if')

lemma free_block_in: "i < 8 \<Longrightarrow> x \<in> set (fls ! i) \<Longrightarrow> (x, SLAB_SIZES ! i) \<in> free_blocks fls"
  by (auto simp: free_blocks_def)

lemma pop_obj_effect:
  assumes inv: "heap_inv h fls L" and i: "i < 8" and f: "fls ! i = x # xs"
  shows "pop_obj h i = (x, (set_hmem h (luna_memset (hmem h) x 0 (SLAB_SIZES ! i)))\<lparr>caches := (caches h)[i :=
      (caches h ! i)\<lparr>free_list := load_u32 (hmem h) x, used := used (caches h ! i) + 1\<rparr>]\<rparr>)"
proof -
  have "chain (hmem h) (free_list (caches h ! i)) (x # xs)" using heap_invD(5)[OF inv i] f by simp
  then show ?thesis using heap_invD(4)[OF inv i] by (simp add: pop_obj_def Let_def)
qed

lemma other_block_kept:
  assumes inv: "heap_inv h fls L" and x: "(x, s) \<in> free_blocks fls" and y: "(y, t) \<in> free_blocks fls" "(y, t) \<noteq> (x, s)"
  shows "load_u32 (luna_memset (hmem h) x 0 s) y = load_u32 (hmem h) y"
proof -
  have "apart (x, s) (y, t)" using x y by (intro heap_blocks_apart[OF inv]) auto
  with heap_block_bounds[OF inv UnI1[OF y(1)]] heap_block_bounds[OF inv UnI1[OF x]] show ?thesis by (intro load_memset_apart)
qed

lemma pop_obj_ok:
  assumes inv: "heap_inv h fls L" and i: "i < 8" and f: "fls ! i = x # xs"
  defines "h' \<equiv> snd (pop_obj h i)"
  shows "fst (pop_obj h i) = x" "heap_inv h' (fls[i := xs]) (insert (x, SLAB_SIZES ! i) L)"
    "(x, SLAB_SIZES ! i) \<notin> L" "hmem h' = luna_memset (hmem h) x 0 (SLAB_SIZES ! i)"
    "caches h' ! i = (caches h ! i)\<lparr>free_list := load_u32 (hmem h) x, used := used (caches h ! i) + 1\<rparr>"
proof -
  note D = heap_invD[OF inv]
  let ?s = "SLAB_SIZES ! i" and ?c = "caches h ! i"
  have ch: "chain (hmem h) (free_list ?c) (x # xs)" and di: "distinct (x # xs)"
    using D(5)[OF i] D(6)[OF i] f by simp_all
  note e = pop_obj_effect[OF inv i f]
  then show "fst (pop_obj h i) = x" by simp
  have h': "h' = (set_hmem h (luna_memset (hmem h) x 0 ?s))\<lparr>caches := (caches h)[i := ?c\<lparr>free_list := load_u32 (hmem h) x, used := used ?c + 1\<rparr>]\<rparr>"
    by (simp add: h'_def e)
  then show mem: "hmem h' = luna_memset (hmem h) x 0 ?s" by simp
  show "caches h' ! i = ?c\<lparr>free_list := load_u32 (hmem h) x, used := used ?c + 1\<rparr>"
    using i D(2) by (simp add: h')
  have xb: "(x, ?s) \<in> free_blocks fls" using i f by (intro free_block_in) simp_all
  then show notL: "(x, ?s) \<notin> L" using D(7) by auto
  note bx = heap_block_bounds[OF inv UnI1[OF xb]]
  have B: "free_blocks (fls[i := xs]) \<union> insert (x, ?s) L = free_blocks fls \<union> L"
    using free_blocks_upd[OF D(3) i] free_blocks_split[OF D(3) i] f by auto
  have notF: "(x, ?s) \<notin> free_blocks (fls[i := xs])"
    using di i slab_sizes_inj by (auto simp: free_blocks_upd[OF D(3) i])
  note load = other_block_kept[OF inv xb, folded mem]
  have chains: "chain (hmem h') (free_list (caches h' ! j)) (fls[i := xs] ! j) \<and> distinct (fls[i := xs] ! j)"
    if j: "j < 8" for j
  proof (cases "j = i")
    case True
    have "chain (hmem h') (load_u32 (hmem h) x) xs = chain (hmem h) (load_u32 (hmem h) x) xs"
      using di f i by (intro chain_cong load[OF free_block_in[OF i]]) auto
    with True ch di i D(2,3) show ?thesis by (simp add: h')
  next
    case False
    have "chain (hmem h') (free_list (caches h ! j)) (fls ! j) = chain (hmem h) (free_list (caches h ! j)) (fls ! j)"
      using j i False slab_sizes_inj by (intro chain_cong load[OF free_block_in]) auto
    with False D(5,6)[OF j] j i D(2,3) show ?thesis by (simp add: h')
  qed
  have "mach_ok (set_hmem h (luna_memset (hmem h) x 0 ?s))"
    using bx below_heap_outside by (intro mach_ok_hmem D(1)) (auto simp: luna_memset_fill fill_def)
  moreover have "free_blocks (fls[i := xs]) \<inter> insert (x, ?s) L = {}"
    using notF D(7) unfolding free_blocks_upd[OF D(3) i] free_blocks_split[OF D(3) i] f by auto
  moreover have "obj_size (caches h' ! j) = SLAB_SIZES ! j" if "j < 8" for j
    using D(2) D(4)[OF that] D(4)[OF i] that i by (cases "j = i") (simp_all add: h')
  ultimately show "heap_inv h' (fls[i := xs]) (insert (x, ?s) L)"
    unfolding heap_inv_upto_def B using chains D(2,3,8,9) by (simp add: h')
qed

lemma match_cache_first:
  assumes "caches h = c # cs" "obj_size c = 8" "unat p mod 8 = 0"
  shows "match_cache (caches h) p = Inr (Some 0)"
proof -
  have "p mod 8 = 0" using assms(3) by (simp add: word_unat_eq_iff unat_mod)
  with assms show ?thesis by simp
qed

lemma push_obj_effect:
  "push_obj h 0 p = (set_hmem h (store_u32 (hmem h) p (free_list (caches h ! 0))))\<lparr>caches := (caches h)[0 :=
     (caches h ! 0)\<lparr>free_list := p, used := used (caches h ! 0) - 1\<rparr>]\<rparr>"
  by (simp add: push_obj_def Let_def)

lemma push_obj_keeps:
  assumes inv: "heap_inv h fls L" and p: "(p, s) \<in> L" and at: "(a, t) \<in> L - {(p, s)}" "i < unat t"
  shows "hmem (push_obj h 0 p) (a + of_nat i) = hmem h (a + of_nat i)"
proof -
  have "apart (p, s) (a, t)" using at(1) p by (intro heap_blocks_apart[OF inv]) auto
  then have "store_u32 (hmem h) p v (a + of_nat i) = hmem h (a + of_nat i)" for v
    using heap_block_bounds[OF inv UnI2[OF p]] heap_block_bounds[OF inv, of a t] at by (intro store_apart[of p s a t i]) auto
  then show ?thesis by (simp add: push_obj_effect)
qed

lemma live_block_differs:
  assumes inv: "heap_inv h fls L" and p: "(p, s) \<in> L" and y: "(y, t) \<in> free_blocks fls \<union> L" "(y, t) \<noteq> (p, s)"
  shows "y \<noteq> p"
  using heap_blocks_apart[OF inv y(1) UnI2[OF p] y(2)] heap_block_bounds[OF inv UnI2[OF p]] heap_block_bounds[OF inv y(1)]
  by auto

lemma push_obj_chains:
  assumes inv: "heap_inv h fls L" and p: "(p, s) \<in> L" and j: "j < 8"
  shows "chain (hmem (push_obj h 0 p)) (free_list (caches (push_obj h 0 p) ! j)) (fls[0 := p # fls ! 0] ! j)
    \<and> distinct (fls[0 := p # fls ! 0] ! j)"
proof -
  note D = heap_invD[OF inv]
  let ?h = "push_obj h 0 p"
  note bp = heap_block_bounds[OF inv UnI2[OF p]]
  have ne: "y \<noteq> p" if "(y, t) \<in> free_blocks fls" for y t
    using that p D(7) by (intro live_block_differs[OF inv p, of y t]) auto
  have load: "load_u32 (hmem ?h) y = load_u32 (hmem h) y" if "(y, t) \<in> free_blocks fls" for y t
    using bp ne[OF that] heap_block_bounds[OF inv UnI1[OF that]]
    by (simp add: push_obj_effect load_u32_store_other aligned_8_4)
  have same: "chain (hmem ?h) q (fls ! j) = chain (hmem h) q (fls ! j)" if "j < 8" for q j
    using that by (intro chain_cong load[OF free_block_in])
  show ?thesis
  proof (cases "j = 0")
    case True
    have "load_u32 (hmem ?h) p = free_list (caches h ! 0)" by (simp add: push_obj_effect load_u32_store_same)
    moreover have "p \<notin> set (fls ! 0)" using ne free_block_in[of 0 p fls] by auto
    ultimately show ?thesis using True same[of 0] D(5,6)[of 0] bp(5) D(2,3) by (simp add: push_obj_effect)
  next
    case False
    with same[OF j] D(5,6)[OF j] j D(2,3) show ?thesis by (simp add: push_obj_effect)
  qed
qed

lemma push_obj_ok:
  assumes inv: "heap_inv h fls L" and p: "(p, s) \<in> L"
  shows "heap_inv (push_obj h 0 p) (fls[0 := p # fls ! 0]) (L - {(p, s)})"
proof -
  note D = heap_invD[OF inv]
  let ?c = "caches h ! 0" and ?fls = "fls[0 := p # fls ! 0]" and ?h = "push_obj h 0 p"
  note bp = heap_block_bounds[OF inv UnI2[OF p]]
  have notF: "(p, s) \<notin> free_blocks fls" using p D(7) by auto
  have F: "free_blocks ?fls = insert (p, 8) (free_blocks fls)"
    using free_blocks_upd[OF D(3), of 0] free_blocks_split[OF D(3), of 0] by (auto simp: SLAB_SIZES_def)
  have pair: "pairwise apart (free_blocks ?fls \<union> (L - {(p, s)}))"
    using notF by (intro pairwise_subset[OF apart_shrink[OF D(9) UnI2[OF p], of 8]]) (use bp(2) in \<open>auto simp: F\<close>)
  have "store_u32 (hmem h) p v q = hmem h q" if "\<not> HEAP_VIRT_BASE \<le> q" for v q
    using below_heap_outside[OF bp(4,1) that] bp(2)
    by (simp add: store_u32_def store_bytes_lookup word_less_nat_alt)
  then have "mach_ok (set_hmem h (store_u32 (hmem h) p (free_list ?c)))" by (intro mach_ok_hmem D(1))
  moreover have "free_blocks ?fls \<inter> (L - {(p, s)}) = {}"
    using D(7) live_block_differs[OF inv p, of p 8] by (auto simp: F)
  moreover have "\<forall>b \<in> free_blocks ?fls \<union> (L - {(p, s)}). in_heap (heap_cursor h) b"
    using D(8) D(8)[OF UnI2[OF p]] by (auto simp: F in_heap_def)
  moreover have "obj_size (caches ?h ! j) = SLAB_SIZES ! j" if "j < 8" for j
    using D(2) D(4)[OF that] that by (cases "j = 0") (simp_all add: push_obj_effect)
  ultimately show ?thesis
    unfolding heap_inv_upto_def using push_obj_chains[OF inv p] pair D(2,3) by (simp add: push_obj_effect)
qed

subsection \<open>Threading fresh pages\<close>

primrec obj_addrs :: "nat \<Rightarrow> u32 \<Rightarrow> u32 \<Rightarrow> u32 list" where
  "obj_addrs 0 ptr obj = []"
| "obj_addrs (Suc n) ptr obj = ptr # obj_addrs n (ptr + obj) obj"

lemma next_obj:
  fixes ptr obj :: u32
  assumes "unat ptr + Suc n * unat obj \<le> 0xE0000000" "unat ptr mod 8 = 0" "unat obj mod 8 = 0"
  shows "unat (ptr + obj) = unat ptr + unat obj" "unat (ptr + obj) + n * unat obj \<le> 0xE0000000"
    "unat (ptr + obj) mod 8 = 0"
proof -
  show s: "unat (ptr + obj) = unat ptr + unat obj" using assms(1) by (intro unat_add_lem[THEN iffD1]) simp
  with assms show "unat (ptr + obj) + n * unat obj \<le> 0xE0000000" by simp
  have "8 dvd unat ptr + unat obj" using assms(2,3) by (intro dvd_add) (simp_all add: mod_0_imp_dvd)
  with s show "unat (ptr + obj) mod 8 = 0" by simp
qed

lemma obj_addrs_unat:
  fixes ptr obj :: u32
  assumes "unat ptr + n * unat obj \<le> 0xE0000000" "unat ptr mod 8 = 0" "unat obj mod 8 = 0" "y \<in> set (obj_addrs n ptr obj)"
  shows "\<exists>k < n. unat y = unat ptr + k * unat obj" "unat y mod 8 = 0"
proof -
  have "(\<exists>k < n. unat y = unat ptr + k * unat obj) \<and> unat y mod 8 = 0"
    using assms
  proof (induction n arbitrary: ptr)
    case (Suc n)
    note nx = next_obj[OF Suc.prems(1-3)]
    show ?case
    proof (cases "y = ptr")
      case True
      with Suc.prems show ?thesis by (intro conjI exI[of _ 0]) simp_all
    next
      case False
      with Suc.prems(4) have "y \<in> set (obj_addrs n (ptr + obj) obj)" by simp
      from Suc.IH[OF nx(2,3) Suc.prems(3) this] obtain k where "k < n" "unat y = unat ptr + unat obj + k * unat obj"
        "unat y mod 8 = 0" using nx(1) by auto
      then show ?thesis by (intro conjI exI[of _ "Suc k"]) simp_all
    qed
  qed simp
  then show "\<exists>k < n. unat y = unat ptr + k * unat obj" "unat y mod 8 = 0" by blast+
qed

lemma obj_addrs_distinct:
  assumes "unat ptr + n * unat obj \<le> 0xE0000000" "unat ptr mod 8 = 0" "unat obj mod 8 = 0" "0 < unat obj"
  shows "distinct (obj_addrs n ptr obj)"
  using assms
proof (induction n arbitrary: ptr)
  case (Suc n)
  note nx = next_obj[OF Suc.prems(1-3)]
  have "ptr \<notin> set (obj_addrs n (ptr + obj) obj)"
    using obj_addrs_unat(1)[OF nx(2,3) Suc.prems(3)] nx(1) Suc.prems(4) by fastforce
  with Suc.IH[OF nx(2,3) Suc.prems(3,4)] show ?case by simp
qed simp

lemma thread_objs_ok:
  assumes "thread_objs n m fl ptr obj = (m', fl')" "chain m fl xs" "\<forall>y \<in> set xs. unat y < unat ptr \<and> aligned4 y"
    "unat ptr + n * unat obj \<le> 0xE0000000" "unat ptr mod 8 = 0" "unat obj mod 8 = 0" "8 \<le> unat obj" "0 < unat ptr"
  shows "chain m' fl' (rev (obj_addrs n ptr obj) @ xs)"
    and "unat q < unat ptr \<Longrightarrow> m' q = m q"
    and "aligned4 y \<Longrightarrow> unat y < unat ptr \<Longrightarrow> load_u32 m' y = load_u32 m y"
proof -
  have "chain m' fl' (rev (obj_addrs n ptr obj) @ xs) \<and> (\<forall>q. unat q < unat ptr \<longrightarrow> m' q = m q)
      \<and> (\<forall>y. aligned4 y \<longrightarrow> unat y < unat ptr \<longrightarrow> load_u32 m' y = load_u32 m y)"
    using assms
  proof (induction n arbitrary: m fl ptr xs)
    case (Suc n)
    let ?m = "store_u32 m ptr fl"
    note nx = next_obj[OF Suc.prems(4,5,6)]
    have al: "aligned4 ptr" using Suc.prems(5) by (rule aligned_8_4)
    have keep: "load_u32 ?m y = load_u32 m y" if "aligned4 y" "unat y < unat ptr" for y
      using that al by (intro load_u32_store_other) auto
    have byte: "?m q = m q" if "unat q < unat ptr" for q
    proof -
      have "\<not> unat (q - ptr) < 4"
        using that Suc.prems(4,7) by (simp add: unat_sub_if' word_le_nat_alt)
      then show ?thesis by (simp add: store_u32_def store_bytes_lookup)
    qed
    have "chain ?m fl xs" using Suc.prems(2,3) keep by (subst chain_cong) auto
    then have "chain ?m ptr (ptr # xs)" using Suc.prems(8) by (auto simp: load_u32_store_same)
    moreover have "\<forall>y \<in> set (ptr # xs). unat y < unat (ptr + obj) \<and> aligned4 y"
      using Suc.prems(3,7) al nx(1) by auto
    moreover have "thread_objs n ?m ptr (ptr + obj) obj = (m', fl')" using Suc.prems(1) by simp
    ultimately have "chain m' fl' (rev (obj_addrs n (ptr + obj) obj) @ ptr # xs)
        \<and> (\<forall>q. unat q < unat (ptr + obj) \<longrightarrow> m' q = ?m q)
        \<and> (\<forall>y. aligned4 y \<longrightarrow> unat y < unat (ptr + obj) \<longrightarrow> load_u32 m' y = load_u32 ?m y)"
      using nx Suc.prems(6,7) by (intro Suc.IH) auto
    with keep byte nx(1) show ?case by auto
  qed simp
  then show "chain m' fl' (rev (obj_addrs n ptr obj) @ xs)" "unat q < unat ptr \<Longrightarrow> m' q = m q"
    "aligned4 y \<Longrightarrow> unat y < unat ptr \<Longrightarrow> load_u32 m' y = load_u32 m y" by auto
qed

abbreviation slab_count :: "nat \<Rightarrow> u32" where
  "slab_count i \<equiv> (SLAB_PAGES * PAGE_SIZE) div (SLAB_SIZES ! i)"

lemma slab_count:
  assumes "i < 8"
  shows "unat (slab_count i) * unat (SLAB_SIZES ! i) = 16384" "0 < unat (slab_count i)"
  using less_8_cases[OF assms] by (auto simp: SLAB_SIZES_def SLAB_PAGES_def PAGE_SIZE_def)

text \<open>The objects of a fresh slab.\<close>

lemma slab_blocks:
  assumes i: "i < 8" and base: "HEAP_VIRT_BASE \<le> base" "unat base mod 8 = 0"
    and cur: "unat cur = unat base + 16384" "unat cur \<le> 0xE0000000"
  defines "S \<equiv> (\<lambda>x. (x, SLAB_SIZES ! i)) ` set (obj_addrs (unat (slab_count i)) base (SLAB_SIZES ! i))"
  shows "pairwise apart S" "\<And>a s. (a, s) \<in> S \<Longrightarrow> unat base \<le> unat a" "\<And>b. b \<in> S \<Longrightarrow> in_heap cur b"
proof -
  let ?s = "SLAB_SIZES ! i" and ?n = "unat (slab_count i)"
  note ss = slab_sizes[OF i]
  have fit: "unat base + ?n * unat ?s \<le> 0xE0000000" using cur slab_count(1)[OF i] by simp
  have y: "s = ?s" "\<exists>k < ?n. unat a = unat base + k * unat ?s" "unat a mod 8 = 0" if "(a, s) \<in> S" for a s
    using obj_addrs_unat[OF fit base(2) ss(4), of a] that by (auto simp: S_def)
  show "pairwise apart S"
  proof (rule pairwiseI, simp only: split_paired_all)
    fix a s b t assume ab: "(a, s) \<in> S" "(b, t) \<in> S" "(a, s) \<noteq> (b, t)"
    then obtain k l where kl: "unat a = unat base + k * unat ?s" "unat b = unat base + l * unat ?s" using y(2) by blast
    have "a \<noteq> b" using ab y(1) by blast
    with kl have "k \<noteq> l" by (auto simp: word_unat_eq_iff)
    then have "Suc k * unat ?s \<le> l * unat ?s \<or> Suc l * unat ?s \<le> k * unat ?s"
      by (metis Suc_leI linorder_neqE_nat mult_le_mono1)
    with kl y(1)[OF ab(1)] y(1)[OF ab(2)] show "apart (a, s) (b, t)" by auto
  qed
  show "unat base \<le> unat a" if "(a, s) \<in> S" for a s using y(2)[OF that] by auto
  fix b assume b: "b \<in> S"
  obtain a s where as: "b = (a, s)" by (cases b)
  with b obtain k where k: "k < ?n" "unat a = unat base + k * unat ?s" using y(2) by blast
  then have "Suc k * unat ?s \<le> ?n * unat ?s" by (intro mult_le_mono1) simp
  then have "unat a + unat ?s \<le> unat base + 16384" using k slab_count(1)[OF i] by simp
  moreover have "s = ?s" "unat a mod 8 = 0" using b as y(1,3) by blast+
  ultimately show "in_heap cur b"
    using k(2) as ss(2) base(1) cur(1) by (simp add: in_heap_def word_le_nat_alt)
qed

text \<open>The memory after four fresh pages were threaded: the objects are chained, and no byte of an older block
  has changed.\<close>

lemma grown_memory:
  assumes inv: "heap_inv_upto n h fls L" and i: "i < 8"
    and al: "heap_alloc_pages h SLAB_PAGES = Inr (base, h1)"
    and th: "thread_objs (unat (slab_count i)) (hmem h1) 0 base (SLAB_SIZES ! i) = (m, fl)"
  defines "ys \<equiv> rev (obj_addrs (unat (slab_count i)) base (SLAB_SIZES ! i))"
  shows "chain m fl ys" "distinct ys" "mach_ok (set_hmem h1 m)" "unat base mod 8 = 0" "HEAP_VIRT_BASE \<le> base"
    and "\<And>a s. (a, s) \<in> free_blocks fls \<union> L \<Longrightarrow> unat a + unat s \<le> unat base"
    and "\<And>a s k. (a, s) \<in> free_blocks fls \<union> L \<Longrightarrow> k < unat s \<Longrightarrow> m (a + of_nat k) = hmem h (a + of_nat k)"
proof -
  note D = heap_invD[OF inv] and P = heap_alloc_pages_ok[OF heap_invD(1)[OF inv] al] and ss = slab_sizes[OF i]
  show base: "HEAP_VIRT_BASE \<le> base" using D(1) P(3) by (simp add: mach_ok_def)
  have "page base = base" using D(1) P(3) by (simp add: mach_ok_def)
  then obtain k where "unat base = 4096 * k" by (rule page_obtain)
  then show b8: "unat base mod 8 = 0" by simp
  have fit: "unat base + unat (slab_count i) * unat (SLAB_SIZES ! i) \<le> 0xE0000000"
    using P(4) cursor_bound[OF P(1)] slab_count(1)[OF i] by (simp add: SLAB_PAGES_def)
  have "0 < unat base" using base by (simp add: HEAP_VIRT_BASE_def word_le_nat_alt)
  note T = thread_objs_ok[OF th, of "[]", simplified, OF fit b8 ss(4,2) this]
  show "chain m fl ys" using T(1) by (simp add: ys_def)
  show "distinct ys" using obj_addrs_distinct[OF fit b8 ss(4)] ss(2) by (simp add: ys_def)
  show "mach_ok (set_hmem h1 m)"
    using base by (intro mach_ok_hmem P(1) T(2)) (auto simp: word_le_nat_alt)
  show old: "unat a + unat s \<le> unat base" if "(a, s) \<in> free_blocks fls \<union> L" for a s
    using D(8)[OF that] P(3) by (simp add: in_heap_def)
  fix a s k assume as: "(a, s) \<in> free_blocks fls \<union> L" "k < unat s"
  note b = heap_block_bounds[OF inv as(1)]
  have "unat (of_nat k :: u32) = k" using b(1) as(2) by (intro unat_of_nat_eq_32) simp
  then have u: "unat (a + of_nat k) = unat a + k" using b(1) as(2) by (subst unat_add_lem[THEN iffD1]) simp_all
  have "m (a + of_nat k) = hmem h1 (a + of_nat k)" using u old[OF as(1)] as(2) by (intro T(2)) simp
  also have "\<dots> = hmem h (a + of_nat k)" using u b(4) by (intro P(5)) (simp add: word_le_nat_alt)
  finally show "m (a + of_nat k) = hmem h (a + of_nat k)" .
qed

text \<open>Giving an empty cache four fresh pages of objects.\<close>

lemma grow_cache:
  assumes inv: "heap_inv_upto n h fls L" and i: "i < 8" and empty: "fls ! i = []"
    and al: "heap_alloc_pages h SLAB_PAGES = Inr (base, h1)"
    and th: "thread_objs (unat (slab_count i)) (hmem h1) 0 base (SLAB_SIZES ! i) = (m, fl)"
    and c: "free_list c = fl" "obj_size c = SLAB_SIZES ! i" and n': "\<forall>j < n'. j = i \<or> j < n" "n' \<le> 8"
  defines "ys \<equiv> rev (obj_addrs (unat (slab_count i)) base (SLAB_SIZES ! i))"
    and "h2 \<equiv> (set_hmem h1 m)\<lparr>caches := (caches h1)[i := c]\<rparr>"
  shows "heap_inv_upto n' h2 (fls[i := ys]) L" "ys \<noteq> []"
    and "(a, t) \<in> L \<Longrightarrow> k < unat t \<Longrightarrow> hmem h2 (a + of_nat k) = hmem h (a + of_nat k)"
proof -
  note D = heap_invD[OF inv] and P = heap_alloc_pages_ok[OF heap_invD(1)[OF inv] al]
    and M = grown_memory[OF inv i al th, folded ys_def]
  let ?S = "(\<lambda>x. (x, SLAB_SIZES ! i)) ` set ys"
  have cur: "unat (heap_cursor h1) = unat base + 16384" using P(4) by (simp add: SLAB_PAGES_def)
  have S: "pairwise apart ?S" "\<And>a s. (a, s) \<in> ?S \<Longrightarrow> unat base \<le> unat a" "\<And>b. b \<in> ?S \<Longrightarrow> in_heap (heap_cursor h1) b"
    using slab_blocks[OF i M(5,4) cur cursor_bound[OF P(1)]] by (simp_all add: ys_def)
  have F: "free_blocks (fls[i := ys]) \<union> L = (free_blocks fls \<union> L) \<union> ?S" "free_blocks (fls[i := ys]) = free_blocks fls \<union> ?S"
    using free_blocks_upd[OF D(3) i] free_blocks_split[OF D(3) i] empty by auto
  have pair: "pairwise apart (free_blocks (fls[i := ys]) \<union> L)"
    unfolding F(1) by (rule apart_union[OF D(9) S(1) M(6) S(2)])
  have "load_u32 m y = load_u32 (hmem h) y" if "(y, t) \<in> free_blocks fls" for y t
    using that heap_block_bounds(2)[OF inv UnI1[OF that]] by (intro load_u32_cong M(7)[of y t]) auto
  then have old: "chain m q (fls ! j) = chain (hmem h) q (fls ! j)" if "j < 8" for q j
    using that free_block_in by (intro chain_cong) blast
  have chains: "chain m (free_list (caches h2 ! j)) (fls[i := ys] ! j) \<and> distinct (fls[i := ys] ! j)" if "j < 8" for j
    using M(1,2) c(1) i D(2,3) P(2) old[OF that] D(5,6)[OF that] by (cases "j = i") (simp_all add: h2_def)
  have "free_blocks (fls[i := ys]) \<inter> L = {}"
  proof -
    have "b \<notin> L" if "b \<in> ?S" for b
      using M(6)[of "fst b" "snd b"] S(2)[of "fst b" "snd b"] that slab_sizes(2)[OF i] by fastforce
    with D(7) show ?thesis unfolding F(2) by blast
  qed
  moreover have "in_heap (heap_cursor h1) b" if "b \<in> free_blocks (fls[i := ys]) \<union> L" for b
    using that S(3) D(8)[of b] cur P(3) unfolding F(1) by (auto simp: in_heap_def)
  moreover have "obj_size (caches h2 ! j) = SLAB_SIZES ! j" if "j < n'" for j
    using n' that c(2) D(2) D(4)[of j] P(2) i by (cases "j = i") (auto simp: h2_def)
  ultimately show "heap_inv_upto n' h2 (fls[i := ys]) L"
    unfolding heap_inv_upto_def using chains pair D(2,3) P(2) M(3) by (simp add: h2_def)
  show "ys \<noteq> []" using slab_count(2)[OF i] by (cases "unat (slab_count i)") (simp_all add: ys_def)
  show "(a, t) \<in> L \<Longrightarrow> k < unat t \<Longrightarrow> hmem h2 (a + of_nat k) = hmem h (a + of_nat k)"
    using M(7)[of a t k] by (simp add: h2_def)
qed

section \<open>The operations\<close>

lemma find_cache_Some:
  "find_cache cs sz = Some i \<Longrightarrow> i < length cs \<and> sz \<le> obj_size (cs ! i) \<and> (\<forall>j < i. obj_size (cs ! j) < sz)"
proof (induction cs sz arbitrary: i rule: find_cache.induct)
  case (2 c cs sz)
  then show ?case by (auto simp: not_le nth_Cons split: if_splits nat.splits)
qed simp

lemma find_cache_None: "find_cache cs sz = None \<longleftrightarrow> (\<forall>c \<in> set cs. obj_size c < sz)"
  by (induction cs sz rule: find_cache.induct) (auto simp: not_le)

lemma refill_ok:
  assumes inv: "heap_inv h fls L" and i: "i < 8" and e: "free_list (caches h ! i) = 0" and r: "refill h i = Inr h'"
  obtains ys where "heap_inv h' (fls[i := ys]) L" "ys \<noteq> []"
    "\<And>a t k. (a, t) \<in> L \<Longrightarrow> k < unat t \<Longrightarrow> hmem h' (a + of_nat k) = hmem h (a + of_nat k)"
proof -
  note D = heap_invD[OF inv]
  from r obtain base h1 where al: "heap_alloc_pages h SLAB_PAGES = Inr (base, h1)"
    by (auto simp: refill_def rbind_Inr_iff)
  have cs: "caches h1 = caches h" using heap_alloc_pages_ok(2)[OF D(1) al] .
  obtain m fl where th: "thread_objs (unat (slab_count i)) (hmem h1) 0 base (SLAB_SIZES ! i) = (m, fl)"
    by fastforce
  have empty: "fls ! i = []" using D(5)[OF i] e chain_nonzero by auto
  let ?c = "(caches h ! i)\<lparr>free_list := fl, total := total (caches h ! i) + slab_count i\<rparr>"
  have h': "h' = (set_hmem h1 m)\<lparr>caches := (caches h1)[i := ?c]\<rparr>"
    using r al cs e D(4)[OF i] th by (simp add: refill_def Let_def)
  have "obj_size ?c = SLAB_SIZES ! i" "free_list ?c = fl" using D(4)[OF i] by simp_all
  note g = grow_cache[OF inv i empty al th this(2,1), of 8, folded h']
  show ?thesis using i by (intro that[OF g(1,2)] g(3)) auto
qed

lemma refill_total:
  assumes "mach_ok h" "8 \<le> card (free_set (frames (mach h)))"
  shows "\<exists>h'. refill h i = Inr h'"
  using heap_pages_loop_total[OF assms(1), of 4] assms(2)
  by (auto simp: refill_def heap_alloc_pages_def Let_def SLAB_PAGES_def split: prod.splits)

lemma zeroed_block:
  "i < unat s \<Longrightarrow> unat x + unat s \<le> 0xE0000000 \<Longrightarrow> luna_memset m x 0 s (x + of_nat i) = 0"
  by (simp add: luna_memset_fill fill_def word_less_nat_alt unat_of_nat_eq_32)

lemma find_cache_small:
  assumes "heap_inv h fls L" "sz \<le> 1024"
  shows "find_cache (caches h) sz \<noteq> None"
proof
  assume "find_cache (caches h) sz = None"
  then have "obj_size (caches h ! 7) < sz" using heap_invD(2)[OF assms(1)] by (simp add: find_cache_None)
  with heap_invD(4)[OF assms(1), of 7] assms(2) show False by (simp add: SLAB_SIZES_def)
qed

lemma ready_cache:
  assumes inv: "heap_inv h fls L" and i: "i < 8"
    and h1: "(if free_list (caches h ! i) = 0 then refill h i else Inr h) = Inr h1"
  obtains ys where "heap_inv h1 (fls[i := ys]) L" "ys \<noteq> []"
    "\<And>a t k. (a, t) \<in> L \<Longrightarrow> k < unat t \<Longrightarrow> hmem h1 (a + of_nat k) = hmem h (a + of_nat k)"
proof (cases "free_list (caches h ! i) = 0")
  case True
  with h1 have "refill h i = Inr h1" by simp
  from refill_ok[OF inv i True this] show ?thesis by (metis that)
next
  case False
  with h1 have "h1 = h" by simp
  moreover have "fls ! i \<noteq> []" using heap_invD(5)[OF inv i] False chain_nonzero by blast
  ultimately show ?thesis using inv heap_invD(3)[OF inv] by (intro that[of "fls ! i"]) simp_all
qed

lemma k_malloc_slab:
  assumes inv: "heap_inv h fls L" and sz: "0 < sz" "sz \<le> 1024" and m: "k_malloc h sz = Inr (p, h')"
  obtains fls' s where "sz \<le> s" "heap_inv h' fls' (insert (p, s) L)" "(p, s) \<notin> L"
    "\<And>i. i < unat s \<Longrightarrow> hmem h' (p + of_nat i) = 0"
    "\<And>a t i. (a, t) \<in> L \<Longrightarrow> i < unat t \<Longrightarrow> hmem h' (a + of_nat i) = hmem h (a + of_nat i)"
proof -
  note D = heap_invD[OF inv]
  obtain i where f: "find_cache (caches h) sz = Some i" using find_cache_small[OF inv sz(2)] by blast
  then have i: "i < 8" and fit: "sz \<le> SLAB_SIZES ! i" using find_cache_Some[OF f] D(2,4) by auto
  obtain h1 where h1: "(if free_list (caches h ! i) = 0 then refill h i else Inr h) = Inr h1"
    and ph: "(p, h') = pop_obj h1 i"
  proof -
    have "sz \<noteq> 0" using sz(1) by auto
    with m f have "rbind (if free_list (caches h ! i) = 0 then refill h i else Inr h) (\<lambda>h. Inr (pop_obj h i)) = Inr (p, h')"
      by (simp add: k_malloc_def)
    then obtain h1 where "(if free_list (caches h ! i) = 0 then refill h i else Inr h) = Inr h1" "pop_obj h1 i = (p, h')"
      unfolding rbind_Inr_iff by blast
    then show ?thesis using that by simp
  qed
  obtain ys where ys: "heap_inv h1 (fls[i := ys]) L" "ys \<noteq> []"
    and keep: "\<And>a t k. (a, t) \<in> L \<Longrightarrow> k < unat t \<Longrightarrow> hmem h1 (a + of_nat k) = hmem h (a + of_nat k)"
    by (rule ready_cache[OF inv i h1]) metis
  obtain x xs where "fls[i := ys] ! i = x # xs" using ys(2) i D(3) by (cases ys) auto
  note P = pop_obj_ok[OF ys(1) i this]
  have p: "p = x" "h' = snd (pop_obj h1 i)" using ph P(1) by (metis fst_conv, metis snd_conv)
  show ?thesis
  proof (rule that[of "SLAB_SIZES ! i"])
    show "sz \<le> SLAB_SIZES ! i" by (rule fit)
    show "heap_inv h' (fls[i := ys, i := xs]) (insert (p, SLAB_SIZES ! i) L)" using P(2) by (simp only: p)
    show "(p, SLAB_SIZES ! i) \<notin> L" using P(3) p by simp
    note bx = heap_block_bounds[OF P(2), of x "SLAB_SIZES ! i"]
    show "hmem h' (p + of_nat k) = 0" if "k < unat (SLAB_SIZES ! i)" for k
      unfolding p P(4) using that bx by (intro zeroed_block) auto
    show "hmem h' (a + of_nat k) = hmem h (a + of_nat k)" if at: "(a, t) \<in> L" "k < unat t" for a t k
    proof -
      have "apart (x, SLAB_SIZES ! i) (a, t)" using at P(3) by (intro heap_blocks_apart[OF P(2)]) auto
      then have "\<not> a + of_nat k - x < SLAB_SIZES ! i"
        using bx heap_block_bounds[OF ys(1) UnI2[OF at(1)]] at(2) by (intro apart_byte[of x _ a t]) auto
      with keep[OF at] show ?thesis by (simp add: p P(4) luna_memset_fill fill_def)
    qed
  qed
qed

lemma init_cache_ok:
  assumes inv: "heap_inv_upto n h fls {}" and n: "n < 8" and e: "fls ! n = []" and r: "init_cache h n = Inr h'"
  obtains ys where "heap_inv_upto (Suc n) h' (fls[n := ys]) {}"
proof -
  note D = heap_invD[OF inv]
  from r obtain base h1 where al: "heap_alloc_pages h SLAB_PAGES = Inr (base, h1)"
    by (auto simp: init_cache_def rbind_Inr_iff)
  obtain m fl where th: "thread_objs (unat (slab_count n)) (hmem h1) 0 base (SLAB_SIZES ! n) = (m, fl)"
    by fastforce
  let ?c = "\<lparr>free_list = fl, obj_size = SLAB_SIZES ! n, total = slab_count n, used = 0\<rparr>"
  have h': "h' = (set_hmem h1 m)\<lparr>caches := (caches h1)[n := ?c]\<rparr>"
    using r al th by (simp add: init_cache_def Let_def)
  have "obj_size ?c = SLAB_SIZES ! n" "free_list ?c = fl" by simp_all
  note g = grow_cache[OF inv n e al th this(2,1), of "Suc n", folded h']
  show ?thesis using n by (intro that[OF g(1)]) auto
qed

lemma init_caches_ok:
  "heap_inv_upto n h fls {} \<Longrightarrow> n \<le> 8 \<Longrightarrow> \<forall>j. n \<le> j \<and> j < 8 \<longrightarrow> fls ! j = [] \<Longrightarrow>
   init_caches [n..<8] h = Inr h' \<Longrightarrow> \<exists>fls'. heap_inv h' fls' {}"
proof (induction "8 - n" arbitrary: n h fls)
  case 0
  then show ?case by auto
next
  case (Suc k)
  then have n: "n < 8" by simp
  then have "[n..<8] = n # [Suc n..<8]" by (rule upt_conv_Cons)
  with Suc.prems(4) obtain h1 where h1: "init_cache h n = Inr h1" "init_caches [Suc n..<8] h1 = Inr h'"
    by (auto simp: rbind_Inr_iff)
  have "fls ! n = []" using Suc.prems(3) n by simp
  then obtain ys where ys: "heap_inv_upto (Suc n) h1 (fls[n := ys]) {}"
    by (rule init_cache_ok[OF Suc.prems(1) n _ h1(1)])
  show ?case
    by (rule Suc.hyps(1)[OF _ ys _ _ h1(2)]) (use Suc.hyps(2) Suc.prems(3) n in auto)
qed

lemma heap_init_ok:
  assumes "mach_ok h" "length (caches h) = 8" "\<forall>c \<in> set (caches h). free_list c = 0" "heap_init h = Inr h'"
  shows "\<exists>fls. heap_inv h' fls {}"
proof -
  have "heap_inv_upto 0 h (replicate 8 []) {}"
    using assms(1-3) by (auto simp: heap_inv_upto_def free_blocks_def)
  then show ?thesis
    using assms(4) by (intro init_caches_ok[of 0 h "replicate 8 []"]) (simp_all add: heap_init_def)
qed

lemma init_cache_total:
  assumes "mach_ok h" "8 \<le> card (free_set (frames (mach h)))"
  shows "\<exists>h'. init_cache h i = Inr h' \<and> card (free_set (frames (mach h))) \<le> card (free_set (frames (mach h'))) + 8"
  using heap_pages_loop_total[OF assms(1), of 4] assms(2)
  by (auto simp: init_cache_def heap_alloc_pages_def Let_def SLAB_PAGES_def split: prod.splits)

lemma init_caches_total:
  "heap_inv_upto n h fls {} \<Longrightarrow> n \<le> 8 \<Longrightarrow> \<forall>j. n \<le> j \<and> j < 8 \<longrightarrow> fls ! j = [] \<Longrightarrow>
   8 * (8 - n) \<le> card (free_set (frames (mach h))) \<Longrightarrow> \<exists>h'. init_caches [n..<8] h = Inr h'"
proof (induction "8 - n" arbitrary: n h fls)
  case 0
  then show ?case by auto
next
  case (Suc k)
  then have n: "n < 8" by simp
  then have upt: "[n..<8] = n # [Suc n..<8]" by (rule upt_conv_Cons)
  obtain h1 where h1: "init_cache h n = Inr h1"
    "card (free_set (frames (mach h))) \<le> card (free_set (frames (mach h1))) + 8"
  proof -
    have "8 \<le> card (free_set (frames (mach h)))" using Suc.prems(4) Suc.hyps(2)[symmetric] by simp
    from init_cache_total[OF heap_invD(1)[OF Suc.prems(1)] this, of n] show ?thesis using that by blast
  qed
  have "fls ! n = []" using Suc.prems(3) n by simp
  then obtain ys where ys: "heap_inv_upto (Suc n) h1 (fls[n := ys]) {}"
    by (rule init_cache_ok[OF Suc.prems(1) n _ h1(1)])
  have "\<exists>h'. init_caches [Suc n..<8] h1 = Inr h'"
    by (rule Suc.hyps(1)[OF _ ys]) (use Suc.hyps(2) Suc.prems(3,4) h1(2) n in auto)
  with h1(1) show ?case unfolding upt by simp
qed

lemma heap_init_total:
  assumes "mach_ok h" "length (caches h) = 8" "\<forall>c \<in> set (caches h). free_list c = 0"
    and "64 \<le> card (free_set (frames (mach h)))"
  shows "\<exists>h'. heap_init h = Inr h'"
proof -
  have "heap_inv_upto 0 h (replicate 8 []) {}"
    using assms(1-3) by (auto simp: heap_inv_upto_def free_blocks_def)
  then show ?thesis
    using assms(4) unfolding heap_init_def by (intro init_caches_total[of 0 h "replicate 8 []"]) simp_all
qed

lemma large_pages_unat: "unat (large_pages sz) = (unat sz + 4103) mod 4294967296 div 4096"
proof -
  have "sz + 8 + PAGE_SIZE - 1 = sz + 4103" by (simp add: PAGE_SIZE_def)
  then have "large_pages sz = (sz + 4103) div 4096" by (simp only: large_pages_def Let_def) (simp add: PAGE_SIZE_def)
  then show ?thesis by (simp add: unat_div unat_word_ariths)
qed

section \<open>A concrete heap\<close>

text \<open>No free frames, one object left in the smallest cache and one in the largest.\<close>

definition sample_heap :: heap where
  "sample_heap = \<lparr>mach = \<lparr>kmem = (\<lambda>_. 0), frames = \<lparr>bitmap = (\<lambda>_. 0xFFFFFFFF), total_frames = 0, free_frames = 0, last_alloc = 0\<rparr>,
      kernel_pd = 0xC0102000, cr3 = 0x102000, flushed = []\<rparr>,
    caches = map (\<lambda>s. \<lparr>free_list = (if s = 8 then 0xD0000000 else if s = 1024 then 0xD0000400 else 0), obj_size = s, total = 1, used = 0\<rparr>) SLAB_SIZES,
    heap_cursor = 0xD0001000\<rparr>"

definition sample_fls :: "u32 list list" where
  "sample_fls = [[0xD0000000], [], [], [], [], [], [], [0xD0000400]]"

lemma sample_heap_inv: "heap_inv sample_heap sample_fls {}"
proof -
  have ones: "bit (0xFFFFFFFF :: u32) k" if "k < 32" for k
  proof -
    have "(0xFFFFFFFF :: u32) = mask 32" by (simp add: mask_eq_exp_minus_1)
    with that show ?thesis by (simp only: bit_mask_iff) simp
  qed
  have none: "free_set (frames (mach sample_heap)) = {}"
    using ones unat_mod_32 by (auto simp: free_set_def frame_test_bit sample_heap_def)
  have tab: "\<not> has_table (mach sample_heap) pd i" for pd i
    by (simp add: has_table_def pde_def sample_heap_def load_zero)
  have "mach_ok sample_heap"
    using none tab
    by (simp add: mach_ok_def Let_def pd_ok_def pmm_inv_def)
      (simp add: sample_heap_def page_def frame_of_def HEAP_VIRT_BASE_def)
  moreover have "free_blocks sample_fls = {(0xD0000000, 8), (0xD0000400, 1024)}"
    by (auto simp: free_blocks_def sample_fls_def SLAB_SIZES_def lessThan_nat_numeral lessThan_Suc numeral_eq_Suc)
  moreover have "chain (hmem sample_heap) (free_list (caches sample_heap ! i)) (sample_fls ! i) \<and> distinct (sample_fls ! i)"
    if "i < 8" for i
    using less_8_cases[OF that] by (auto simp: sample_heap_def sample_fls_def SLAB_SIZES_def load_zero)
  moreover have "obj_size (caches sample_heap ! i) = SLAB_SIZES ! i" if "i < 8" for i
    using less_8_cases[OF that] by (auto simp: sample_heap_def SLAB_SIZES_def)
  ultimately show ?thesis
    by (simp add: heap_inv_upto_def pairwise_def in_heap_def)
      (simp add: sample_heap_def sample_fls_def SLAB_SIZES_def HEAP_VIRT_BASE_def)
qed

text \<open>\<^verbatim>\<open>heap_init\<close> returns whenever 64 frames are free, and establishes the heap invariant: the eight free
  lists are chained through memory and all their objects lie in the heap and do not overlap.\<close>

lemma heap_init_establishes:
  assumes "mach_ok h" "length (caches h) = 8" "\<forall>c \<in> set (caches h). free_list c = 0"
  shows "case heap_init h of Inl e \<Rightarrow> card (free_set (frames (mach h))) < 64 | Inr h' \<Rightarrow> \<exists>fls. heap_inv h' fls {}"
  using heap_init_ok[OF assms] heap_init_total[OF assms] by (cases "heap_init h") (auto simp: not_less [symmetric])

section \<open>Properties\<close>

text \<open>C7: A small request is served safely. Under the heap invariant \<^verbatim>\<open>k_malloc\<close> of 1 to 1024 bytes returns,
  unless fewer than eight frames are free, a zeroed block of at least the requested size that does not
  overlap any live or free block, leaves the contents of every live block alone and keeps the
  invariant.\<close>

theorem k_malloc_safe:
  assumes "heap_inv h fls L" "0 < sz" "sz \<le> 1024"
  shows "case k_malloc h sz of
      Inl e \<Rightarrow> card (free_set (frames (mach h))) < 8
    | Inr (p, h') \<Rightarrow> \<exists>fls' s. sz \<le> s \<and> heap_inv h' fls' (insert (p, s) L) \<and> (p, s) \<notin> L
        \<and> (\<forall>i < unat s. hmem h' (p + of_nat i) = 0)
        \<and> (\<forall>(a, t) \<in> L. apart (p, s) (a, t) \<and> (\<forall>i < unat t. hmem h' (a + of_nat i) = hmem h (a + of_nat i)))"
proof (cases "k_malloc h sz")
  case (Inl e)
  then obtain i where "refill h i = Inl e"
  proof -
    have "find_cache (caches h) sz \<noteq> None" by (rule find_cache_small[OF assms(1,3)])
    with Inl assms(2) that show ?thesis by (auto simp: k_malloc_def rbind_Inl_iff split: if_splits)
  qed
  with refill_total[OF heap_invD(1)[OF assms(1)], of i] Inl show ?thesis by (auto simp: not_le [symmetric])
next
  case (Inr r)
  obtain p h' where r: "r = (p, h')" by (cases r)
  obtain fls' s where k: "sz \<le> s" "heap_inv h' fls' (insert (p, s) L)" "(p, s) \<notin> L"
    "\<And>i. i < unat s \<Longrightarrow> hmem h' (p + of_nat i) = 0"
    "\<And>a t i. (a, t) \<in> L \<Longrightarrow> i < unat t \<Longrightarrow> hmem h' (a + of_nat i) = hmem h (a + of_nat i)"
    using k_malloc_slab[OF assms Inr[unfolded r]] by metis
  have "apart (p, s) (a, t)" if "(a, t) \<in> L" for a t
    using that k(3) by (intro heap_blocks_apart[OF k(2)]) auto
  with k have "sz \<le> s \<and> heap_inv h' fls' (insert (p, s) L) \<and> (p, s) \<notin> L
        \<and> (\<forall>i < unat s. hmem h' (p + of_nat i) = 0)
        \<and> (\<forall>(a, t) \<in> L. apart (p, s) (a, t) \<and> (\<forall>i < unat t. hmem h' (a + of_nat i) = hmem h (a + of_nat i)))"
    by blast
  then have "\<exists>fls' s. sz \<le> s \<and> heap_inv h' fls' (insert (p, s) L) \<and> (p, s) \<notin> L
        \<and> (\<forall>i < unat s. hmem h' (p + of_nat i) = 0)
        \<and> (\<forall>(a, t) \<in> L. apart (p, s) (a, t) \<and> (\<forall>i < unat t. hmem h' (a + of_nat i) = hmem h (a + of_nat i)))"
    by blast
  then show ?thesis by (simp only: Inr r sum.case prod.case)
qed

lemma sample_malloc: "(case k_malloc sample_heap 8 of Inl e \<Rightarrow> 0 | Inr (p, h) \<Rightarrow> p) = 0xD0000000"
  by (simp add: k_malloc_def sample_heap_def SLAB_SIZES_def pop_obj_def Let_def)

theorem k_malloc_safe_witness:
  "\<exists>h'. k_malloc sample_heap 8 = Inr (0xD0000000, h') \<and> (\<exists>fls' s. heap_inv h' fls' {(0xD0000000, s)})"
  using k_malloc_safe[OF sample_heap_inv, of 8] sample_malloc
  by (cases "k_malloc sample_heap 8") auto


lemma sample_live:
  "heap_inv (snd (pop_obj sample_heap 7)) (sample_fls[7 := []]) {(0xD0000400, 1024)}"
  using pop_obj_ok(2)[OF sample_heap_inv, of 7 "0xD0000400" "[]"] by (simp add: sample_fls_def SLAB_SIZES_def)


text \<open>The page count of a large allocation covers the request and its header exactly when the request
  is at most \<open>0xFFFFEFF8\<close> bytes; above that the 32-bit sums wrap and at most one page is allocated.\<close>

theorem large_pages_cover:
  "(unat sz + 8 \<le> unat (large_pages sz) * 4096 \<longleftrightarrow> sz \<le> 0xFFFFEFF8)
   \<and> (large_pages sz \<le> 1 \<or> sz \<le> 0xFFFFEFF8)"
proof (cases "sz \<le> 0xFFFFEFF8")
  case True
  then have "unat sz + 4103 < 4294967296" by (simp add: word_le_nat_alt)
  then have "unat (large_pages sz) = (unat sz + 8 + 4096 - 1) div 4096" by (simp add: large_pages_unat)
  with round_up_bounds(1)[of 4096 "unat sz + 8"] True show ?thesis by simp
next
  case False
  then have "4294963193 \<le> unat sz" by (simp add: word_le_nat_alt)
  moreover have "(unat sz + 4103) mod 4294967296 = unat sz + 4103 - 4294967296"
    using calculation u32_bound[of sz] by (subst le_mod_geq) auto
  ultimately have "unat (large_pages sz) \<le> 1" using u32_bound[of sz] by (simp add: large_pages_unat)
  with False \<open>4294963193 \<le> unat sz\<close> show ?thesis by (auto simp: word_le_nat_alt)
qed

end
