(* ===== verification/Vfs.thy ===== *)
theory Vfs
  imports Ledger
begin

text \<open>
  The virtual file system of \<^verbatim>\<open>kernel/vfs.c\<close>: reads and writes are routed to the driver function of
  the node and logged in the event queue of the ledger. Nodes are reached by their address, a driver
  function is a code address (zero for a null pointer), and what the code at an address does is the
  parameter \<open>rw\<close> (for \<^verbatim>\<open>read\<close> and \<^verbatim>\<open>write\<close>) or \<open>ev\<close> (for \<^verbatim>\<open>open\<close> and \<^verbatim>\<open>close\<close>): drivers may change any part
  of the state.
\<close>

section \<open>State and operations\<close>

definition VFS_NAME_LEN :: nat where "VFS_NAME_LEN = 64"

datatype VFS_NodeType = FS_FILE | FS_DIRECTORY | FS_CHARDEVICE | FS_BLOCKDEVICE | FS_PIPE | FS_MOUNTPOINT

record VFS_Node =
  node_name :: "u8 list"
  node_inode :: u32
  node_size :: u32
  node_uid :: u32
  node_gid :: u32
  node_permissions :: u32
  node_type :: VFS_NodeType
  node_read :: u32
  node_write :: u32
  node_open :: u32
  node_close :: u32
  node_ptr :: u32

record vfs =
  fs_root :: u32
  nodes :: "u32 \<Rightarrow> VFS_Node"
  buffers :: mem
  led :: ledger

type_synonym rw_code = "u32 \<Rightarrow> u32 \<Rightarrow> u32 \<Rightarrow> u32 \<Rightarrow> u32 \<Rightarrow> vfs \<Rightarrow> u32 \<times> vfs"
type_synonym ev_code = "u32 \<Rightarrow> u32 \<Rightarrow> vfs \<Rightarrow> vfs"


definition vfs_init :: "vfs \<Rightarrow> vfs" where
  "vfs_init s = s\<lparr>fs_root := 0\<rparr>"

text \<open>The event of an access; the fields the source leaves zero, the time stamp among them, stay zero.\<close>

definition vfs_event :: "u8 \<Rightarrow> VFS_Node \<Rightarrow> LedgerEvent" where
  "vfs_event action node =
     zero_event\<lparr>ev_action_type := action, ev_stream_id := LEDGER_STREAM_KERNEL, ev_vfs_node_id := node_inode node,
       ev_target := strncpy_into (ev_target zero_event) (chars (node_name node)) (LEDGER_TARGET_LEN - 1)\<rparr>"

definition push_event :: "LedgerEvent \<Rightarrow> vfs \<Rightarrow> vfs" where
  "push_event e s = s\<lparr>led := (led s)\<lparr>lq := snd (ledger_queue_push (lq (led s)) e)\<rparr>\<rparr>"

definition vfs_read :: "rw_code \<Rightarrow> u32 \<Rightarrow> u32 \<Rightarrow> u32 \<Rightarrow> u32 \<Rightarrow> vfs \<Rightarrow> u32 \<times> vfs" where
  "vfs_read rw node offset sz buffer s =
     (if node \<noteq> 0 \<and> node_read (nodes s node) \<noteq> 0 then
        let (ret, s) = rw (node_read (nodes s node)) node offset sz buffer s
        in (ret, push_event (vfs_event LEDGER_ACTION_VFS_READ (nodes s node)) s)
      else (0, s))"

definition vfs_write :: "rw_code \<Rightarrow> u32 \<Rightarrow> u32 \<Rightarrow> u32 \<Rightarrow> u32 \<Rightarrow> vfs \<Rightarrow> u32 \<times> vfs" where
  "vfs_write rw node offset sz buffer s =
     (if node \<noteq> 0 \<and> node_write (nodes s node) \<noteq> 0 then
        let (ret, s) = rw (node_write (nodes s node)) node offset sz buffer s
        in (ret, push_event (vfs_event LEDGER_ACTION_VFS_WRITE (nodes s node)) s)
      else (0, s))"

definition vfs_open :: "ev_code \<Rightarrow> u32 \<Rightarrow> vfs \<Rightarrow> vfs" where
  "vfs_open ev node s = (if node \<noteq> 0 \<and> node_open (nodes s node) \<noteq> 0 then ev (node_open (nodes s node)) node s else s)"

definition vfs_close :: "ev_code \<Rightarrow> u32 \<Rightarrow> vfs \<Rightarrow> vfs" where
  "vfs_close ev node s = (if node \<noteq> 0 \<and> node_close (nodes s node) \<noteq> 0 then ev (node_close (nodes s node)) node s else s)"

section \<open>What an access leaves in the ledger\<close>

lemma strncpy_chars:
  "length buf = 64 \<Longrightarrow> chars (strncpy_into (replicate 64 0) (chars buf) 63) = take 63 (chars buf)"
proof -
  have nz: "c \<noteq> 0" if "c \<in> set (take 63 (chars buf))" for c
    using that by (auto simp: chars_def dest!: in_set_takeD set_takeWhileD)
  have "chars (take 63 (chars buf) @ replicate k 0 @ [0]) = take 63 (chars buf)" for k
    unfolding chars_def[of "_ @ _"] using nz takeWhile_append2[of "take 63 (chars buf)" "\<lambda>c. c \<noteq> 0"] by (cases k) simp_all
  then show ?thesis by (simp add: strncpy_into_def)
qed

lemma event_record_vfs:
  assumes "length (node_name nd) = 64"
  shows "event_record (vfs_event a nd) =
    (a, LEDGER_STREAM_KERNEL, 0, strncpy_into (replicate 64 0) (take 63 (chars (node_name nd))) 63)"
  using assms strncpy_chars[of "node_name nd"]
  by (simp add: event_record_def vfs_event_def zero_event_def LEDGER_TARGET_LEN_def)

text \<open>Pushing one event and flushing: the event becomes the last block.\<close>

lemma push_then_flush:
  assumes "chain_inv L" "unat (ledger_count L) + length (contents (lq L)) < 4096" "length (contents (lq L)) < 1023"
  shows "\<exists>L'. ledger_flush_task (L\<lparr>lq := snd (ledger_queue_push (lq L) e)\<rparr>) = Some L' \<and> ledger_verify_chain L'
    \<and> unat (ledger_count L') = unat (ledger_count L) + length (contents (lq L)) + 1
    \<and> recorded (ledger_blocks L' (ledger_count L' - 1)) = event_record e"
proof -
  obtain b q where p: "ledger_queue_push (lq L) e = (b, q)" by fastforce
  have qi: "queue_inv (lq L)" using assms(1) by (simp add: chain_inv_def)
  have c: "contents q = contents (lq L) @ [e]" "queue_inv q"
    using push_ok[OF qi p] assms(3) by simp_all
  let ?L = "L\<lparr>lq := q\<rparr>" and ?n = "unat (ledger_count L) + length (contents (lq L))"
  have inv: "chain_inv ?L" using assms(1) c(2) by (simp add: chain_inv_def verify_chain_iff verify_block_def)
  obtain L' where L': "ledger_flush_task ?L = Some L'" "chain_inv L'" "unat (ledger_count L') = ?n + 1"
     "map (\<lambda>k. recorded (ledger_blocks L' (of_nat k))) [unat (ledger_count L)..<unat (ledger_count L')] =
        map event_record (contents (lq L) @ [e])"
    using flush_ok[OF inv] assms(2) c(1) by auto
  have "last (map (\<lambda>k. recorded (ledger_blocks L' (of_nat k))) [unat (ledger_count L)..<?n + 1]) = event_record e"
    using L'(4) L'(3) by simp
  then have "recorded (ledger_blocks L' (of_nat ?n)) = event_record e" by simp
  moreover have "of_nat ?n = ledger_count L' - 1"
  proof -
    have "ledger_count L' = of_nat (unat (ledger_count L'))" by simp
    then have "ledger_count L' = of_nat (?n + 1)" unfolding L'(3) .
    then show ?thesis by simp
  qed
  ultimately show ?thesis using L' p by (auto simp: chain_inv_def)
qed

section \<open>Properties\<close>


definition sample_node :: VFS_Node where
  "sample_node = \<lparr>node_name = bytes_of ''motd'' @ replicate 60 0, node_inode = 7, node_size = 0, node_uid = 0, node_gid = 0,
     node_permissions = 0, node_type = FS_FILE, node_read = 1, node_write = 0, node_open = 0, node_close = 0, node_ptr = 0\<rparr>"

definition sample_vfs :: vfs where
  "sample_vfs = \<lparr>fs_root = 0, nodes = (\<lambda>_. sample_node), buffers = (\<lambda>_. 0), led = ledger_init blank_ledger\<rparr>"


end
