(* ===== verification/Input.thy ===== *)
theory Input
  imports Idt
begin

text \<open>
  The input drivers \<^verbatim>\<open>drivers/input/keyboard.c\<close> and \<^verbatim>\<open>drivers/input/mouse.c\<close> on the port accesses and the
  handler table of the interrupt code. The waiting loop of the mouse driver gives up after 100000 polls.
\<close>

section \<open>Operations\<close>

definition PS2_DATA_PORT :: u16 where "PS2_DATA_PORT = 0x60"
definition PS2_CMD_PORT :: u16 where "PS2_CMD_PORT = 0x64"

lemmas ps2_consts = PS2_DATA_PORT_def PS2_CMD_PORT_def

definition keyboard_callback :: "device \<Rightarrow> 'a idt_state_scheme \<Rightarrow> 'a idt_state_scheme" where
  "keyboard_callback dev s =
     (let (scancode, tr) = inb dev PS2_DATA_PORT (ports s) in s\<lparr>ports := pic_send_eoi 1 tr\<rparr>)"

definition keyboard_install :: "u32 \<Rightarrow> 'a idt_state_scheme \<Rightarrow> 'a idt_state_scheme" where
  "keyboard_install callback s = irq_register 1 callback s"

text \<open>\<^verbatim>\<open>while (timeout--)\<close>: at most as many reads of the status as the counter says.\<close>

primrec mouse_poll :: "device \<Rightarrow> (u8 \<Rightarrow> bool) \<Rightarrow> nat \<Rightarrow> trace \<Rightarrow> trace" where
  "mouse_poll dev ready 0 tr = tr"
| "mouse_poll dev ready (Suc timeout) tr =
     (let (v, tr) = inb dev PS2_CMD_PORT tr in if ready v then tr else mouse_poll dev ready timeout tr)"

definition mouse_wait :: "device \<Rightarrow> u8 \<Rightarrow> trace \<Rightarrow> trace" where
  "mouse_wait dev a_type tr =
     (if a_type = 0 then mouse_poll dev (\<lambda>v. v AND 1 = 1) 100000 tr
      else mouse_poll dev (\<lambda>v. v AND 2 = 0) 100000 tr)"

definition mouse_write :: "device \<Rightarrow> u8 \<Rightarrow> trace \<Rightarrow> trace" where
  "mouse_write dev w tr =
     (let tr = mouse_wait dev 1 tr;
          tr = outb PS2_CMD_PORT 0xD4 tr;
          tr = mouse_wait dev 1 tr
      in outb PS2_DATA_PORT w tr)"

definition mouse_callback :: "device \<Rightarrow> 'a idt_state_scheme \<Rightarrow> 'a idt_state_scheme" where
  "mouse_callback dev s =
     (let (status, tr) = inb dev PS2_CMD_PORT (ports s);
          tr = (if status AND 0x01 \<noteq> 0 then snd (inb dev PS2_DATA_PORT tr) else tr)
      in s\<lparr>ports := pic_send_eoi 12 tr\<rparr>)"

definition mouse_install :: "device \<Rightarrow> u32 \<Rightarrow> 'a idt_state_scheme \<Rightarrow> 'a idt_state_scheme" where
  "mouse_install dev callback s =
     (let tr = mouse_wait dev 1 (ports s);
          tr = outb PS2_CMD_PORT 0xA8 tr;
          tr = mouse_wait dev 1 tr;
          tr = outb PS2_CMD_PORT 0x20 tr;
          (v, tr) = inb dev PS2_DATA_PORT tr;
          status = v OR 2;
          tr = mouse_wait dev 1 tr;
          tr = outb PS2_CMD_PORT 0x60 tr;
          tr = mouse_wait dev 1 tr;
          tr = outb PS2_DATA_PORT status tr;
          tr = mouse_write dev 0xF6 tr;
          tr = mouse_write dev 0xF4 tr
      in irq_register 12 callback (s\<lparr>ports := tr\<rparr>))"

section \<open>Bounded waiting\<close>

lemma sent_inb [simp]: "sent p (snd (inb dev q tr)) = sent p tr"
  by (simp add: inb_def Let_def)

lemma length_inb [simp]: "length (snd (inb dev q tr)) = Suc (length tr)"
  by (simp add: inb_def Let_def)

lemma sent_outb [simp]: "sent p (outb q v tr) = sent p tr @ (if q = p then [v] else [])"
  by (simp add: outb_def)

lemma length_outb [simp]: "length (outb q v tr) = Suc (length tr)"
  by (simp add: outb_def)

lemma mouse_poll_sent: "sent p (mouse_poll dev ready n tr) = sent p tr"
  by (induction n arbitrary: tr) (auto simp: inb_def Let_def)

lemma mouse_poll_length: "length (mouse_poll dev ready n tr) \<le> length tr + n"
proof (induction n arbitrary: tr)
  case (Suc n)
  from Suc.IH[of "snd (inb dev PS2_CMD_PORT tr)"] show ?case by (auto simp: split_beta)
qed simp

lemma mouse_wait_sent [simp]: "sent p (mouse_wait dev a tr) = sent p tr"
  by (simp add: mouse_wait_def mouse_poll_sent)

lemma mouse_wait_length: "length (mouse_wait dev a tr) \<le> length tr + 100000"
  by (simp add: mouse_wait_def mouse_poll_length)

lemma mouse_write_sent:
  "sent p (mouse_write dev w tr) = sent p tr @ (if p = PS2_CMD_PORT then [0xD4] else []) @ (if p = PS2_DATA_PORT then [w] else [])"
  by (auto simp: mouse_write_def Let_def ps2_consts)

lemma mouse_write_length: "length (mouse_write dev w tr) \<le> length tr + 200002"
  using mouse_wait_length[of dev 1 tr] mouse_wait_length[of dev 1 "outb PS2_CMD_PORT 0xD4 (mouse_wait dev 1 tr)"]
  by (simp add: mouse_write_def Let_def)

text \<open>The initialisation sends its commands in order whatever the device answers and gives up waiting:
  at most eight waits of 100000 polls each.\<close>

lemma mouse_install_commands:
  "\<exists>v. sent PS2_CMD_PORT (ports (mouse_install dev cb s)) = sent PS2_CMD_PORT (ports s) @ [0xA8, 0x20, 0x60, 0xD4, 0xD4]
    \<and> sent PS2_DATA_PORT (ports (mouse_install dev cb s)) = sent PS2_DATA_PORT (ports s) @ [v OR 2, 0xF6, 0xF4]"
  by (auto simp: mouse_install_def irq_register_def Let_def split_beta mouse_write_sent ps2_consts)

lemma mouse_install_bounded: "length (ports (mouse_install dev cb s)) \<le> length (ports s) + 800009"
proof -
  define t1 where "t1 = outb PS2_CMD_PORT 0xA8 (mouse_wait dev 1 (ports s))"
  define t2 where "t2 = snd (inb dev PS2_DATA_PORT (outb PS2_CMD_PORT 0x20 (mouse_wait dev 1 t1)))"
  define t3 where "t3 = outb PS2_CMD_PORT 0x60 (mouse_wait dev 1 t2)"
  obtain v where "ports (mouse_install dev cb s) = mouse_write dev 0xF4 (mouse_write dev 0xF6 (outb PS2_DATA_PORT v (mouse_wait dev 1 t3)))"
    by (simp add: mouse_install_def Let_def split_beta irq_register_def t1_def t2_def t3_def)
  moreover have "length t1 \<le> length (ports s) + 100001" "length t2 \<le> length t1 + 100002" "length t3 \<le> length t2 + 100001"
    using mouse_wait_length[of dev 1 "ports s"] mouse_wait_length[of dev 1 t1] mouse_wait_length[of dev 1 t2]
    unfolding t1_def t2_def t3_def by simp_all
  ultimately show ?thesis
    using mouse_wait_length[of dev 1 t3] mouse_write_length[of dev "0xF6" "outb PS2_DATA_PORT v (mouse_wait dev 1 t3)"]
      mouse_write_length[of dev "0xF4" "mouse_write dev 0xF6 (outb PS2_DATA_PORT v (mouse_wait dev 1 t3))"] by simp
qed

section \<open>Properties\<close>

text \<open>What the code at the registered addresses does: the two callbacks.\<close>

definition input_call :: "device \<Rightarrow> u32 \<Rightarrow> u32 \<Rightarrow> u32 \<Rightarrow> CPU_Regs \<Rightarrow> 'a idt_state_scheme \<Rightarrow> 'a idt_state_scheme result" where
  "input_call dev kb ms h regs s =
     (if h = kb then Inr (keyboard_callback dev s) else if h = ms then Inr (mouse_callback dev s) else Inr s)"

text \<open>Every input interrupt is acknowledged twice. The callbacks send the end of interrupt themselves and
  \<^verbatim>\<open>irq_handler\<close> sends it again: one keyboard interrupt writes the command to the first controller twice, one
  mouse interrupt writes it twice to each controller, so the second one ends whatever other interrupt is in
  service.\<close>

theorem input_acknowledged_twice:
  assumes "length (irq_handlers s) = 16" "kb \<noteq> 0" "ms \<noteq> 0" "kb \<noteq> ms"
  shows "(r_int_no regs = 33 \<longrightarrow> irq_handlers s ! 1 = kb \<longrightarrow>
      (\<exists>s'. irq_handler (input_call dev kb ms) regs s = Inr s' \<and>
         sent PIC1_CMD (ports s') = sent PIC1_CMD (ports s) @ [PIC_EOI, PIC_EOI] \<and> sent PIC2_CMD (ports s') = sent PIC2_CMD (ports s)))
    \<and> (r_int_no regs = 44 \<longrightarrow> irq_handlers s ! 12 = ms \<longrightarrow>
      (\<exists>s'. irq_handler (input_call dev kb ms) regs s = Inr s' \<and>
         sent PIC1_CMD (ports s') = sent PIC1_CMD (ports s) @ [PIC_EOI, PIC_EOI]
         \<and> sent PIC2_CMD (ports s') = sent PIC2_CMD (ports s) @ [PIC_EOI, PIC_EOI]))"
proof -
  have n: "\<not> (8 :: u8) \<le> 1" by (simp add: word_le_nat_alt)
  show ?thesis using assms n
    by (auto simp: irq_handler_def input_call_def Let_def keyboard_callback_def mouse_callback_def pic_send_eoi_def
        pic_consts split_beta)
qed

definition sample_irqs :: idt_state where
  "sample_irqs = keyboard_install 0x1000 \<lparr>idt = (\<lambda>_. make_gate 0 0 0), idt_ptr = \<lparr>ip_limit = 0, ip_base = 0\<rparr>,
     irq_handlers = replicate 16 0, reg_idtr = \<lparr>ip_limit = 0, ip_base = 0\<rparr>, ports = []\<rparr>"

theorem input_acknowledged_twice_witness:
  "\<exists>s'. irq_handler (input_call (\<lambda>_ _. 0x1E) 0x1000 0x2000) (as_regs ((replicate 15 0)[8 := 33])) sample_irqs = Inr s'
     \<and> sent PIC1_CMD (ports s') = [PIC_EOI, PIC_EOI]"
proof -
  have "length (irq_handlers sample_irqs) = 16" "irq_handlers sample_irqs ! 1 = 0x1000" "ports sample_irqs = []"
    by (simp_all add: sample_irqs_def keyboard_install_def irq_register_def)
  with input_acknowledged_twice[of sample_irqs "0x1000" "0x2000" "as_regs ((replicate 15 0)[8 := 33])"]
  show ?thesis by (auto simp: as_regs_def)
qed

end
