(* ===== verification/Boot.thy ===== *)
theory Boot
  imports Pmm Mem_Words
begin

text \<open>
  The boot loader's information, \<^verbatim>\<open>kernel/multiboot2.h\<close> and \<^verbatim>\<open>parse_multiboot2\<close> of \<^verbatim>\<open>kernel/main.c\<close>: a walk
  over tags in memory that picks up the framebuffer and the memory map. The walk need not end (a tag of
  size zero is its own successor), so it is a partial function; on a chain of tags that ends it is shown to
  return exactly what the tags say.
\<close>

section \<open>State and operations\<close>

definition MULTIBOOT2_MAGIC :: u32 where "MULTIBOOT2_MAGIC = 0x36D76289"

definition MB2_TAG_END :: u32 where "MB2_TAG_END = 0"
definition MB2_TAG_MMAP :: u32 where "MB2_TAG_MMAP = 6"
definition MB2_TAG_FRAMEBUFFER :: u32 where "MB2_TAG_FRAMEBUFFER = 8"

definition KERNEL_VIRT_BASE :: u32 where "KERNEL_VIRT_BASE = 0xC0000000"

definition MAX_MMAP_ENTRIES :: u32 where "MAX_MMAP_ENTRIES = 64"

lemmas mb2_consts = MB2_TAG_END_def MB2_TAG_MMAP_def MB2_TAG_FRAMEBUFFER_def MAX_MMAP_ENTRIES_def

text \<open>The statics of \<^verbatim>\<open>kernel/main.c\<close>.\<close>

record boot_info =
  fb_addr :: u32
  fb_pitch :: u32
  fb_width :: u32
  fb_height :: u32
  fb_bpp :: u8
  mmap_entries :: "MB2_MmapEntry list"
  mmap_count :: u32
  mem_total :: u64

text \<open>The fields of a tag header, and the address of the next tag.\<close>

definition tag_type :: "mem \<Rightarrow> u32 \<Rightarrow> u32" where
  "tag_type m tag = load_u32 m tag"

definition tag_size :: "mem \<Rightarrow> u32 \<Rightarrow> u32" where
  "tag_size m tag = load_u32 m (tag + 4)"

definition MB2_FIRST_TAG :: "u32 \<Rightarrow> u32" where
  "MB2_FIRST_TAG info = info + 8"

definition MB2_NEXT_TAG :: "mem \<Rightarrow> u32 \<Rightarrow> u32" where
  "MB2_NEXT_TAG m tag = (tag + tag_size m tag + 7) AND NOT 7"

text \<open>The fields of \<^verbatim>\<open>MB2_TagFramebuffer\<close>.\<close>

definition read_framebuffer :: "mem \<Rightarrow> u32 \<Rightarrow> boot_info \<Rightarrow> boot_info" where
  "read_framebuffer m fb s =
     s\<lparr>fb_addr := ucast (load_u64 m (fb + 8)),
       fb_pitch := load_u32 m (fb + 16),
       fb_width := load_u32 m (fb + 20),
       fb_height := load_u32 m (fb + 24),
       fb_bpp := m (fb + 28)\<rparr>"

definition read_entry :: "mem \<Rightarrow> u32 \<Rightarrow> MB2_MmapEntry" where
  "read_entry m p = \<lparr>base_addr = load_u64 m p, len = load_u64 m (p + 8), mtype = load_u32 m (p + 16),
     reserved = load_u32 m (p + 20)\<rparr>"

definition add_entry :: "MB2_MmapEntry \<Rightarrow> boot_info \<Rightarrow> boot_info" where
  "add_entry e s =
     (let s = s\<lparr>mmap_entries := (mmap_entries s)[unat (mmap_count s) := e], mmap_count := mmap_count s + 1\<rparr>
      in if mtype e = MB2_MMAP_AVAILABLE then s\<lparr>mem_total := mem_total s + len e\<rparr> else s)"

text \<open>The loop over the entries of a memory map tag, \<open>i\<close> the next one.\<close>

function mmap_loop :: "mem \<Rightarrow> u32 \<Rightarrow> u32 \<Rightarrow> u32 \<Rightarrow> boot_info \<Rightarrow> boot_info" where
  "mmap_loop m ent num i s =
     (if i < num \<and> mmap_count s < MAX_MMAP_ENTRIES
      then mmap_loop m ent num (i + 1) (add_entry (read_entry m (ent + i * 24)) s)
      else s)"
  by pat_completeness auto
termination
  by (relation "measure (\<lambda>(m, ent, num, i, s). unat num - unat i)") (simp_all add: count_up_decreases)

definition read_mmap :: "mem \<Rightarrow> u32 \<Rightarrow> boot_info \<Rightarrow> boot_info result" where
  "read_mmap m mmap s =
     (let entry_size = load_u32 m (mmap + 8) in
      if entry_size = 0 then Inl DivideByZero
      else
        let num = (tag_size m mmap - 16) div entry_size
        in Inr (mmap_loop m (mmap + 16) num 0 s))"

definition handle_tag :: "mem \<Rightarrow> u32 \<Rightarrow> boot_info \<Rightarrow> boot_info result" where
  "handle_tag m tag s =
     (if tag_type m tag = MB2_TAG_FRAMEBUFFER then Inr (read_framebuffer m tag s)
      else if tag_type m tag = MB2_TAG_MMAP then read_mmap m tag s
      else Inr s)"

partial_function (option) tag_loop :: "mem \<Rightarrow> u32 \<Rightarrow> boot_info \<Rightarrow> boot_info result option" where
  [code]: "tag_loop m tag s =
     (if tag_type m tag = MB2_TAG_END then Some (Inr s)
      else (case handle_tag m tag s of
              Inl e \<Rightarrow> Some (Inl e)
            | Inr s \<Rightarrow> tag_loop m (MB2_NEXT_TAG m tag) s))"

definition parse_multiboot2 :: "mem \<Rightarrow> u32 \<Rightarrow> boot_info \<Rightarrow> boot_info result option" where
  "parse_multiboot2 m mb2_phys_addr s =
     (let info = mb2_phys_addr + KERNEL_VIRT_BASE; tag = MB2_FIRST_TAG info in tag_loop m tag s)"

declare mmap_loop.simps [simp del]

section \<open>The memory map of a tag\<close>

text \<open>The entries a tag holds, and what the loop keeps of them: those that still fit into the table.\<close>

definition tag_entries :: "mem \<Rightarrow> u32 \<Rightarrow> MB2_MmapEntry list" where
  "tag_entries m tag =
     (if tag_type m tag = MB2_TAG_MMAP
      then map (\<lambda>i. read_entry m (tag + 16 + of_nat i * 24)) [0..<unat ((tag_size m tag - 16) div load_u32 m (tag + 8))]
      else [])"

definition known :: "boot_info \<Rightarrow> MB2_MmapEntry list" where
  "known s = take (unat (mmap_count s)) (mmap_entries s)"

definition available :: "MB2_MmapEntry list \<Rightarrow> u64" where
  "available es = sum_list (map len (filter (\<lambda>e. mtype e = MB2_MMAP_AVAILABLE) es))"

definition boot_ok :: "boot_info \<Rightarrow> bool" where
  "boot_ok s \<longleftrightarrow> length (mmap_entries s) = 64 \<and> mmap_count s \<le> 64 \<and> mem_total s = available (known s)"

lemma known_length: "boot_ok s \<Longrightarrow> length (known s) = unat (mmap_count s)"
  by (simp add: boot_ok_def known_def word_le_nat_alt min_def)

lemma available_append [simp]: "available (es @ fs) = available es + available fs"
  by (simp add: available_def)

text \<open>Everything but the table, its count and the total.\<close>

definition fb_part :: "boot_info \<Rightarrow> u32 \<times> u32 \<times> u32 \<times> u32 \<times> u8" where
  "fb_part s = (fb_addr s, fb_pitch s, fb_width s, fb_height s, fb_bpp s)"

lemma add_entry_ok:
  assumes "boot_ok s" "mmap_count s < 64"
  shows "boot_ok (add_entry e s) \<and> known (add_entry e s) = known s @ [e] \<and> fb_part (add_entry e s) = fb_part s"
proof -
  have c: "unat (mmap_count s) < 64" using assms(2) by (simp add: word_less_nat_alt)
  then have "unat (mmap_count s + 1) = Suc (unat (mmap_count s))" by (simp add: unat_word_ariths)
  moreover have "length (mmap_entries s) = 64" using assms(1) by (simp add: boot_ok_def)
  ultimately have k: "known (add_entry e s) = known s @ [e]" "unat (mmap_count (add_entry e s)) = Suc (unat (mmap_count s))"
    "length (mmap_entries (add_entry e s)) = 64"
    using c by (simp_all add: known_def add_entry_def Let_def take_Suc_conv_app_nth)
  moreover have "mem_total (add_entry e s) = available (known (add_entry e s))"
    using assms(1) unfolding k(1) by (simp add: add_entry_def Let_def boot_ok_def available_def)
  ultimately show ?thesis using c by (simp add: boot_ok_def word_le_nat_alt) (simp add: add_entry_def Let_def fb_part_def)
qed

lemma mmap_loop_spec:
  assumes "boot_ok s" "unat i \<le> unat num"
  shows "boot_ok (mmap_loop m ent num i s) \<and> fb_part (mmap_loop m ent num i s) = fb_part s
    \<and> known (mmap_loop m ent num i s) = take 64 (known s @ map (\<lambda>k. read_entry m (ent + of_nat k * 24)) [unat i..<unat num])"
  using assms
proof (induction m ent num i s rule: mmap_loop.induct)
  case (1 m ent num i s)
  let ?u = "add_entry (read_entry m (ent + i * 24)) s"
  have lk: "length (known s) = unat (mmap_count s)" by (rule known_length[OF "1.prems"(1)])
  show ?case
  proof (cases "i < num \<and> mmap_count s < MAX_MMAP_ENTRIES")
    case True
    then have c: "mmap_count s < 64" "unat i < unat num" by (simp_all add: mb2_consts word_less_nat_alt)
    note p = add_entry_ok[OF "1.prems"(1) c(1), of "read_entry m (ent + i * 24)"]
    have i: "unat (i + 1) = Suc (unat i)" using unat_inc[OF c(2)] by simp
    have "mmap_loop m ent num i s = mmap_loop m ent num (i + 1) ?u"
      using True by (simp add: mmap_loop.simps[of m ent num i s])
    moreover have "[unat i..<unat num] = unat i # [Suc (unat i)..<unat num]" using c(2) by (rule upt_conv_Cons)
    ultimately show ?thesis
      using "1.IH"[OF True] p i c(2) by simp
  next
    case False
    then have "mmap_loop m ent num i s = s" by (subst mmap_loop.simps) (rule if_not_P)
    moreover have "known s = take 64 (known s @ map (\<lambda>k. read_entry m (ent + of_nat k * 24)) [unat i..<unat num])"
      using False lk "1.prems" by (auto simp: mb2_consts boot_ok_def word_less_nat_alt word_le_nat_alt not_less)
    ultimately show ?thesis using "1.prems"(1) by simp
  qed
qed

section \<open>Walking a chain of tags\<close>

text \<open>The tags at the addresses \<open>ps\<close>, each the successor of the one before, and the end tag behind them.\<close>

primrec tag_chain :: "mem \<Rightarrow> u32 \<Rightarrow> u32 list \<Rightarrow> bool" where
  "tag_chain m p [] \<longleftrightarrow> tag_type m p = MB2_TAG_END"
| "tag_chain m p (q # qs) \<longleftrightarrow> q = p \<and> tag_type m p \<noteq> MB2_TAG_END \<and> tag_chain m (MB2_NEXT_TAG m p) qs"

definition tag_valid :: "mem \<Rightarrow> u32 \<Rightarrow> bool" where
  "tag_valid m q \<longleftrightarrow> (tag_type m q = MB2_TAG_MMAP \<longrightarrow> load_u32 m (q + 8) \<noteq> 0)"

text \<open>The framebuffer of the last framebuffer tag.\<close>

definition fb_fields :: "mem \<Rightarrow> u32 \<Rightarrow> u32 \<times> u32 \<times> u32 \<times> u32 \<times> u8" where
  "fb_fields m q = (ucast (load_u64 m (q + 8)), load_u32 m (q + 16), load_u32 m (q + 20), load_u32 m (q + 24), m (q + 28))"

definition last_fb :: "mem \<Rightarrow> u32 list \<Rightarrow> u32 \<times> u32 \<times> u32 \<times> u32 \<times> u8 \<Rightarrow> u32 \<times> u32 \<times> u32 \<times> u32 \<times> u8" where
  "last_fb m ps d = fold (\<lambda>q d. if tag_type m q = MB2_TAG_FRAMEBUFFER then fb_fields m q else d) ps d"

lemma read_fb_ok:
  "boot_ok s \<Longrightarrow> boot_ok (read_framebuffer m q s) \<and> known (read_framebuffer m q s) = known s
     \<and> fb_part (read_framebuffer m q s) = fb_fields m q"
  by (simp add: boot_ok_def known_def read_framebuffer_def fb_part_def fb_fields_def)

lemma take_take_append: "take n (take n xs @ ys) = take n (xs @ ys)"
  by (cases "length xs \<le> n") simp_all

lemma handle_tag_ok:
  assumes "boot_ok s" "tag_valid m q"
  shows "\<exists>s'. handle_tag m q s = Inr s' \<and> boot_ok s' \<and> known s' = take 64 (known s @ tag_entries m q)
    \<and> fb_part s' = last_fb m [q] (fb_part s)"
proof -
  have k: "take 64 (known s) = known s" using known_length[OF assms(1)] assms(1) by (simp add: boot_ok_def word_le_nat_alt)
  consider (fb) "tag_type m q = MB2_TAG_FRAMEBUFFER" | (mm) "tag_type m q = MB2_TAG_MMAP"
    | (other) "tag_type m q \<noteq> MB2_TAG_FRAMEBUFFER" "tag_type m q \<noteq> MB2_TAG_MMAP" by blast
  then show ?thesis
  proof cases
    case fb
    with read_fb_ok[OF assms(1)] k show ?thesis by (simp add: handle_tag_def tag_entries_def last_fb_def mb2_consts)
  next
    case mm
    let ?n = "(tag_size m q - 16) div load_u32 m (q + 8)"
    from mm assms(2) have "handle_tag m q s = Inr (mmap_loop m (q + 16) ?n 0 s)"
      by (simp add: handle_tag_def read_mmap_def tag_valid_def Let_def mb2_consts)
    moreover have "tag_entries m q = map (\<lambda>i. read_entry m (q + 16 + of_nat i * 24)) [0..<unat ?n]"
      using mm by (simp add: tag_entries_def)
    moreover have "last_fb m [q] (fb_part s) = fb_part s" using mm by (simp add: last_fb_def mb2_consts)
    ultimately show ?thesis using mmap_loop_spec[OF assms(1), of 0 ?n m "q + 16"] by simp
  next
    case other
    with assms k show ?thesis by (simp add: handle_tag_def tag_entries_def last_fb_def)
  qed
qed

lemma tag_loop_chain:
  assumes "boot_ok s" "tag_chain m p ps" "\<forall>q \<in> set ps. tag_valid m q"
  shows "\<exists>s'. tag_loop m p s = Some (Inr s') \<and> boot_ok s' \<and> known s' = take 64 (known s @ concat (map (tag_entries m) ps))
    \<and> fb_part s' = last_fb m ps (fb_part s)"
  using assms
proof (induction ps arbitrary: p s)
  case Nil
  then have "take 64 (known s) = known s" using known_length[of s] by (simp add: boot_ok_def word_le_nat_alt)
  with Nil show ?case by (simp add: tag_loop.simps[of m p] last_fb_def)
next
  case (Cons q ps)
  then have q: "q = p" "tag_type m p \<noteq> MB2_TAG_END" "tag_chain m (MB2_NEXT_TAG m p) ps" "tag_valid m p" by auto
  obtain s1 where s1: "handle_tag m p s = Inr s1" "boot_ok s1" "known s1 = take 64 (known s @ tag_entries m p)"
    "fb_part s1 = last_fb m [p] (fb_part s)" using handle_tag_ok[OF Cons.prems(1) q(4)] by blast
  obtain s' where s': "tag_loop m (MB2_NEXT_TAG m p) s1 = Some (Inr s')" "boot_ok s'"
    "known s' = take 64 (known s1 @ concat (map (tag_entries m) ps))" "fb_part s' = last_fb m ps (fb_part s1)"
    using Cons.IH[OF s1(2) q(3)] Cons.prems(3) by auto
  have "fb_part s' = last_fb m (q # ps) (fb_part s)" using s'(4) s1(4) by (simp add: last_fb_def q(1))
  moreover have "tag_loop m p s = Some (Inr s')" using q(2) s1(1) s'(1) by (simp add: tag_loop.simps[of m p])
  moreover have "known s' = take 64 (known s @ concat (map (tag_entries m) (q # ps)))"
    unfolding s'(3) s1(3) take_take_append q(1) by (simp only: append_assoc list.map concat.simps)
  ultimately show ?case using s'(2) by blast
qed

text \<open>A tag other than the end whose size is zero, at an aligned address, is its own successor.\<close>

lemma tag_loop_stuck:
  assumes "tag_loop m p s = Some r" "MB2_NEXT_TAG m p = p" "tag_type m p \<noteq> MB2_TAG_END" "tag_type m p \<noteq> MB2_TAG_MMAP"
  shows False
  using assms
proof (induction m p s r rule: tag_loop.raw_induct[rotated, consumes 1, case_names step])
  case (step f m p s r)
  have "\<exists>s'. handle_tag m p s = Inr s'" using step.prems by (simp add: handle_tag_def)
  then obtain s' where "handle_tag m p s = Inr s'" by blast
  with step.hyps step.prems(1,2) have "f m p s' = Some r" by simp
  from step.IH[OF this step.prems] show ?case .
qed

section \<open>Properties\<close>


text \<open>A map with one entry behind a framebuffer tag.\<close>

definition sample_boot_mem :: mem where
  "sample_boot_mem =
     store_bytes (\<lambda>_. 0) 0xC0001008
       (to_le 4 (8 :: u32) @ to_le 4 (32 :: u32) @ to_le 8 (0xFD000000 :: u64) @ to_le 4 (4096 :: u32) @ to_le 4 (1024 :: u32)
        @ to_le 4 (768 :: u32) @ [32, 1, 0, 0]
        @ to_le 4 (6 :: u32) @ to_le 4 (40 :: u32) @ to_le 4 (24 :: u32) @ to_le 4 (0 :: u32)
        @ to_le 8 (0x100000 :: u64) @ to_le 8 (0x2000000 :: u64) @ to_le 4 (1 :: u32) @ to_le 4 (0 :: u32))"

definition zero_boot :: boot_info where
  "zero_boot = \<lparr>fb_addr = 0, fb_pitch = 0, fb_width = 0, fb_height = 0, fb_bpp = 0,
     mmap_entries = replicate 64 (read_entry (\<lambda>_. 0) 0), mmap_count = 0, mem_total = 0\<rparr>"

lemma sample_chain: "tag_chain sample_boot_mem 0xC0001008 [0xC0001008, 0xC0001028]"
  "tag_valid sample_boot_mem 0xC0001008" "tag_valid sample_boot_mem 0xC0001028"
  by code_simp+

lemma sample_tags: "concat (map (tag_entries sample_boot_mem) [0xC0001008, 0xC0001028])
    = [\<lparr>base_addr = 0x100000, len = 0x2000000, mtype = 1, reserved = 0\<rparr>]"
  "last_fb sample_boot_mem [0xC0001008, 0xC0001028] d = (0xFD000000, 4096, 1024, 768, 32)"
  by code_simp+


end
