(* ===== verification/Kmain.thy ===== *)
theory Kmain
  imports Shell_Lines Heap Vfs Input Boot
begin

text \<open>
  The entry point \<^verbatim>\<open>kmain\<close> of \<^verbatim>\<open>kernel/main.c\<close>: the initialisation of every subsystem in order, and the shell.
  The machine is the state of the shell with what the other subsystems keep. A stage is one numbered step of the
  source; addresses fixed by the linker, the handlers' addresses, the initialisation of each engine and what an
  interrupt does are parameters.
\<close>

section \<open>Machine\<close>

record 'f machine =
  sh :: "'f shell"
  boot :: boot_info
  m_caches :: "SlabCache list"
  m_heap_cursor :: u32
  g_ai_arena :: Arena
  g_tmp_arena :: Arena
  m_vfs :: vfs
  font_hdr :: u32
  int_flag :: bool

record 'f boot_env =
  be_shell :: "'f shell_env"
  be_gdt_addr :: u32
  be_tss_addr :: u32
  be_isr :: "nat \<Rightarrow> u32"
  be_irq :: "nat \<Rightarrow> u32"
  be_isr128 :: u32
  be_idt_addr :: u32
  be_kernel_end :: u32
  be_lang_pool :: u32
  be_ai_pool :: u32
  be_tmp_pool :: u32
  be_font_arg :: u32
  be_stamp :: "u8 list"
  be_timer :: u32
  be_keyboard :: u32
  be_mouse :: u32
  be_explicit_init :: "'f shell \<Rightarrow> 'f shell result"
  be_nlp_init :: "'f shell \<Rightarrow> 'f shell result"
  be_neural_init :: "'f shell \<Rightarrow> 'f shell result"
  be_interrupt :: "'f shell \<Rightarrow> 'f shell result"

text \<open>The parts of the machine that the memory managers share: the address space in the process state, and the
  heap over it.\<close>

definition vm_of :: "'f machine \<Rightarrow> vm" where
  "vm_of m = pvm (tsched (sh m))"

definition set_vm :: "vm \<Rightarrow> 'f machine \<Rightarrow> 'f machine" where
  "set_vm v m = m\<lparr>sh := (sh m)\<lparr>tsched := (tsched (sh m))\<lparr>pvm := v\<rparr>\<rparr>\<rparr>"

definition heap_of :: "'f machine \<Rightarrow> heap" where
  "heap_of m = \<lparr>mach = vm_of m, caches = m_caches m, heap_cursor = m_heap_cursor m\<rparr>"

definition set_heap :: "heap \<Rightarrow> 'f machine \<Rightarrow> 'f machine" where
  "set_heap h m = set_vm (mach h) (m\<lparr>m_caches := caches h, m_heap_cursor := heap_cursor h\<rparr>)"

definition set_shell :: "'f shell \<Rightarrow> 'f machine \<Rightarrow> 'f machine" where
  "set_shell s m = m\<lparr>sh := s\<rparr>"

definition say :: "'f boot_env \<Rightarrow> string \<Rightarrow> 'f machine \<Rightarrow> 'f machine result" where
  "say env str m =
     (case uart_puts (se_dev (be_shell env)) (bytes_of str) (ports (sh m)) of
        None \<Rightarrow> Inl NoReturn
      | Some tr \<Rightarrow> Inr (set_shell ((sh m)\<lparr>ports := tr\<rparr>) m))"

text \<open>The two control registers that \<^verbatim>\<open>paging_enable\<close> of \<^verbatim>\<open>arch/x86/paging.c\<close> writes; no code calls it.\<close>

record control_regs =
  cr0_reg :: u32
  cr3_reg :: u32

definition paging_enable :: "u32 \<Rightarrow> control_regs \<Rightarrow> control_regs" where
  "paging_enable cr3_paddr r = (let r = r\<lparr>cr3_reg := cr3_paddr\<rparr> in r\<lparr>cr0_reg := cr0_reg r OR 0x80000000\<rparr>)"

lemma paging_enable_sets_pg:
  "cr3_reg (paging_enable p r) = p" "bit (cr0_reg (paging_enable p r)) 31"
  "n \<noteq> 31 \<Longrightarrow> bit (cr0_reg (paging_enable p r)) n = bit (cr0_reg r) n"
proof -
  have e: "(0x80000000 :: u32) = push_bit 31 1" by (simp add: push_bit_eq_mult)
  have b: "bit (0x80000000 :: u32) k \<longleftrightarrow> k = 31" for k
    unfolding e by (simp only: bit_push_bit_iff bit_1_iff) auto
  have c: "cr0_reg (paging_enable p r) = cr0_reg r OR 0x80000000" by (simp add: paging_enable_def)
  show "bit (cr0_reg (paging_enable p r)) 31" "n \<noteq> 31 \<Longrightarrow> bit (cr0_reg (paging_enable p r)) n = bit (cr0_reg r) n"
    by (auto simp only: c bit_or_iff b)
qed (simp add: paging_enable_def)

section \<open>Stages\<close>

definition stage_serial :: "'f boot_env \<Rightarrow> 'f machine \<Rightarrow> 'f machine result" where
  "stage_serial env m =
     say env (''[LUNA] Boot started'' @ NEWLINE) (set_shell ((sh m)\<lparr>ports := uart_init (ports (sh m))\<rparr>) m)"

definition stage_magic :: "'f boot_env \<Rightarrow> u32 \<Rightarrow> 'f machine \<Rightarrow> 'f machine result" where
  "stage_magic env mb2_magic m =
     (if mb2_magic \<noteq> MULTIBOOT2_MAGIC then
        rbind (say env (''[PANIC] Not loaded by a Multiboot2 bootloader!'' @ NEWLINE) m)
          (\<lambda>_. kernel_panic ''Invalid multiboot2 magic'')
      else Inr m)"

definition stage_multiboot :: "'f boot_env \<Rightarrow> u32 \<Rightarrow> 'f machine \<Rightarrow> 'f machine result" where
  "stage_multiboot env mb2_phys_addr m =
     (case parse_multiboot2 (kmem (vm_of m)) mb2_phys_addr (boot m) of
        None \<Rightarrow> Inl NoReturn
      | Some r \<Rightarrow> rbind r (\<lambda>b. say env (''[MB2] Parsed: framebuffer + mmap'' @ NEWLINE) (m\<lparr>boot := b\<rparr>)))"

definition stage_gdt :: "'f boot_env \<Rightarrow> 'f machine \<Rightarrow> 'f machine result" where
  "stage_gdt env m =
     rbind (gdt_install (be_gdt_addr env) (be_tss_addr env) (pgdt (tsched (sh m)))) (\<lambda>g.
       say env (''[GDT] Installed'' @ NEWLINE) (set_shell ((sh m)\<lparr>tsched := (tsched (sh m))\<lparr>pgdt := g\<rparr>\<rparr>) m))"

definition stage_idt :: "'f boot_env \<Rightarrow> 'f machine \<Rightarrow> 'f machine result" where
  "stage_idt env m =
     (let s = idt_install (be_isr env) (be_irq env) (be_isr128 env) (be_idt_addr env) (sh m);
          s = s\<lparr>ports := pic_remap (se_dev (be_shell env)) 0x20 0x28 (ports s)\<rparr>
      in say env (''[IDT] Installed, PIC remapped'' @ NEWLINE) (set_shell s m))"

definition stage_pmm :: "'f boot_env \<Rightarrow> 'f machine \<Rightarrow> 'f machine result" where
  "stage_pmm env m =
     (let v = vm_of m;
          fr = pmm_init (be_kernel_end env) (frames v) (take (unat (mmap_count (boot m))) (mmap_entries (boot m)))
      in say env (''[PMM] Initialized '' @ DASH @ '' '') (set_vm (v\<lparr>frames := fr\<rparr>) m))"

definition stage_vmm :: "'f boot_env \<Rightarrow> 'f machine \<Rightarrow> 'f machine result" where
  "stage_vmm env m = rbind (vmm_init (vm_of m)) (\<lambda>v. say env (''[VMM] Initialized'' @ NEWLINE) (set_vm v m))"

definition stage_heap :: "'f boot_env \<Rightarrow> 'f machine \<Rightarrow> 'f machine result" where
  "stage_heap env m =
     rbind (heap_init (heap_of m)) (\<lambda>h. say env (''[HEAP] Slab allocator online'' @ NEWLINE) (set_heap h m))"

definition stage_arena :: "'f boot_env \<Rightarrow> 'f machine \<Rightarrow> 'f machine result" where
  "stage_arena env m =
     (let v = vm_of m;
          (mem, l, a, t) = arena_global_init (kmem v) (be_lang_pool env) (be_ai_pool env) (be_tmp_pool env);
          m = set_vm (v\<lparr>kmem := mem\<rparr>) m;
          m = m\<lparr>sh := (sh m)\<lparr>g_lang_arena := l\<rparr>, g_ai_arena := a, g_tmp_arena := t\<rparr>
      in say env (''[ARENA] Initialized'' @ NEWLINE) m)"

text \<open>The calls to the text screen, with the date and time of the build.\<close>

definition boot_banner :: "'f boot_env \<Rightarrow> 'f shell \<Rightarrow> 'f shell" where
  "boot_banner env s = s\<lparr>screen_calls := screen_calls s @
     [FontSetFg 0x00E5FF, FontSetBg 0x000000,
      FontPrint 4 4 (bytes_of (
        ''  _                         ___  ____  '' @ NEWLINE @
        '' | |   _   _ _ __   __ _  / _ '' @ [CHR 0x5C] @ ''/ ___| '' @ NEWLINE @
        '' | |  | | | | '' @ [CHR 0x27] @ ''_ '' @ [CHR 0x5C] @ '' / _'' @ [CHR 0x60] @ '' || | | '' @ [CHR 0x5C] @ ''___ '' @ [CHR 0x5C] @ '' '' @ NEWLINE @
        '' | |__| |_| | | | | (_| || |_| |___) |'' @ NEWLINE @
        '' |_____'' @ [CHR 0x5C] @ ''__,_|_| |_|'' @ [CHR 0x5C] @ ''__,_| '' @ [CHR 0x5C] @ ''___/|____/ '' @ NEWLINE)),
      FontSetFg 0xFFFFFF, FontPrint 4 80 (bytes_of (''Project AETERNA '' @ DASH @ '' Ring 0 Kernel Active'')),
      FontSetFg 0x888888, FontPrint 4 96 (bytes_of ''Build: '' @ be_stamp env)]\<rparr>"

definition stage_lfb :: "'f boot_env \<Rightarrow> 'f machine \<Rightarrow> 'f machine result" where
  "stage_lfb env m =
     (let b = boot m in
      if fb_addr b \<noteq> 0 \<and> fb_bpp b = 32 then
        let m = m\<lparr>sh := (sh m)\<lparr>sh_fb := fb_init (fb_addr b) (fb_pitch b) (fb_width b) (fb_height b) (fb_bpp b)\<rparr>,
                  font_hdr := font_init (kmem (vm_of m)) (be_font_arg env) (font_hdr m)\<rparr> in
        rbind (say env (''[LFB] Framebuffer online'' @ NEWLINE) m) (\<lambda>m. Inr (set_shell (boot_banner env (sh m)) m))
      else say env (''[LFB] No 32bpp framebuffer '' @ DASH @ '' text mode fallback'' @ NEWLINE) m)"

definition stage_timer :: "'f boot_env \<Rightarrow> 'f machine \<Rightarrow> 'f machine result" where
  "stage_timer env m =
     rbind (timer_init (se_dev (be_shell env)) (be_timer env) 1000 (sh m)) (\<lambda>s.
       say env (''[PIT] 1000Hz timer started'' @ NEWLINE) (set_shell s m))"

definition stage_input :: "'f boot_env \<Rightarrow> 'f machine \<Rightarrow> 'f machine result" where
  "stage_input env m =
     say env (''[INPUT] PS/2 keyboard + mouse installed'' @ NEWLINE)
       (set_shell (mouse_install (se_dev (be_shell env)) (be_mouse env) (keyboard_install (be_keyboard env) (sh m))) m)"

definition stage_vfs :: "'f boot_env \<Rightarrow> 'f machine \<Rightarrow> 'f machine result" where
  "stage_vfs env m = say env (''[VFS] Initialized'' @ NEWLINE) (m\<lparr>m_vfs := vfs_init (m_vfs m)\<rparr>)"

definition stage_ledger :: "'f boot_env \<Rightarrow> 'f machine \<Rightarrow> 'f machine result" where
  "stage_ledger env m =
     say env (''[LEDGER] DAG-Ledger online'' @ NEWLINE) (set_shell ((sh m)\<lparr>tledger := ledger_init (tledger (sh m))\<rparr>) m)"

definition stage_process :: "'f boot_env \<Rightarrow> 'f machine \<Rightarrow> 'f machine result" where
  "stage_process env m =
     say env (''[PROC] Process subsystem + syscalls ready'' @ NEWLINE)
       (set_shell (syscall_init ((sh m)\<lparr>tsched := process_init (tsched (sh m))\<rparr>)) m)"

definition stage_ai :: "'f boot_env \<Rightarrow> 'f machine \<Rightarrow> 'f machine result" where
  "stage_ai env m =
     rbind (ai_core_init (se_iot (be_shell env)) (be_explicit_init env) (be_nlp_init env) (be_neural_init env) (sh m)) (\<lambda>s.
       say env (''[AI] Luna AI Core initialized'' @ NEWLINE) (set_shell s m))"

definition stage_scheduler :: "'f boot_env \<Rightarrow> 'f machine \<Rightarrow> 'f machine result" where
  "stage_scheduler env m =
     say env (''[SCHED] Preemptive scheduler armed'' @ NEWLINE)
       (set_shell ((sh m)\<lparr>tsched := scheduler_init (tsched (sh m))\<rparr>) m)"

definition stage_live :: "'f boot_env \<Rightarrow> 'f machine \<Rightarrow> 'f machine result" where
  "stage_live env m =
     say env (''[LUNA] Interrupts enabled '' @ DASH @ '' system live'' @ NEWLINE) (m\<lparr>int_flag := True\<rparr>)"

definition stages :: "'f boot_env \<Rightarrow> u32 \<Rightarrow> u32 \<Rightarrow> ('f machine \<Rightarrow> 'f machine result) list" where
  "stages env mb2_magic mb2_phys_addr =
     [stage_serial env, stage_magic env mb2_magic, stage_multiboot env mb2_phys_addr, stage_gdt env, stage_idt env,
      stage_pmm env, stage_vmm env, stage_heap env, stage_arena env, stage_lfb env, stage_timer env, stage_input env,
      stage_vfs env, stage_ledger env, stage_process env, stage_ai env, stage_scheduler env, stage_live env]"

definition kmain_init :: "'f boot_env \<Rightarrow> u32 \<Rightarrow> u32 \<Rightarrow> 'f machine \<Rightarrow> 'f machine result" where
  "kmain_init env mb2_magic mb2_phys_addr m = each (\<lambda>stage. stage) (stages env mb2_magic mb2_phys_addr) m"

text \<open>The entry point never returns: what it gives is the reason, a halt for ever being \<^const>\<open>NoReturn\<close>.\<close>

definition kmain :: "'f boot_env \<Rightarrow> u32 \<Rightarrow> u32 \<Rightarrow> 'f machine \<Rightarrow> fault" where
  "kmain env mb2_magic mb2_phys_addr m =
     (case kmain_init env mb2_magic mb2_phys_addr m of
        Inl e \<Rightarrow> e
      | Inr m \<Rightarrow>
          (case shell_run (be_shell env) (be_interrupt env) (shell_init (sh m)) of
             None \<Rightarrow> NoReturn
           | Some (Inl e) \<Rightarrow> e
           | Some (Inr s) \<Rightarrow> KernelPanic ''kmain: shell_run() returned''))"

section \<open>Memory after the boot stages\<close>

text \<open>The kernel's image, with the arena pools in it, lies below the first frame that is handed out; heap and
  page tables do not depend on its contents.\<close>

lemma page_le: "page q \<le> q"
  by (simp add: page_def word_and_le2)

lemma mach_ok_image:
  assumes ok: "mach_ok h" and pd: "k \<le> kernel_pd (mach h)" and same: "\<And>q. k \<le> q \<Longrightarrow> mem q = hmem h q"
  shows "mach_ok (set_hmem h mem)"
proof -
  let ?v = "mach h" and ?pd = "kernel_pd (mach h)"
  have p: "page ?pd = ?pd" using ok by (simp add: mach_ok_def Let_def pd_ok_def)
  have "pde (?v\<lparr>kmem := mem\<rparr>) ?pd i = pde ?v ?pd i" if "i < 1024" for i
  proof -
    have "mem (entry ?pd i + of_nat j) = kmem ?v (entry ?pd i + of_nat j)" if "j < 4" for j
    proof (rule same)
      have "page (entry ?pd i + of_nat j) = ?pd"
        using page_add_aligned[OF entry_aligned[OF p \<open>i < 1024\<close>] that] page_entry[OF p \<open>i < 1024\<close>] by simp
      with page_le[of "entry ?pd i + of_nat j"] pd show "k \<le> entry ?pd i + of_nat j" by simp
    qed
    then have "load_u32 mem (entry ?pd i) = load_u32 (kmem ?v) (entry ?pd i)" by (rule load_u32_cong)
    then show ?thesis by (simp add: pde_def)
  qed
  then have "has_table (?v\<lparr>kmem := mem\<rparr>) ?pd i = has_table ?v ?pd i" "table (?v\<lparr>kmem := mem\<rparr>) ?pd i = table ?v ?pd i"
    if "i < 1024" for i using that by (simp_all add: has_table_def table_def)
  with ok show ?thesis by (simp add: mach_ok_def Let_def pd_ok_def)
qed

lemma heap_inv_image:
  assumes inv: "heap_inv h fls L" and pd: "k \<le> kernel_pd (mach h)" "k \<le> HEAP_VIRT_BASE"
    and same: "\<And>q. k \<le> q \<Longrightarrow> mem q = hmem h q"
  shows "heap_inv (set_hmem h mem) fls L"
proof -
  note D = heap_invD[OF inv]
  have "chain mem (free_list (caches h ! i)) (fls ! i)" if "i < 8" for i
  proof -
    have "load_u32 mem x = load_u32 (hmem h) x" if "x \<in> set (fls ! i)" for x
    proof (rule load_u32_cong)
      fix j assume j: "j < (4 :: nat)"
      have "(x, SLAB_SIZES ! i) \<in> free_blocks fls" using that \<open>i < 8\<close> by (auto simp: free_blocks_def)
      then have "HEAP_VIRT_BASE \<le> x" "unat x mod 8 = 0"
        using D(8)[of "(x, SLAB_SIZES ! i)"] by (auto simp: in_heap_def)
      moreover from this have "unat (x + of_nat j) = unat x + j"
      proof -
        obtain c where "unat x = 8 * c" using \<open>unat x mod 8 = 0\<close> by (auto simp: mod_eq_0_iff_dvd)
        with u32_bound[of x] j have "unat x + unat (of_nat j :: u32) < 2 ^ 32" by (simp add: unat_of_nat_eq_32)
        with j show ?thesis by (subst unat_add_lem[THEN iffD1]) (simp_all add: unat_of_nat_eq_32)
      qed
      ultimately have "k \<le> x + of_nat j" using pd(2) by (simp add: word_le_nat_alt)
      then show "mem (x + of_nat j) = hmem h (x + of_nat j)" by (rule same)
    qed
    with D(5)[OF that] show ?thesis using chain_cong by metis
  qed
  with inv mach_ok_image[OF D(1) pd(1) same] show ?thesis by (simp add: heap_inv_upto_def)
qed

text \<open>The page directory stays where it is while the heap is set up.\<close>

lemma heap_pages_pd: "mach_ok h \<Longrightarrow> heap_pages_loop n h = Inr h' \<Longrightarrow> kernel_pd (mach h') = kernel_pd (mach h)"
proof (induction n arbitrary: h)
  case (Suc n)
  then obtain h1 where h1: "heap_alloc_page h = Inr h1" "heap_pages_loop n h1 = Inr h'" by (auto simp: rbind_Inr_iff)
  from h1(1) obtain p fr v where al: "pmm_alloc_frame (frames (mach h)) = Inr (p, fr)"
    and m: "vmm_map_page ((mach h)\<lparr>frames := fr\<rparr>) (kernel_pd (mach h)) (heap_cursor h) p 3 = Inr v" and v: "mach h1 = v"
    by (auto simp: heap_alloc_page_def rbind_Inr_iff Let_def vmm_get_kernel_pd_def)
  have ok: "pd_ok (mach h) (kernel_pd (mach h))" using Suc.prems(1) by (simp add: mach_ok_def Let_def)
  then have "pd_ok ((mach h)\<lparr>frames := fr\<rparr>) (kernel_pd (mach h))"
    using pm.alloc_Inr[OF _ al] by (intro pd_ok_fewer_frames) (auto simp: pd_ok_def)
  from map_page_frame(1)[OF this m] Suc.IH[OF heap_alloc_page_ok(1)[OF Suc.prems(1) h1(1)] h1(2)] v
  show ?case by simp
qed simp

lemma init_cache_pd: "mach_ok h \<Longrightarrow> init_cache h i = Inr h' \<Longrightarrow> kernel_pd (mach h') = kernel_pd (mach h)"
  using heap_pages_pd[of h] by (auto simp: init_cache_def heap_alloc_pages_def rbind_Inr_iff Let_def case_prod_beta)

lemma init_caches_pd:
  "heap_inv_upto n h fls {} \<Longrightarrow> n \<le> 8 \<Longrightarrow> \<forall>j. n \<le> j \<and> j < 8 \<longrightarrow> fls ! j = [] \<Longrightarrow>
   init_caches [n..<8] h = Inr h' \<Longrightarrow> kernel_pd (mach h') = kernel_pd (mach h)"
proof (induction "8 - n" arbitrary: n h fls)
  case (Suc d)
  then have n: "n < 8" by simp
  with Suc.prems(4) obtain h1 where h1: "init_cache h n = Inr h1" "init_caches [Suc n..<8] h1 = Inr h'"
    by (auto simp: upt_conv_Cons rbind_Inr_iff)
  from init_cache_ok[OF Suc.prems(1) n _ h1(1)] Suc.prems(3) n obtain ys where
    "heap_inv_upto (Suc n) h1 (fls[n := ys]) {}" by blast
  from Suc.hyps(1)[OF _ this _ _ h1(2)] Suc.hyps(2) Suc.prems(3) n
  have "kernel_pd (mach h') = kernel_pd (mach h1)" by simp
  with init_cache_pd[OF heap_invD(1)[OF Suc.prems(1)] h1(1)] show ?case by simp
qed simp

lemma heap_init_pd:
  assumes "mach_ok h" "length (caches h) = 8" "\<forall>c \<in> set (caches h). free_list c = 0" "heap_init h = Inr h'"
  shows "kernel_pd (mach h') = kernel_pd (mach h)"
proof -
  have "heap_inv_upto 0 h (replicate 8 []) {}"
    using assms(1-3) by (auto simp: heap_inv_upto_def free_blocks_def)
  then show ?thesis using assms(4) by (intro init_caches_pd[of 0 h "replicate 8 []"]) (simp_all add: heap_init_def)
qed

text \<open>Filling an arena pool inside the image.\<close>

lemma fill_below:
  assumes "unat p + unat n \<le> unat k" "k \<le> q"
  shows "luna_memset mem p v n q = mem q"
proof -
  have "unat (q - p) = unat q - unat p"
    using assms by (intro unat_sub) (simp add: word_le_nat_alt)
  then have "\<not> q - p < n" using assms by (simp add: word_le_nat_alt word_less_nat_alt)
  then show ?thesis by (simp add: luna_memset_fill fill_def)
qed

definition pools_in_image :: "'f boot_env \<Rightarrow> bool" where
  "pools_in_image env \<longleftrightarrow>
     (\<forall>(p, n) \<in> {(be_lang_pool env, ARENA_LANG_SIZE), (be_ai_pool env, ARENA_AI_SIZE), (be_tmp_pool env, ARENA_TMP_SIZE)}.
        unat p + unat n \<le> unat (be_kernel_end env + 0xC0000000))"

lemma arena_init_below:
  assumes "pools_in_image env" "be_kernel_end env + 0xC0000000 \<le> q"
  shows "fst (arena_global_init mem (be_lang_pool env) (be_ai_pool env) (be_tmp_pool env)) q = mem q"
proof -
  note below = fill_below[OF _ assms(2)]
  from assms(1) show ?thesis by (simp add: arena_global_init_def arena_init_def pools_in_image_def below)
qed

text \<open>After \<^verbatim>\<open>vmm_init\<close> the machine below an empty heap is in order.\<close>

lemma low_frames_card:
  assumes "\<forall>f \<in> S. f < (0x10000 :: u32)"
  shows "finite S" "card S \<le> 65536"
proof -
  have "S \<subseteq> of_nat ` {..<65536}"
  proof
    fix f assume "f \<in> S"
    with assms have "unat f < 65536" by (simp add: word_less_nat_alt)
    then show "f \<in> of_nat ` {..<65536}" by (intro image_eqI[of _ _ "unat f"]) simp_all
  qed
  then show "finite S" "card S \<le> 65536"
    using card_image_le[of "{..<65536}" "of_nat :: nat \<Rightarrow> u32"] card_mono[of "of_nat ` {..<65536}" S]
    by (auto intro: finite_subset)
qed

lemma vmm_init_mach:
  assumes "pmm_inv (frames s)" "\<forall>f \<in> free_set (frames s). f < 0x10000" "vmm_init s = Inr v"
  obtains a where "kernel_pd v = a + 0xC0000000" "a div 4096 \<in> free_set (frames s)" "a mod 4096 = 0"
    "free_set (frames v) = free_set (frames s) - {a div 4096}"
    "mach_ok \<lparr>mach = v, caches = cs, heap_cursor = HEAP_VIRT_BASE\<rparr>"
proof -
  from assms(3) obtain a fr where al: "pmm_alloc_frame (frames s) = Inr (a, fr)"
    and v: "kernel_pd v = a + 0xC0000000" "kmem v = luna_memset (kmem s) (kernel_pd v) 0 4096" "frames v = fr"
    by (auto simp: vmm_init_def rbind_Inr_iff Let_def PAGE_SIZE_def set_cr3_def)
  note a = pm.alloc_Inr[OF assms(1) al]
  note ok = vmm_init_empty(2)[OF assms(1,3)]
  then have p: "page (kernel_pd v) = kernel_pd v" by (simp add: pd_ok_def)
  have none: "\<not> has_table v (kernel_pd v) i" if "i < 1024" for i
    using p that by (simp add: has_table_def pde_def v(2) mem_simps entry_aligned page_entry)
  have low: "\<forall>f \<in> free_set fr. f < 0x10000" using a assms(2) by auto
  have "frame_of (kernel_pd v) < 0x10000" using a assms(2) by (simp add: v(1) frame_of_def)
  moreover have "unat HEAP_VIRT_BASE + 4096 * card (free_set fr) \<le> 0xE0000000"
    using low_frames_card(2)[OF low] by (simp add: HEAP_VIRT_BASE_def)
  moreover have "page HEAP_VIRT_BASE = HEAP_VIRT_BASE" by (simp add: HEAP_VIRT_BASE_def page_def)
  ultimately have "mach_ok \<lparr>mach = v, caches = cs, heap_cursor = HEAP_VIRT_BASE\<rparr>"
    using ok none low by (simp add: mach_ok_def Let_def v(3))
  with that[of a] v a show thesis by simp
qed

text \<open>The memory map the boot loader must give: aligned entries that do not overlap, below 256 MiB.\<close>

definition map_ok :: "MB2_MmapEntry list \<Rightarrow> bool" where
  "map_ok es \<longleftrightarrow> disjoint_map es \<and> (\<forall>e \<in> set es. entry_ok e \<and> unat (base_addr e) + unat (len e) \<le> 0x10000000)"

lemma pmm_boot:
  assumes "map_ok es" "unat k \<le> 0x10000000"
  shows "pmm_inv (pmm_init k boot_pmm es)" "f \<in> free_set (pmm_init k boot_pmm es) \<Longrightarrow> f < 0x10000 \<and> unat k < unat f * 4096"
proof -
  have init: "pmm_inv (pmm_init k boot_pmm es)"
    "free_set (pmm_init k boot_pmm es) = (\<Union>e \<in> set es. entry_region e) - kernel_frames k"
    using pmm_init_spec[of boot_pmm es k] assms(1) by (simp_all add: boot_pmm_def map_ok_def)
  show "pmm_inv (pmm_init k boot_pmm es)" by (rule init(1))
  assume "f \<in> free_set (pmm_init k boot_pmm es)"
  then obtain e where e: "e \<in> set es" "f \<in> entry_region e" "f \<notin> kernel_frames k" unfolding init(2) by blast
  have ok: "entry_ok e" "unat (base_addr e) + unat (len e) \<le> 0x10000000" using assms(1) e(1) by (auto simp: map_ok_def)
  note inside = entry_region_inside[OF ok(1) e(2)]
  have "f < 0x10000" using inside(4) ok(2) by (simp add: word_less_nat_alt)
  moreover have "unat k < unat f * 4096" using assms(2) by (intro outside_kernel[OF e(3) inside(2)]) simp
  ultimately show "f < 0x10000 \<and> unat k < unat f * 4096" ..
qed

text \<open>The four memory stages together.\<close>

lemma boot_memory:
  assumes es: "map_ok es" and k: "unat (be_kernel_end env) \<le> 0x10000000" and pools: "pools_in_image env"
    and fr: "frames s = pmm_init (be_kernel_end env) boot_pmm es"
    and cs: "length cs = 8" "\<forall>c \<in> set cs. free_list c = 0"
    and v: "vmm_init s = Inr v" and h: "heap_init \<lparr>mach = v, caches = cs, heap_cursor = HEAP_VIRT_BASE\<rparr> = Inr h"
  shows "\<exists>fls. heap_inv (set_hmem h (fst (arena_global_init (hmem h) (be_lang_pool env) (be_ai_pool env) (be_tmp_pool env)))) fls {}"
proof -
  let ?K = "be_kernel_end env + 0xC0000000"
  note b = pmm_boot[OF es k]
  obtain a where a: "kernel_pd v = a + 0xC0000000" "a div 4096 \<in> free_set (frames s)" "a mod 4096 = 0"
    and mo: "mach_ok \<lparr>mach = v, caches = cs, heap_cursor = HEAP_VIRT_BASE\<rparr>"
  proof (rule vmm_init_mach[of s v cs])
    show "pmm_inv (frames s)" "\<forall>f \<in> free_set (frames s). f < 0x10000" using b by (auto simp: fr)
  qed (use v in auto)
  obtain fls where inv: "heap_inv h fls {}" using heap_init_ok[OF mo _ _ h] cs by auto
  have pd: "kernel_pd (mach h) = a + 0xC0000000" using heap_init_pd[OF mo _ _ h] cs a(1) by simp
  have "a div 4096 < 0x10000" "unat (be_kernel_end env) < unat (a div 4096) * 4096" using b(2)[of "a div 4096"] a(2) fr by auto
  then have bnd: "unat (be_kernel_end env) < unat a" "unat a < 0x10000000"
    by (simp_all add: word_less_nat_alt unat_div)
  have K: "unat ?K = unat (be_kernel_end env) + 0xC0000000" using k by (subst unat_add_lem[THEN iffD1]) simp_all
  have "unat (a + 0xC0000000) = unat a + 0xC0000000" using bnd by (subst unat_add_lem[THEN iffD1]) simp_all
  with K bnd pd have "?K \<le> kernel_pd (mach h)" by (simp add: word_le_nat_alt)
  moreover have "?K \<le> HEAP_VIRT_BASE" using k by (simp add: word_le_nat_alt K HEAP_VIRT_BASE_def)
  ultimately have "heap_inv (set_hmem h (fst (arena_global_init (hmem h) (be_lang_pool env) (be_ai_pool env) (be_tmp_pool env)))) fls {}"
    by (rule heap_inv_image[OF inv]) (rule arena_init_below[OF pools])
  then show ?thesis ..
qed

text \<open>They return when 65 frames are free.\<close>

lemma boot_memory_returns:
  assumes es: "map_ok es" and k: "unat (be_kernel_end env) \<le> 0x10000000"
    and fr: "frames s = pmm_init (be_kernel_end env) boot_pmm es"
    and cs: "length cs = 8" "\<forall>c \<in> set cs. free_list c = 0"
    and n: "65 \<le> card (free_set (frames s))"
  shows "\<exists>v h. vmm_init s = Inr v \<and> heap_init \<lparr>mach = v, caches = cs, heap_cursor = HEAP_VIRT_BASE\<rparr> = Inr h"
proof -
  note b = pmm_boot[OF es k, folded fr]
  have low: "\<forall>f \<in> free_set (frames s). f < 0x10000" using b(2) by blast
  have "free_set (frames s) \<noteq> {}" using n by auto
  then obtain a f1 where "pmm_alloc_frame (frames s) = Inr (a, f1)"
    using pm.alloc_Inl[OF b(1)] by (cases "pmm_alloc_frame (frames s)") auto
  then obtain v where v: "vmm_init s = Inr v" by (simp add: vmm_init_def Let_def)
  obtain a where "free_set (frames v) = free_set (frames s) - {a div 4096}" "a div 4096 \<in> free_set (frames s)"
    and mo: "mach_ok \<lparr>mach = v, caches = cs, heap_cursor = HEAP_VIRT_BASE\<rparr>"
    by (rule vmm_init_mach[OF b(1) low v, of cs])
  then have "64 \<le> card (free_set (frames v))" using n low_frames_card(1)[OF low] by (simp add: card_Diff_singleton)
  with heap_init_total[OF mo] cs v show ?thesis by simp
qed

section \<open>The stages in sequence\<close>

text \<open>Output changes nothing but the port trace.\<close>

definition said :: "'f boot_env \<Rightarrow> string \<Rightarrow> 'f shell \<Rightarrow> trace" where
  "said env str s = the (uart_puts (se_dev (be_shell env)) (bytes_of str) (ports s))"

lemma say_returns:
  assumes "transmitter_drains (se_dev (be_shell env))"
  shows "say env str m = Inr (m\<lparr>sh := (sh m)\<lparr>ports := said env str (sh m)\<rparr>\<rparr>)"
  using uart_puts_sends[OF assms, of "bytes_of str" "ports (sh m)"] by (auto simp: say_def said_def set_shell_def)

text \<open>The statics before the kernel runs.\<close>

definition fresh :: "'f machine \<Rightarrow> bool" where
  "fresh m \<longleftrightarrow> boot_ok (boot m) \<and> known (boot m) = [] \<and> frames (vm_of m) = boot_pmm
     \<and> length (m_caches m) = 8 \<and> (\<forall>c \<in> set (m_caches m). free_list c = 0) \<and> m_heap_cursor m = HEAP_VIRT_BASE
     \<and> length (gdt (pgdt (tsched (sh m)))) = GDT_ENTRIES \<and> current_process (tsched (sh m)) = None"

lemma fold_gates:
  "\<exists>g. fold (\<lambda>(n, h, flags). idt_set_gate (of_nat n) h 0x08 flags) xs s = s\<lparr>idt := g\<rparr>"
proof (induction xs arbitrary: s)
  case Nil
  show ?case by (rule exI[of _ "idt s"]) simp
next
  case (Cons x xs)
  obtain n h flags where x: "x = (n, h, flags)" by (cases x)
  have "\<exists>g. idt_set_gate (of_nat n) h 0x08 flags s = s\<lparr>idt := g\<rparr>" by (auto simp: idt_set_gate_def)
  then obtain g where g: "idt_set_gate (of_nat n) h 0x08 flags s = s\<lparr>idt := g\<rparr>" ..
  from Cons[of "s\<lparr>idt := g\<rparr>"] g x show ?case by auto
qed

lemma idt_install_effect:
  obtains g p q where "idt_install isr irq i128 a s = s\<lparr>idt := g, irq_handlers := replicate 16 0, idt_ptr := p, reg_idtr := q\<rparr>"
    "\<And>n h flags. (n, h, flags) \<in> set (gate_calls isr irq i128) \<Longrightarrow> g (of_nat n) = make_gate h 0x08 flags"
proof -
  let ?s = "s\<lparr>idt := (\<lambda>_. make_gate 0 0 0), irq_handlers := replicate 16 0\<rparr>"
  obtain g where g: "fold (\<lambda>(n, h, flags). idt_set_gate (of_nat n) h 0x08 flags) (gate_calls isr irq i128) ?s = ?s\<lparr>idt := g\<rparr>"
    using fold_gates by blast
  then have e: "idt_install isr irq i128 a s
      = s\<lparr>idt := g, irq_handlers := replicate 16 0, idt_ptr := \<lparr>ip_limit = 256 * 8 - 1, ip_base = a\<rparr>, reg_idtr := \<lparr>ip_limit = 256 * 8 - 1, ip_base = a\<rparr>\<rparr>"
    by (simp add: idt_install_def Let_def idt_flush_def)
  show thesis
  proof (rule that[OF e])
    fix n h flags assume "(n, h, flags) \<in> set (gate_calls isr irq i128)"
    from installed_gate[OF this, of a s] e show "g (of_nat n) = make_gate h 0x08 flags" by simp
  qed
qed

text \<open>What the machine has after the tables are installed.\<close>

definition gates_set :: "'f boot_env \<Rightarrow> 'f shell \<Rightarrow> bool" where
  "gates_set env s \<longleftrightarrow> (\<forall>(n, h, flags) \<in> set (gate_calls (be_isr env) (be_irq env) (be_isr128 env)).
     idt s (of_nat n) = make_gate h 0x08 flags)"

lemma stages_tables:
  assumes d: "transmitter_drains (se_dev (be_shell env))" and m: "fresh m"
    and tags: "tag_chain (kmem (vm_of m)) (addr + 0xC0000008) ps" "\<forall>q \<in> set ps. tag_valid (kmem (vm_of m)) q"
  obtains m' where "each (\<lambda>stage. stage)
      [stage_serial env, stage_magic env MULTIBOOT2_MAGIC, stage_multiboot env addr, stage_gdt env, stage_idt env] m = Inr m'"
    "known (boot m') = take 64 (concat (map (tag_entries (kmem (vm_of m))) ps))" "vm_of m' = vm_of m"
    "m_caches m' = m_caches m" "m_heap_cursor m' = m_heap_cursor m" "gates_set env (sh m')"
    "irq_handlers (sh m') = replicate 16 0" "current_process (tsched (sh m')) = None"
    "history (sh m') = history (sh m)" "shell_row (sh m') = shell_row (sh m)"
proof -
  note say = say_returns[OF d]
  obtain t1 where s1: "stage_serial env m = Inr (m\<lparr>sh := (sh m)\<lparr>ports := t1\<rparr>\<rparr>)" (is "_ = Inr ?m1")
    by (rule that) (simp add: stage_serial_def set_shell_def say)
  have s2: "stage_magic env MULTIBOOT2_MAGIC ?m1 = Inr ?m1" by (simp add: stage_magic_def)
  have v1: "vm_of ?m1 = vm_of m" by (simp add: vm_of_def)
  have "MB2_FIRST_TAG (addr + KERNEL_VIRT_BASE) = addr + 0xC0000008" by (simp add: MB2_FIRST_TAG_def KERNEL_VIRT_BASE_def)
  with tag_loop_chain[OF _ tags, of "boot m"] m obtain b where
    b: "parse_multiboot2 (kmem (vm_of m)) addr (boot m) = Some (Inr b)"
      "known b = take 64 (concat (map (tag_entries (kmem (vm_of m))) ps))"
    by (auto simp: parse_multiboot2_def fresh_def)
  obtain t3 where s3: "stage_multiboot env addr ?m1 = Inr (m\<lparr>boot := b, sh := (sh m)\<lparr>ports := t3\<rparr>\<rparr>)" (is "_ = Inr ?m3")
    by (rule that) (simp add: stage_multiboot_def v1 b(1) say)
  have "length (gdt (pgdt (tsched (sh m)))) = GDT_ENTRIES" using m by (simp add: fresh_def)
  from gdt_install_segments[OF this, of "be_gdt_addr env" "be_tss_addr env"]
  obtain g where g: "gdt_install (be_gdt_addr env) (be_tss_addr env) (pgdt (tsched (sh m))) = Inr g" by blast
  obtain t4 where s4: "stage_gdt env ?m3 = Inr (m\<lparr>boot := b, sh := (sh m)\<lparr>tsched := (tsched (sh m))\<lparr>pgdt := g\<rparr>, ports := t4\<rparr>\<rparr>)" (is "_ = Inr ?m4")
    by (rule that) (simp add: stage_gdt_def g set_shell_def say)
  obtain f p q where i: "idt_install (be_isr env) (be_irq env) (be_isr128 env) (be_idt_addr env) (sh ?m4)
      = (sh ?m4)\<lparr>idt := f, irq_handlers := replicate 16 0, idt_ptr := p, reg_idtr := q\<rparr>"
    and f: "\<And>n h flags. (n, h, flags) \<in> set (gate_calls (be_isr env) (be_irq env) (be_isr128 env)) \<Longrightarrow> f (of_nat n) = make_gate h 0x08 flags"
    by (rule idt_install_effect) blast
  let ?s5 = "(sh ?m4)\<lparr>idt := f, irq_handlers := replicate 16 0, idt_ptr := p, reg_idtr := q\<rparr>"
  let ?m5 = "\<lambda>tr. m\<lparr>boot := b, sh := ?s5\<lparr>ports := tr\<rparr>\<rparr>"
  obtain t5 where s5: "stage_idt env ?m4 = Inr (?m5 t5)"
    by (rule that) (simp add: stage_idt_def i[simplified] set_shell_def Let_def say)
  show thesis
  proof (rule that[of "?m5 t5"])
    show "each (\<lambda>stage. stage)
      [stage_serial env, stage_magic env MULTIBOOT2_MAGIC, stage_multiboot env addr, stage_gdt env, stage_idt env] m = Inr (?m5 t5)"
      using s1 s2 s3 s4 s5 by simp
    show "gates_set env (sh (?m5 t5))" using f by (auto simp: gates_set_def)
  qed (use m b(2) in \<open>simp_all add: vm_of_def fresh_def\<close>)
qed

text \<open>The memory stages: a fault means too few frames.\<close>

lemma memory_stages_run:
  assumes d: "transmitter_drains (se_dev (be_shell env))" and fr: "frames (vm_of m) = boot_pmm"
  defines "r \<equiv> each (\<lambda>stage. stage) [stage_pmm env, stage_vmm env, stage_heap env, stage_arena env] m"
    and "v0 \<equiv> (vm_of m)\<lparr>frames := pmm_init (be_kernel_end env) boot_pmm (known (boot m))\<rparr>"
  shows "vmm_init v0 = Inl e \<Longrightarrow> r = Inl e"
    "vmm_init v0 = Inr v \<Longrightarrow> heap_init \<lparr>mach = v, caches = m_caches m, heap_cursor = m_heap_cursor m\<rparr> = Inl e \<Longrightarrow> r = Inl e"
    "vmm_init v0 = Inr v \<Longrightarrow> heap_init \<lparr>mach = v, caches = m_caches m, heap_cursor = m_heap_cursor m\<rparr> = Inr h \<Longrightarrow>
     arena_global_init (hmem h) (be_lang_pool env) (be_ai_pool env) (be_tmp_pool env) = (mem, l, a, t) \<Longrightarrow>
     \<exists>tr. r = Inr (m\<lparr>m_caches := caches h, m_heap_cursor := heap_cursor h, g_ai_arena := a, g_tmp_arena := t,
       sh := (sh m)\<lparr>tsched := (tsched (sh m))\<lparr>pvm := (mach h)\<lparr>kmem := mem\<rparr>\<rparr>, g_lang_arena := l, ports := tr\<rparr>\<rparr>)"
proof -
  note say = say_returns[OF d]
  obtain t1 where s1: "stage_pmm env m = Inr (m\<lparr>sh := (sh m)\<lparr>tsched := (tsched (sh m))\<lparr>pvm := v0\<rparr>, ports := t1\<rparr>\<rparr>)" (is "_ = Inr ?m1")
    by (rule that) (simp add: stage_pmm_def set_vm_def Let_def fr known_def say v0_def)
  have v1: "vm_of ?m1 = v0" by (simp add: vm_of_def)
  with s1 show "vmm_init v0 = Inl e \<Longrightarrow> r = Inl e" by (simp add: r_def stage_vmm_def)
  assume v: "vmm_init v0 = Inr v"
  obtain t2 where s2: "stage_vmm env ?m1 = Inr (m\<lparr>sh := (sh m)\<lparr>tsched := (tsched (sh m))\<lparr>pvm := v\<rparr>, ports := t2\<rparr>\<rparr>)" (is "_ = Inr ?m2")
    by (rule that) (simp add: stage_vmm_def v1 v set_vm_def say)
  have h2: "heap_of ?m2 = \<lparr>mach = v, caches = m_caches m, heap_cursor = m_heap_cursor m\<rparr>" by (simp add: heap_of_def vm_of_def)
  show "heap_init \<lparr>mach = v, caches = m_caches m, heap_cursor = m_heap_cursor m\<rparr> = Inl e \<Longrightarrow> r = Inl e"
    using s1 s2 by (simp add: r_def stage_heap_def h2)
  assume h: "heap_init \<lparr>mach = v, caches = m_caches m, heap_cursor = m_heap_cursor m\<rparr> = Inr h"
    and ar: "arena_global_init (hmem h) (be_lang_pool env) (be_ai_pool env) (be_tmp_pool env) = (mem, l, a, t)"
  obtain t3 where s3: "stage_heap env ?m2 = Inr (m\<lparr>m_caches := caches h, m_heap_cursor := heap_cursor h,
      sh := (sh m)\<lparr>tsched := (tsched (sh m))\<lparr>pvm := mach h\<rparr>, ports := t3\<rparr>\<rparr>)" (is "_ = Inr ?m3")
    by (rule that) (simp add: stage_heap_def h h2 set_heap_def set_vm_def say)
  obtain t4 where "stage_arena env ?m3 = Inr (m\<lparr>m_caches := caches h, m_heap_cursor := heap_cursor h, g_ai_arena := a, g_tmp_arena := t,
      sh := (sh m)\<lparr>tsched := (tsched (sh m))\<lparr>pvm := (mach h)\<lparr>kmem := mem\<rparr>\<rparr>, g_lang_arena := l, ports := t4\<rparr>\<rparr>)"
    by (rule that) (simp add: stage_arena_def vm_of_def ar set_vm_def Let_def say)
  with s1 s2 s3 show "\<exists>tr. r = Inr (m\<lparr>m_caches := caches h, m_heap_cursor := heap_cursor h, g_ai_arena := a, g_tmp_arena := t,
      sh := (sh m)\<lparr>tsched := (tsched (sh m))\<lparr>pvm := (mach h)\<lparr>kmem := mem\<rparr>\<rparr>, g_lang_arena := l, ports := tr\<rparr>\<rparr>)"
    by (intro exI[of _ t4]) (simp add: r_def)
qed

lemma stages_memory:
  assumes d: "transmitter_drains (se_dev (be_shell env))" and es: "map_ok (known (boot m))"
    and k: "unat (be_kernel_end env) \<le> 0x10000000" and pools: "pools_in_image env"
    and fr: "frames (vm_of m) = boot_pmm" and cs: "length (m_caches m) = 8" "\<forall>c \<in> set (m_caches m). free_list c = 0"
    and cur: "m_heap_cursor m = HEAP_VIRT_BASE"
  defines "r \<equiv> each (\<lambda>stage. stage) [stage_pmm env, stage_vmm env, stage_heap env, stage_arena env] m"
  shows "(\<exists>e. r = Inl e) \<and> card (free_set (pmm_init (be_kernel_end env) boot_pmm (known (boot m)))) < 65
    \<or> (\<exists>m' fls. r = Inr m' \<and> heap_inv (heap_of m') fls {} \<and> boot m' = boot m
        \<and> idt (sh m') = idt (sh m) \<and> irq_handlers (sh m') = irq_handlers (sh m)
        \<and> current_process (tsched (sh m')) = current_process (tsched (sh m))
        \<and> history (sh m') = history (sh m) \<and> shell_row (sh m') = shell_row (sh m))"
proof -
  let ?es = "known (boot m)"
  let ?v = "(vm_of m)\<lparr>frames := pmm_init (be_kernel_end env) boot_pmm ?es\<rparr>"
  let ?h = "\<lambda>v. \<lparr>mach = v, caches = m_caches m, heap_cursor = HEAP_VIRT_BASE\<rparr>"
  note run = memory_stages_run[OF d fr, folded r_def, unfolded cur]
  show ?thesis
  proof (cases "\<exists>v h. vmm_init ?v = Inr v \<and> heap_init (?h v) = Inr h")
    case False
    then have "card (free_set (pmm_init (be_kernel_end env) boot_pmm ?es)) < 65"
      using boot_memory_returns[OF es k _ cs, of ?v] by (force simp: not_less)
    moreover have "\<exists>e. r = Inl e" using False run(1,2) by (metis obj_sumE)
    ultimately show ?thesis by blast
  next
    case True
    then obtain v h where v: "vmm_init ?v = Inr v" and h: "heap_init (?h v) = Inr h" by blast
    obtain mem l a t where ar: "arena_global_init (hmem h) (be_lang_pool env) (be_ai_pool env) (be_tmp_pool env) = (mem, l, a, t)"
      by (metis prod_cases4)
    obtain fls where "heap_inv (set_hmem h mem) fls {}" using boot_memory[OF es k pools _ cs v h] ar by auto
    moreover obtain m4 tr where m4: "r = Inr m4" "m4 = m\<lparr>m_caches := caches h, m_heap_cursor := heap_cursor h, g_ai_arena := a,
        g_tmp_arena := t, sh := (sh m)\<lparr>tsched := (tsched (sh m))\<lparr>pvm := (mach h)\<lparr>kmem := mem\<rparr>\<rparr>, g_lang_arena := l, ports := tr\<rparr>\<rparr>"
      using run(3)[OF v h ar] by blast
    moreover have "heap_of m4 = set_hmem h mem" by (simp add: m4(2) heap_of_def vm_of_def)
    ultimately show ?thesis by (intro disjI2 exI[of _ m4] exI[of _ fls]) simp
  qed
qed

text \<open>The remaining stages on the parts they change.\<close>

type_synonym boot_view =
  "SlabCache list \<times> u32 \<times> (boot_info \<times> u8 list list \<times> int) \<times> (u8 \<Rightarrow> IDT_Entry) \<times> u32 list \<times> ledger \<times> sched"

definition view :: "'f machine \<Rightarrow> boot_view" where
  "view m = (m_caches m, m_heap_cursor m, (boot m, history (sh m), shell_row (sh m)), idt (sh m), irq_handlers (sh m), tledger (sh m), tsched (sh m))"

lemma view_heap: "view m' = (c, k, b, i, q, l, s) \<Longrightarrow> heap_of m' = \<lparr>mach = pvm s, caches = c, heap_cursor = k\<rparr>"
  by (auto simp: view_def heap_of_def vm_of_def)

lemma stage_views:
  assumes d: "transmitter_drains (se_dev (be_shell env))" and v: "view m = (c, k, b, i, q, l, s)"
  shows "\<exists>m'. stage_lfb env m = Inr m' \<and> view m' = (c, k, b, i, q, l, s)"
    "\<exists>m'. stage_timer env m = Inr m' \<and> view m' = (c, k, b, i, q[0 := be_timer env], l, s)"
    "\<exists>m'. stage_input env m = Inr m' \<and> view m' = (c, k, b, i, q[1 := be_keyboard env, 12 := be_mouse env], l, s)"
    "\<exists>m'. stage_vfs env m = Inr m' \<and> view m' = (c, k, b, i, q, l, s)"
    "\<exists>m'. stage_ledger env m = Inr m' \<and> view m' = (c, k, b, i, q, ledger_init l, s)"
    "\<exists>m'. stage_process env m = Inr m' \<and> view m' = (c, k, b, i, q, l, process_init s)"
    "\<exists>m'. stage_scheduler env m = Inr m' \<and> view m' = (c, k, b, i, q, l, scheduler_init s)"
    "\<exists>m'. stage_live env m = Inr m' \<and> view m' = (c, k, b, i, q, l, s) \<and> int_flag m'"
proof -
  note say = say_returns[OF d]
  obtain tr where "pic_unmask_irq (se_dev (be_shell env)) 0 t = Inr (tr t)" for t
    using that[of "\<lambda>t. case pic_unmask_irq (se_dev (be_shell env)) 0 t of Inr x \<Rightarrow> x"]
    by (simp add: pic_unmask_irq_def pic_line_def Let_def case_prod_beta)
  then show "\<exists>m'. stage_timer env m = Inr m' \<and> view m' = (c, k, b, i, q[0 := be_timer env], l, s)"
    using v by (simp add: stage_timer_def timer_init_def Let_def irq_register_def say set_shell_def view_def)
  show "\<exists>m'. stage_lfb env m = Inr m' \<and> view m' = (c, k, b, i, q, l, s)"
    using v by (simp add: stage_lfb_def Let_def say set_shell_def boot_banner_def view_def)
  show "\<exists>m'. stage_input env m = Inr m' \<and> view m' = (c, k, b, i, q[1 := be_keyboard env, 12 := be_mouse env], l, s)"
    using v by (simp add: stage_input_def mouse_install_def keyboard_install_def irq_register_def Let_def case_prod_beta say
        set_shell_def view_def)
qed (use v in \<open>simp_all add: stage_vfs_def stage_ledger_def stage_process_def syscall_init_def stage_scheduler_def stage_live_def
      say_returns[OF d] set_shell_def view_def\<close>)

text \<open>What the initialisation of the engines must leave alone.\<close>

definition init_keeps :: "'f shell \<Rightarrow> 'f shell \<Rightarrow> bool" where
  "init_keeps s t \<longleftrightarrow> kernel_keeps s t \<and> idt t = idt s \<and> irq_handlers t = irq_handlers s
     \<and> history t = history s \<and> shell_row t = shell_row s"

definition engines_keep :: "'f boot_env \<Rightarrow> bool" where
  "engines_keep env \<longleftrightarrow> (\<forall>f \<in> {be_explicit_init env, be_nlp_init env, be_neural_init env}. \<forall>s. \<exists>t. f s = Inr t \<and> init_keeps s t)"

lemma engines_init:
  "engines_keep env \<Longrightarrow>
   \<exists>t. ai_core_init iot (be_explicit_init env) (be_nlp_init env) (be_neural_init env) s = Inr t \<and> init_keeps s t"
  by (rule ai_core_init_keeps) (auto simp: engines_keep_def init_keeps_def kernel_keeps_def)

lemma stages_rest:
  assumes d: "transmitter_drains (se_dev (be_shell env))" and ai: "engines_keep env"
    and v: "view m = (c, k, b, i, q, l, s)"
  shows "\<exists>m'. each (\<lambda>stage. stage) [stage_lfb env, stage_timer env, stage_input env, stage_vfs env, stage_ledger env,
      stage_process env, stage_ai env, stage_scheduler env, stage_live env] m = Inr m'
    \<and> view m' = (c, k, b, i, q[0 := be_timer env, 1 := be_keyboard env, 12 := be_mouse env], ledger_init l,
        scheduler_init (process_init s)) \<and> int_flag m'"
proof -
  note V = stage_views[OF d]
  obtain m1 where m1: "stage_lfb env m = Inr m1" "view m1 = (c, k, b, i, q, l, s)" using V(1)[OF v] by blast
  obtain m2 where m2: "stage_timer env m1 = Inr m2" "view m2 = (c, k, b, i, q[0 := be_timer env], l, s)"
    using V(2)[OF m1(2)] by blast
  let ?q = "q[0 := be_timer env, 1 := be_keyboard env, 12 := be_mouse env]"
  obtain m3 where m3: "stage_input env m2 = Inr m3" "view m3 = (c, k, b, i, ?q, l, s)" using V(3)[OF m2(2)] by blast
  obtain m4 where m4: "stage_vfs env m3 = Inr m4" "view m4 = (c, k, b, i, ?q, l, s)" using V(4)[OF m3(2)] by blast
  obtain m5 where m5: "stage_ledger env m4 = Inr m5" "view m5 = (c, k, b, i, ?q, ledger_init l, s)" using V(5)[OF m4(2)] by blast
  obtain m6 where m6: "stage_process env m5 = Inr m6" "view m6 = (c, k, b, i, ?q, ledger_init l, process_init s)"
    using V(6)[OF m5(2)] by blast
  obtain t where t: "ai_core_init (se_iot (be_shell env)) (be_explicit_init env) (be_nlp_init env) (be_neural_init env) (sh m6) = Inr t"
    "init_keeps (sh m6) t" using engines_init[OF ai] by blast
  then obtain m7 where m7: "stage_ai env m6 = Inr m7" "view m7 = (c, k, b, i, ?q, ledger_init l, process_init s)"
    using m6(2) by (simp add: stage_ai_def say_returns[OF d] set_shell_def view_def init_keeps_def kernel_keeps_def)
  obtain m8 where m8: "stage_scheduler env m7 = Inr m8"
    "view m8 = (c, k, b, i, ?q, ledger_init l, scheduler_init (process_init s))" using V(7)[OF m7(2)] by blast
  obtain m9 where m9: "stage_live env m8 = Inr m9"
    "view m9 = (c, k, b, i, ?q, ledger_init l, scheduler_init (process_init s))" "int_flag m9" using V(8)[OF m8(2)] by blast
  from m1(1) m2(1) m3(1) m4(1) m5(1) m6(1) m7(1) m8(1) m9 show ?thesis by simp
qed

lemma each_append: "each f (xs @ ys) s = rbind (each f xs s) (each f ys)"
proof (induction xs arbitrary: s)
  case (Cons x xs)
  then show ?case by (cases "f x s") simp_all
qed simp

text \<open>What the boot loader, the linker and the engines have to provide.\<close>

definition boot_map :: "'f machine \<Rightarrow> u32 list \<Rightarrow> MB2_MmapEntry list" where
  "boot_map m ps = take 64 (concat (map (tag_entries (kmem (vm_of m))) ps))"

definition boot_ready :: "'f boot_env \<Rightarrow> u32 \<Rightarrow> u32 list \<Rightarrow> 'f machine \<Rightarrow> bool" where
  "boot_ready env addr ps m \<longleftrightarrow> transmitter_drains (se_dev (be_shell env)) \<and> fresh m
     \<and> tag_chain (kmem (vm_of m)) (addr + 0xC0000008) ps \<and> (\<forall>q \<in> set ps. tag_valid (kmem (vm_of m)) q)
     \<and> map_ok (boot_map m ps) \<and> unat (be_kernel_end env) \<le> 0x10000000 \<and> pools_in_image env
     \<and> engines_keep env"

lemma kmain_init_split:
  assumes "each (\<lambda>stage. stage)
      [stage_serial env, stage_magic env magic, stage_multiboot env addr, stage_gdt env, stage_idt env] m = Inr m1"
  shows "kmain_init env magic addr m =
    rbind (each (\<lambda>stage. stage) [stage_pmm env, stage_vmm env, stage_heap env, stage_arena env] m1)
      (each (\<lambda>stage. stage) [stage_lfb env, stage_timer env, stage_input env, stage_vfs env, stage_ledger env,
        stage_process env, stage_ai env, stage_scheduler env, stage_live env])" (is "_ = rbind (each _ ?mem m1) (each _ ?rest)")
  using assms each_append[of "\<lambda>stage. stage" "[stage_serial env, stage_magic env magic, stage_multiboot env addr,
    stage_gdt env, stage_idt env]" "?mem @ ?rest" m] each_append[of "\<lambda>stage. stage" ?mem ?rest m1]
  by (simp add: kmain_init_def stages_def)

lemma ledger_booted:
  "chain_inv (ledger_init l)" "ledger_get_count (ledger_init l) = 1" "contents (lq (ledger_init l)) = []"
  using init_inv[of l] by (simp_all add: ledger_init_def ledger_genesis_def ledger_get_count_def Let_def init_ok)

lemma kmain_init_ok:
  assumes r: "boot_ready env addr ps m"
  shows "case kmain_init env MULTIBOOT2_MAGIC addr m of
      Inl e \<Rightarrow> card (free_set (pmm_init (be_kernel_end env) boot_pmm (boot_map m ps))) < 65
    | Inr m' \<Rightarrow> (\<exists>fls. heap_inv (heap_of m') fls {}) \<and> int_flag m' \<and> gates_set env (sh m')
        \<and> irq_handlers (sh m') = (replicate 16 0)[0 := be_timer env, 1 := be_keyboard env, 12 := be_mouse env]
        \<and> chain_inv (tledger (sh m')) \<and> ledger_get_count (tledger (sh m')) = 1
        \<and> contents (lq (tledger (sh m'))) = [] \<and> current_process (tsched (sh m')) = None
        \<and> history (sh m') = history (sh m) \<and> shell_row (sh m') = shell_row (sh m)"
proof -
  have d: "transmitter_drains (se_dev (be_shell env))" and m: "fresh m"
    and tags: "tag_chain (kmem (vm_of m)) (addr + 0xC0000008) ps" "\<forall>q \<in> set ps. tag_valid (kmem (vm_of m)) q"
    and es: "map_ok (boot_map m ps)" and k: "unat (be_kernel_end env) \<le> 0x10000000" and pools: "pools_in_image env"
    and ai: "engines_keep env"
    using r by (auto simp: boot_ready_def)
  obtain m1 where m1: "each (\<lambda>stage. stage)
      [stage_serial env, stage_magic env MULTIBOOT2_MAGIC, stage_multiboot env addr, stage_gdt env, stage_idt env] m = Inr m1"
    and b1: "known (boot m1) = boot_map m ps" and v1: "vm_of m1 = vm_of m"
    and h1: "m_caches m1 = m_caches m" "m_heap_cursor m1 = m_heap_cursor m"
    and g1: "gates_set env (sh m1)" "irq_handlers (sh m1) = replicate 16 0" "current_process (tsched (sh m1)) = None"
      "history (sh m1) = history (sh m)" "shell_row (sh m1) = shell_row (sh m)"
    unfolding boot_map_def by (rule stages_tables[OF d m tags])
  let ?mem = "[stage_pmm env, stage_vmm env, stage_heap env, stage_arena env]"
  let ?rest = "[stage_lfb env, stage_timer env, stage_input env, stage_vfs env, stage_ledger env,
      stage_process env, stage_ai env, stage_scheduler env, stage_live env]"
  note run = kmain_init_split[OF m1]
  have "map_ok (known (boot m1))" "frames (vm_of m1) = boot_pmm" "length (m_caches m1) = 8"
    "\<forall>c \<in> set (m_caches m1). free_list c = 0" "m_heap_cursor m1 = HEAP_VIRT_BASE"
    using es m b1 v1 h1 by (simp_all add: fresh_def)
  note mem = stages_memory[OF d this(1) k pools this(2-5)]
  show ?thesis
  proof (cases "each (\<lambda>stage. stage) ?mem m1")
    case (Inl e)
    with mem b1 run show ?thesis by simp
  next
    case (Inr m2)
    with mem obtain fls where m2: "heap_inv (heap_of m2) fls {}" "idt (sh m2) = idt (sh m1)"
      "irq_handlers (sh m2) = replicate 16 0" "current_process (tsched (sh m2)) = None"
      "history (sh m2) = history (sh m)" "shell_row (sh m2) = shell_row (sh m)" using g1 by auto
    obtain m3 where m3: "each (\<lambda>stage. stage) ?rest m2 = Inr m3" "int_flag m3"
      and v3: "view m3 = (m_caches m2, m_heap_cursor m2, (boot m2, history (sh m), shell_row (sh m)), idt (sh m1),
        (replicate 16 0)[0 := be_timer env, 1 := be_keyboard env, 12 := be_mouse env], ledger_init (tledger (sh m2)),
        scheduler_init (process_init (tsched (sh m2))))"
      using stages_rest[OF d ai, of m2] m2 by (auto simp: view_def)
    have "heap_of m3 = heap_of m2"
      using view_heap[OF v3] by (simp add: heap_of_def vm_of_def scheduler_init_def process_init_def)
    moreover have "current_process (tsched (sh m3)) = None"
      using v3 m2(4) by (auto simp: view_def scheduler_init_def process_init_def)
    ultimately show ?thesis
      using run Inr m3 m2(1) v3 g1(1) by (auto simp: view_def gates_set_def ledger_booted)
  qed
qed

section \<open>Properties\<close>


text \<open>A machine with 32 MiB above the first, and a kernel image of 3 MiB.\<close>

definition sample_machine :: "unit machine" where
  "sample_machine = \<lparr>sh = sample_shell\<lparr>tsched := (process_init sample_sched)\<lparr>pvm := \<lparr>kmem = sample_boot_mem, frames = boot_pmm, kernel_pd = 0,
       cr3 = 0, flushed = []\<rparr>, pgdt := boot_gdt\<rparr>\<rparr>,
     boot = zero_boot, m_caches = replicate 8 \<lparr>free_list = 0, obj_size = 0, total = 0, used = 0\<rparr>, m_heap_cursor = HEAP_VIRT_BASE,
     g_ai_arena = g_lang_arena sample_shell, g_tmp_arena = g_lang_arena sample_shell,
     m_vfs = \<lparr>fs_root = 0, nodes = (\<lambda>_. undefined), buffers = (\<lambda>_. 0), led = blank_ledger\<rparr>, font_hdr = 0, int_flag = False\<rparr>"

definition sample_boot_env :: "unit boot_env" where
  "sample_boot_env = \<lparr>be_shell = sample_shell_env, be_gdt_addr = 0xC0110000, be_tss_addr = 0xC0110040, be_isr = (\<lambda>n. 0xC0101000 + of_nat n),
     be_irq = (\<lambda>n. 0xC0102000 + of_nat n), be_isr128 = 0xC0103000, be_idt_addr = 0xC0111000, be_kernel_end = 0x400000,
     be_lang_pool = 0xC0200000, be_ai_pool = 0xC0280000, be_tmp_pool = 0xC0300000, be_font_arg = 0, be_stamp = [],
     be_timer = 0xC0104000, be_keyboard = 0xC0105000, be_mouse = 0xC0106000, be_explicit_init = Inr,
     be_nlp_init = Inr, be_neural_init = Inr, be_interrupt = Inr\<rparr>"

abbreviation (input) sample_map_entry :: MB2_MmapEntry where
  "sample_map_entry \<equiv> \<lparr>base_addr = 0x100000, len = 0x2000000, mtype = 1, reserved = 0\<rparr>"

lemma boot_entry_ok: "map_ok [sample_map_entry]"
  by (simp add: map_ok_def disjoint_map_def entry_ok_def)

lemma boot_frames: "65 \<le> card (free_set (pmm_init 0x400000 boot_pmm [sample_map_entry]))"
proof -
  have "entry_frames sample_map_entry = Some (0x100, 0x2000)"
    by (simp add: entry_frames_def MB2_MMAP_AVAILABLE_def)
  then have f: "free_set (pmm_init 0x400000 boot_pmm [sample_map_entry]) = region 0x100 0x2100 - kernel_frames 0x400000"
    using pmm_init_spec[of boot_pmm "[sample_map_entry]" "0x400000"] by (simp add: boot_pmm_def disjoint_map_def entry_region_def)
  have "of_nat ` {0x500..<0x600} \<subseteq> region 0x100 0x2100 - kernel_frames 0x400000"
    by (auto simp: region_def kernel_frames_def FRAME_SIZE_def FRAMES_TOTAL_def word_le_nat_alt word_less_nat_alt
        unat_of_nat_eq_32)
  then have "card ((of_nat :: nat \<Rightarrow> u32) ` {0x500..<0x600}) \<le> card (region 0x100 0x2100 - kernel_frames 0x400000)"
    by (intro card_mono) simp_all
  moreover have "inj_on (of_nat :: nat \<Rightarrow> u32) {0x500..<0x600}"
    by (rule inj_on_inverseI[of _ unat]) (simp add: unat_of_nat_eq_32)
  ultimately show ?thesis by (simp add: f card_image)
qed

lemma sample_ready: "boot_ready sample_boot_env 0x1000 [0xC0001008, 0xC0001028] sample_machine"
  "boot_map sample_machine [0xC0001008, 0xC0001028] = [sample_map_entry]"
proof -
  have v: "kmem (vm_of sample_machine) = sample_boot_mem" by (simp add: vm_of_def sample_machine_def)
  have a: "(0x1000 :: u32) + 0xC0000008 = 0xC0001008" by simp
  show es: "boot_map sample_machine [0xC0001008, 0xC0001028] = [sample_map_entry]"
    unfolding boot_map_def by (simp only: v sample_tags) simp
  have "fresh sample_machine"
    by (simp add: fresh_def sample_machine_def vm_of_def boot_ok_def known_def zero_boot_def available_def boot_gdt_def
        GDT_ENTRIES_def process_init_def sample_sched_simps)
  moreover have "tag_chain (kmem (vm_of sample_machine)) (0x1000 + 0xC0000008) [0xC0001008, 0xC0001028]"
    "\<forall>q \<in> set [0xC0001008, 0xC0001028]. tag_valid (kmem (vm_of sample_machine)) q"
    using sample_chain by (simp_all only: v a list.set ball_simps simp_thms)
  moreover have "pools_in_image sample_boot_env"
    by (simp add: pools_in_image_def sample_boot_env_def ARENA_LANG_SIZE_def ARENA_AI_SIZE_def ARENA_TMP_SIZE_def)
  moreover have "engines_keep sample_boot_env"
    by (simp add: engines_keep_def sample_boot_env_def init_keeps_def kernel_keeps_def)
  moreover have "transmitter_drains (se_dev (be_shell sample_boot_env))" "unat (be_kernel_end sample_boot_env) \<le> 0x10000000"
    using sample_drains by (simp_all add: sample_boot_env_def)
  ultimately show "boot_ready sample_boot_env 0x1000 [0xC0001008, 0xC0001028] sample_machine"
    unfolding boot_ready_def es by (intro conjI boot_entry_ok)
qed

lemma sample_has_frames: "\<not> card (free_set (pmm_init (be_kernel_end sample_boot_env) boot_pmm
    (boot_map sample_machine [0xC0001008, 0xC0001028]))) < 65"
  using boot_frames by (simp add: sample_ready(2) sample_boot_env_def)


end
