(* ===== verification/Kernel_Types.thy ===== *)
theory Kernel_Types
  imports Kmain String_Buffers
begin

text \<open>
  The types of the kernel's state. The arrays of the C code have fixed sizes, and what it stores as an index or
  a pointer into them must stay inside; in the model these are lists and numbers, so that this is a property:
  \<open>typed\<close>. Every stage of the boot, every interrupt, key, system call and operation on processes keeps it.
\<close>

section \<open>Typed states\<close>

definition slot_ok :: "nat option \<Rightarrow> bool" where
  "slot_ok p \<longleftrightarrow> (\<forall>i. p = Some i \<longrightarrow> i < MAX_PROCESSES)"

definition typed_process :: "Process \<Rightarrow> bool" where
  "typed_process p \<longleftrightarrow> length (pname p) = 32 \<and> slot_ok (pnext p)"

definition typed_sched :: "sched \<Rightarrow> bool" where
  "typed_sched s \<longleftrightarrow> length (process_table s) = MAX_PROCESSES \<and> (\<forall>p \<in> set (process_table s). typed_process p)
     \<and> length (run_queues s) = NUM_PRIO \<and> (\<forall>q \<in> set (run_queues s). slot_ok q)
     \<and> slot_ok (current_process s) \<and> slot_ok (current_proc s)"

definition typed_block :: "LedgerBlock \<Rightarrow> bool" where
  "typed_block b \<longleftrightarrow> length (target b) = LEDGER_TARGET_LEN \<and> length (prev_hash0 b) = 32 \<and> length (prev_hash1 b) = 32
     \<and> length (block_hash b) = 32"

definition typed_ledger :: "ledger \<Rightarrow> bool" where
  "typed_ledger l \<longleftrightarrow> (\<forall>i. typed_block (ledger_blocks l i)) \<and> ledger_count l \<le> LEDGER_MAX_BLOCKS
     \<and> length (stream_head l) = 2 \<and> (\<forall>h \<in> set (stream_head l). h < LEDGER_MAX_BLOCKS) \<and> queue_inv (lq l)"

definition typed_kern :: "'a kern_scheme \<Rightarrow> bool" where
  "typed_kern s \<longleftrightarrow> length (irq_handlers s) = 16 \<and> typed_sched (tsched s) \<and> typed_ledger (tledger s)
     \<and> length (ai_response_buf s) = AI_RESPONSE_BUF_SIZE"

definition typed :: "'f shell \<Rightarrow> bool" where
  "typed s \<longleftrightarrow> typed_kern s \<and> length (input_buf s) = SHELL_BUF_LEN \<and> 0 \<le> sh_cursor s \<and> sh_cursor s < int SHELL_BUF_LEN
     \<and> length (history s) = nat HISTORY_DEPTH \<and> (\<forall>b \<in> set (history s). length b = SHELL_BUF_LEN) \<and> row_ok s"

lemmas shapes = SHELL_BUF_LEN_def HISTORY_DEPTH_def AI_RESPONSE_BUF_SIZE_def MAX_PROCESSES_def NUM_PRIO_def
  LEDGER_TARGET_LEN_def LEDGER_MAX_BLOCKS_def

lemma slot_ok_simps [simp]: "slot_ok None" "slot_ok (Some i) \<longleftrightarrow> i < MAX_PROCESSES"
  by (simp_all add: slot_ok_def)

lemma ball_update: "\<forall>x \<in> set xs. P x \<Longrightarrow> P y \<Longrightarrow> \<forall>x \<in> set (xs[i := y]). P x"
  using set_update_subset_insert[of xs i y] by blast

section \<open>Processes and run queues\<close>

lemma typed_slot: "typed_sched s \<Longrightarrow> i < MAX_PROCESSES \<Longrightarrow> typed_process (process_table s ! i)"
  by (simp add: typed_sched_def)

lemma typed_head: "typed_sched s \<Longrightarrow> prio < NUM_PRIO \<Longrightarrow> slot_ok (run_queues s ! prio)"
  by (simp add: typed_sched_def)

lemma typed_set_slot: "typed_sched s \<Longrightarrow> typed_process p \<Longrightarrow> typed_sched (set_slot i p s)"
  using ball_update[of "process_table s" typed_process p i] by (simp add: typed_sched_def set_slot_def)

lemma typed_set_next: "typed_sched s \<Longrightarrow> p < MAX_PROCESSES \<Longrightarrow> slot_ok q \<Longrightarrow> typed_sched (set_next p q s)"
  using typed_slot[of s p] unfolding set_next_def by (intro typed_set_slot) (auto simp: typed_process_def)

lemma typed_set_state: "typed_sched s \<Longrightarrow> p < MAX_PROCESSES \<Longrightarrow> typed_sched (set_state p st s)"
  using typed_slot[of s p] unfolding set_state_def by (intro typed_set_slot) (auto simp: typed_process_def)

lemma typed_set_head: "typed_sched s \<Longrightarrow> slot_ok q \<Longrightarrow> typed_sched (set_head prio q s)"
  using ball_update[of "run_queues s" slot_ok q prio] by (simp add: typed_sched_def set_head_def)

lemma typed_pick_from: "n \<le> NUM_PRIO \<Longrightarrow> typed_sched s \<Longrightarrow> pick_from n s = (r, s') \<Longrightarrow> typed_sched s' \<and> slot_ok r"
proof (induction n arbitrary: s)
  case (Suc prio)
  show ?case
  proof (cases "run_queues s ! prio")
    case None
    with Suc show ?thesis by simp
  next
    case (Some p)
    then have p: "p < MAX_PROCESSES" using typed_head[OF Suc.prems(2), of prio] Suc.prems(1) by simp
    have t: "typed_sched (set_head prio (pnext (process_table s ! p)) s)"
      using typed_slot[OF Suc.prems(2) p] by (intro typed_set_head Suc.prems(2)) (simp add: typed_process_def)
    have "(if pstate (process_table s ! p) = PROC_READY then (Some p, set_head prio (pnext (process_table s ! p)) s)
        else pick_from prio (set_head prio (pnext (process_table s ! p)) s)) = (r, s')"
      using Suc.prems(3) by (simp add: Some Let_def set_head_def split: if_splits)
    with Suc.IH[OF _ t] Suc.prems(1) t p show ?thesis
      by (cases "pstate (process_table s ! p) = PROC_READY") auto
  qed
qed simp

lemma typed_switch:
  assumes "typed_sched s" "prev < MAX_PROCESSES" "next < MAX_PROCESSES"
  shows "typed_sched (switch_to prev next s)"
proof -
  let ?s1 = "set_state next PROC_RUNNING (s\<lparr>current_process := Some next\<rparr>)"
  have "typed_sched (s\<lparr>current_process := Some next\<rparr>)" using assms(1,3) by (simp add: typed_sched_def)
  then have 1: "typed_sched ?s1" using assms(3) by (rule typed_set_state)
  then have 2: "typed_sched (if pstate (process_table ?s1 ! prev) = PROC_RUNNING then set_state prev PROC_READY ?s1 else ?s1)"
    (is "typed_sched ?s2") using assms(2) by (simp add: typed_set_state)
  have "typed_sched (t\<lparr>pgdt := g\<rparr>) = typed_sched t" "typed_sched (t\<lparr>pvm := v\<rparr>) = typed_sched t"
    "typed_sched (context_switch a b t) = typed_sched t" for t g v a b
    by (simp_all add: typed_sched_def context_switch_def)
  with 2 show ?thesis unfolding switch_to_def Let_def by simp
qed

lemma typed_tick: "typed_sched s \<Longrightarrow> scheduler_tick s = Inr s' \<Longrightarrow> typed_sched s'"
proof (cases "current_process s")
  case (Some cur)
  assume s: "typed_sched s" "scheduler_tick s = Inr s'"
  then have c: "cur < MAX_PROCESSES" using Some by (simp add: typed_sched_def)
  let ?s1 = "set_slot cur ((process_table s ! cur)\<lparr>ticks_run := ticks_run (process_table s ! cur) + 1\<rparr>) s"
  have 1: "typed_sched ?s1"
    using typed_slot[OF s(1) c] by (intro typed_set_slot s(1)) (simp add: typed_process_def)
  obtain r s2 where p: "pick_next ?s1 = (r, s2)" by fastforce
  then have "typed_sched s2" "slot_ok r" using typed_pick_from[OF order.refl 1] by (simp_all add: pick_next_def)
  with s Some 1 p c show ?thesis
    by (cases r) (auto simp: scheduler_tick_def Let_def typed_switch split: if_splits)
qed (simp add: scheduler_tick_def)

text \<open>The other operations of the process table and the scheduler. Pointers to processes given to them point into
  the table.\<close>

inductive sched_op :: "sched \<Rightarrow> sched \<Rightarrow> bool" where
  create: "process_create name ent rng prio s = Inr (i, s') \<Longrightarrow> sched_op s s'"
| spawn: "process_spawn_ring3 name ent s = Inr (i, s') \<Longrightarrow> sched_op s s'"
| kill: "sched_op s (process_kill n s)"
| current: "slot_ok p \<Longrightarrow> sched_op s (process_set_current p s)"
| add: "p < MAX_PROCESSES \<Longrightarrow> scheduler_add p s = Some (Inr s') \<Longrightarrow> sched_op s s'"
| remove: "p < MAX_PROCESSES \<Longrightarrow> scheduler_remove p s = Some (Inr s') \<Longrightarrow> sched_op s s'"
| block: "p < MAX_PROCESSES \<Longrightarrow> scheduler_block p s = Some (Inr s') \<Longrightarrow> sched_op s s'"
| unblock: "p < MAX_PROCESSES \<Longrightarrow> scheduler_unblock p s = Some (Inr s') \<Longrightarrow> sched_op s s'"
| start: "scheduler_start s = Inr s' \<Longrightarrow> sched_op s s'"

lemma typed_other_fields [simp]:
  "typed_sched (s\<lparr>pgdt := g\<rparr>) = typed_sched s" "typed_sched (s\<lparr>pvm := v\<rparr>) = typed_sched s"
  "typed_sched (s\<lparr>pid_counter := n\<rparr>) = typed_sched s" "typed_sched (s\<lparr>scheduler_active := b\<rparr>) = typed_sched s"
  by (simp_all add: typed_sched_def)

lemma name_length: "length (strncpy_into (replicate 32 0) name 31) = 32"
  by (simp add: strncpy_into_def)

lemma typed_zero: "typed_process zero_process"
  by (simp add: typed_process_def zero_process_def)

lemma typed_create: "typed_sched s \<Longrightarrow> process_create name ent rng prio s = Inr (i, s') \<Longrightarrow> typed_sched s'"
  by (auto simp: process_create_def process_next_pid_def rbind_Inr_iff Let_def typed_process_def zero_process_def name_length
      intro!: typed_set_slot split: if_splits)

lemma typed_spawn: "typed_sched s \<Longrightarrow> process_spawn_ring3 name ent s = Inr (i, s') \<Longrightarrow> typed_sched s'"
  by (auto simp: process_spawn_ring3_def process_next_pid_def rbind_Inr_iff Let_def typed_process_def zero_process_def name_length
      case_prod_beta intro!: typed_set_slot)

lemma typed_kill: "typed_sched s \<Longrightarrow> typed_sched (process_kill n s)"
proof (cases "process_get_by_pid n s")
  case (Some i)
  assume s: "typed_sched s"
  have "i < length (process_table s)" using Some first_slot_Some by (fastforce simp: process_get_by_pid_def)
  then have "typed_process (process_table s ! i)" using s by (simp add: typed_sched_def)
  with Some s show ?thesis by (simp add: process_kill_def typed_set_slot typed_process_def)
qed (simp add: process_kill_def)

text \<open>The searches through a ring only meet slots of the table.\<close>

lemma find_tail_slot:
  "find_tail tab h t = Some r \<Longrightarrow> r = Inr x \<Longrightarrow> t < n \<Longrightarrow> \<forall>p \<in> set tab. slot_ok (pnext p) \<Longrightarrow> length tab = n \<Longrightarrow> n = MAX_PROCESSES \<Longrightarrow> x < n"
proof (induction tab h t r rule: find_tail.raw_induct[rotated, consumes 1, case_names step])
  case (step f tab h t r)
  show ?case
  proof (cases "pnext (tab ! t)")
    case (Some m)
    have "slot_ok (pnext (tab ! t))" using step.prems by simp
    with Some step show ?thesis by (auto split: if_splits)
  qed (use step in auto)
qed

lemma prio_bound: "prio_of p s < NUM_PRIO"
  using word_and_le1[of "priority (process_table s ! p)" "0x0F"] by (simp add: prio_of_def NUM_PRIO_def word_le_nat_alt)

lemma typed_add: "typed_sched s \<Longrightarrow> p < MAX_PROCESSES \<Longrightarrow> scheduler_add p s = Some (Inr s') \<Longrightarrow> typed_sched s'"
proof -
  assume s: "typed_sched s" and p: "p < MAX_PROCESSES" and a: "scheduler_add p s = Some (Inr s')"
  show ?thesis
  proof (cases "run_queues s ! prio_of p s")
    case None
    with a p s show ?thesis by (auto simp: scheduler_add_def Let_def intro!: typed_set_state typed_set_next typed_set_head)
  next
    case (Some h)
    have h: "h < MAX_PROCESSES" using typed_head[OF s prio_bound] Some by (metis slot_ok_simps(2))
    have tab: "\<forall>q \<in> set (process_table s). slot_ok (pnext q)" "length (process_table s) = MAX_PROCESSES"
      using s by (simp_all add: typed_sched_def typed_process_def)
    from a Some obtain t where t: "find_tail (process_table s) h h = Some (Inr t)"
      "s' = set_state p PROC_READY (set_next p (Some h) (set_next t (Some p) s))"
      by (auto simp: scheduler_add_def Let_def split: option.splits sum.splits)
    have "t < MAX_PROCESSES" using find_tail_slot[OF t(1) refl h tab refl] .
    with t(2) s h p show ?thesis by (simp add: typed_set_state typed_set_next)
  qed
qed

lemma find_before_slot:
  "find_before tab h p cur prev = Some r \<Longrightarrow> r = Inr (Found (Some x)) \<Longrightarrow> cur < n \<Longrightarrow> \<forall>y. prev = Some y \<longrightarrow> y < n \<Longrightarrow>
   \<forall>q \<in> set tab. slot_ok (pnext q) \<Longrightarrow> length tab = n \<Longrightarrow> n = MAX_PROCESSES \<Longrightarrow> x < n"
proof (induction tab h p cur prev r rule: find_before.raw_induct[rotated, consumes 1, case_names step])
  case (step f tab h p cur prev r)
  show ?case
  proof (cases "pnext (tab ! cur)")
    case (Some m)
    have "slot_ok (pnext (tab ! cur))" using step.prems by simp
    with Some step show ?thesis by (auto split: if_splits)
  qed (use step in \<open>auto split: if_splits\<close>)
qed

lemma typed_remove: "typed_sched s \<Longrightarrow> p < MAX_PROCESSES \<Longrightarrow> scheduler_remove p s = Some (Inr s') \<Longrightarrow> typed_sched s'"
proof -
  assume s: "typed_sched s" and p: "p < MAX_PROCESSES" and a: "scheduler_remove p s = Some (Inr s')"
  show ?thesis
  proof (cases "run_queues s ! prio_of p s")
    case (Some h)
    have h: "h < MAX_PROCESSES" using typed_head[OF s prio_bound] Some by (metis slot_ok_simps(2))
    have tab: "\<forall>q \<in> set (process_table s). slot_ok (pnext q)" "length (process_table s) = MAX_PROCESSES"
      using s by (simp_all add: typed_sched_def typed_process_def)
    have nx: "slot_ok (pnext (process_table s ! p))" using typed_slot[OF s p] by (simp add: typed_process_def)
    from a Some obtain f where f: "find_before (process_table s) h p h None = Some (Inr f)"
      by (auto simp: scheduler_remove_def Let_def split: option.splits sum.splits)
    show ?thesis
    proof (cases f)
      case (Found prev)
      have "q < MAX_PROCESSES" if "prev = Some q" for q
        using find_before_slot[OF f _ h _ tab refl, of q] Found that by simp
      with a Some f Found s p nx show ?thesis
        by (cases prev) (auto simp: scheduler_remove_def Let_def intro!: typed_set_next typed_set_head)
    qed (use a Some f s in \<open>auto simp: scheduler_remove_def Let_def\<close>)
  qed (use a s in \<open>auto simp: scheduler_remove_def Let_def\<close>)
qed

lemma typed_start: "typed_sched s \<Longrightarrow> scheduler_start s = Inr s' \<Longrightarrow> typed_sched s'"
proof -
  assume s: "typed_sched s" and a: "scheduler_start s = Inr s'"
  obtain r s2 where p: "pick_next (s\<lparr>scheduler_active := True\<rparr>) = (r, s2)" by fastforce
  then have t: "typed_sched s2" "slot_ok r"
    using typed_pick_from[OF order.refl, of "s\<lparr>scheduler_active := True\<rparr>"] s by (simp_all add: pick_next_def)
  then have "typed_sched (s2\<lparr>current_process := r\<rparr>)" by (simp add: typed_sched_def)
  with a p t(2) show ?thesis by (cases r) (auto simp: scheduler_start_def Let_def intro: typed_set_state)
qed

lemma typed_sched_op: "sched_op s s' \<Longrightarrow> typed_sched s \<Longrightarrow> typed_sched s'"
proof (induction rule: sched_op.induct)
  case (current p s)
  then show ?case by (simp add: typed_sched_def process_set_current_def)
next
  case (block p s s')
  then show ?case using typed_remove[OF typed_set_state] by (simp add: scheduler_block_def)
next
  case (unblock p s s')
  then show ?case using typed_add[OF typed_set_state] by (simp add: scheduler_unblock_def)
qed (auto intro: typed_create typed_spawn typed_kill typed_add typed_remove typed_start)

section \<open>The ledger\<close>

lemma typed_zero_block: "typed_block zero_block"
  by (simp add: typed_block_def zero_block_def)

lemma target_length: "length (strncpy_into (target zero_block) xs (LEDGER_TARGET_LEN - Suc 0)) = LEDGER_TARGET_LEN"
  by (simp add: strncpy_into_length zero_block_def)

lemma zero_hashes: "length (prev_hash0 zero_block) = 32" "length (prev_hash1 zero_block) = 32" "length (block_hash zero_block) = 32"
  by (simp_all add: zero_block_def)

lemmas block_lengths = typed_block_def target_length zero_hashes sha256_length

lemma typed_genesis: "typed_ledger l \<Longrightarrow> typed_ledger (ledger_init l)"
  by (simp add: typed_ledger_def ledger_init_def ledger_genesis_def Let_def block_lengths init_ok)
    (simp add: LEDGER_MAX_BLOCKS_def)

lemma typed_enqueue: "typed_ledger l \<Longrightarrow> typed_ledger (ledger_enqueue l a st tg ts)"
proof -
  assume l: "typed_ledger l"
  obtain ev where e: "ledger_enqueue l a st tg ts = l\<lparr>lq := snd (ledger_queue_push (lq l) ev)\<rparr>"
    by (simp add: ledger_enqueue_def Let_def)
  have "queue_inv (snd (ledger_queue_push (lq l) ev))"
    using l push_ok(1)[of "lq l" ev] by (simp add: typed_ledger_def) (metis prod.collapse)
  with l show ?thesis by (simp add: e typed_ledger_def)
qed

lemma typed_add_block:
  assumes l: "typed_ledger l"
  shows "typed_ledger (add_block l ev)"
proof -
  define n where "n = (if ledger_count l \<ge> LEDGER_MAX_BLOCKS then 1 else ledger_count l)"
  have n: "n < LEDGER_MAX_BLOCKS" by (simp add: n_def LEDGER_MAX_BLOCKS_def not_le)
  then have n1: "n + 1 \<le> LEDGER_MAX_BLOCKS" by (simp add: inc_le)
  have f: "stream_head (add_block l ev) = (stream_head l)[unat (ev_stream_id ev AND 1) := n]"
    "ledger_count (add_block l ev) = n + 1" "lq (add_block l ev) = lq l"
    by (simp_all add: add_block_def Let_def n_def)
  have b: "length (target (ledger_blocks l i)) = LEDGER_TARGET_LEN" "length (prev_hash0 (ledger_blocks l i)) = 32"
    "length (prev_hash1 (ledger_blocks l i)) = 32" "length (block_hash (ledger_blocks l i)) = 32" for i
    using l by (simp_all add: typed_ledger_def typed_block_def)
  have "typed_block (ledger_blocks (add_block l ev) i)" for i
  proof (cases "i = n")
    case True
    show ?thesis
      unfolding add_block_def Let_def True
      by (cases "stream_head l ! 0 = stream_head l ! 1") (simp_all add: n_def b block_lengths)
  next
    case False
    then have "ledger_blocks (add_block l ev) i = ledger_blocks l i"
      by (cases "LEDGER_MAX_BLOCKS \<le> ledger_count l") (simp_all add: add_block_def Let_def n_def)
    then show ?thesis using l by (simp add: typed_ledger_def)
  qed
  moreover have "\<forall>h \<in> set ((stream_head l)[unat (ev_stream_id ev AND 1) := n]). h < LEDGER_MAX_BLOCKS"
    using l n ball_update[of "stream_head l" "\<lambda>h. h < LEDGER_MAX_BLOCKS"] by (simp add: typed_ledger_def)
  ultimately show ?thesis using l n1 by (simp add: typed_ledger_def f)
qed

lemma typed_flush: "ledger_flush_task l = Some l' \<Longrightarrow> typed_ledger l \<Longrightarrow> typed_ledger l'"
proof (induction l l' rule: ledger_flush_task.raw_induct[rotated, consumes 1, case_names step])
  case (step f l l')
  obtain r q where p: "ledger_queue_pop (lq l) = (r, q)" by fastforce
  have "queue_inv q" using pop_ok(1)[OF _ p] step.prems by (simp add: typed_ledger_def)
  then have "typed_ledger (l\<lparr>lq := q\<rparr>)" using step.prems by (simp add: typed_ledger_def)
  with p step show ?case by (cases r) (auto simp: typed_add_block)
qed

section \<open>Interrupts and system calls\<close>

lemma typed_timer: "typed_kern s \<Longrightarrow> timer_irq_handler s = Inr s' \<Longrightarrow> typed_kern s'"
  by (auto simp: timer_irq_handler_def typed_kern_def rbind_Inr_iff Let_def split: if_splits option.splits
      intro: typed_tick typed_flush)

text \<open>What the calls into code outside the model have to keep.\<close>

definition env_typed :: "sys_env \<Rightarrow> bool" where
  "env_typed env \<longleftrightarrow> (\<forall>s s'. env_int20 env s = Inr s' \<longrightarrow> typed_sched s \<longrightarrow> typed_sched s')
     \<and> (\<forall>s s'. env_wake env s = Inr s' \<longrightarrow> typed_kern s \<longrightarrow> typed_kern s')
     \<and> (\<forall>w h s r s'. env_surface_create env w h s = Inr (r, s') \<longrightarrow> typed_kern s \<longrightarrow> typed_kern s')
     \<and> (\<forall>p d s s'. env_surface_map env p d s = Inr s' \<longrightarrow> typed_kern s \<longrightarrow> typed_kern s')"

lemma typed_sleep:
  "sleep_loop wake until s = Some r \<Longrightarrow> r = Inr s' \<Longrightarrow> \<forall>s s'. wake s = Inr s' \<longrightarrow> typed_kern s \<longrightarrow> typed_kern s' \<Longrightarrow>
   typed_kern s \<Longrightarrow> typed_kern s'"
proof (induction wake until s r rule: sleep_loop.raw_induct[rotated, consumes 1, case_names step])
  case (step f wake until s r)
  show ?case
  proof (cases "system_ticks s < until")
    case True
    with step show ?thesis by (cases "wake s") auto
  qed (use step in auto)
qed

lemma typed_fields [simp]:
  "typed_kern (s\<lparr>umem := m\<rparr>) = typed_kern s" "typed_kern (s\<lparr>ports := tr\<rparr>) = typed_kern s"
  by (simp_all add: typed_kern_def)

lemma typed_exit: "env_typed env \<Longrightarrow> typed_kern s \<Longrightarrow> sys_exit env a b c s = Inr (v, s') \<Longrightarrow> typed_kern s'"
proof -
  assume e: "env_typed env" and s: "typed_kern s" and x: "sys_exit env a b c s = Inr (v, s')"
  then obtain p sch where y: "scheduler_yield (env_int20 env) (process_kill (pid (process_table (tsched s) ! p)) (tsched s)) = Inr sch"
    "s' = s\<lparr>tsched := sch\<rparr>" by (auto simp: sys_exit_def Let_def rbind_Inr_iff split: option.splits)
  let ?k = "process_kill (pid (process_table (tsched s) ! p)) (tsched s)"
  have k: "typed_sched ?k" using s by (simp add: typed_kern_def typed_kill)
  have "typed_sched (case current_process ?k of None \<Rightarrow> ?k | Some q \<Rightarrow> set_slot q ((process_table ?k ! q)\<lparr>ticks_run := 0\<rparr>) ?k)"
  proof (cases "current_process ?k")
    case (Some q)
    then have "typed_process (process_table ?k ! q)" using k by (intro typed_slot) (auto simp: typed_sched_def)
    with Some k show ?thesis by (simp add: typed_set_slot typed_process_def)
  qed (simp add: k)
  with y e have "typed_sched sch" by (auto simp: scheduler_yield_def env_typed_def)
  with s y(2) show ?thesis by (simp add: typed_kern_def)
qed

lemma typed_handlers:
  assumes e: "env_typed env" and s: "typed_kern s"
  shows "sys_open env a b c s = Inr (v, s') \<Longrightarrow> typed_kern s'" "sys_map_surface env a b c s = Inr (v, s') \<Longrightarrow> typed_kern s'"
    "sys_submit_surface env a b c s = Inr (v, s') \<Longrightarrow> typed_kern s'" "sys_sleep env a b c s = Inr (v, s') \<Longrightarrow> typed_kern s'"
    "sys_ai_query env a b c s = Inr (v, s') \<Longrightarrow> typed_kern s'" "sys_ledger_read env a b c s = Inr (v, s') \<Longrightarrow> typed_kern s'"
proof -
  show "sys_open env a b c s = Inr (v, s') \<Longrightarrow> typed_kern s'"
    using s by (auto simp: sys_open_def rbind_Inr_iff typed_kern_def typed_enqueue split: if_splits)
  show "sys_map_surface env a b c s = Inr (v, s') \<Longrightarrow> typed_kern s'"
    using e s unfolding env_typed_def by (fastforce simp: sys_map_surface_def rbind_Inr_iff split: if_splits option.splits)
  show "sys_submit_surface env a b c s = Inr (v, s') \<Longrightarrow> typed_kern s'" using s by (auto simp: sys_submit_surface_def)
  show "sys_sleep env a b c s = Inr (v, s') \<Longrightarrow> typed_kern s'"
    using e s typed_sleep[of "env_wake env" _ s _ s', OF _ refl]
    by (auto simp: sys_sleep_def timer_sleep_ms_def Let_def rbind_Inr_iff env_typed_def split: option.splits)
  show "sys_ai_query env a b c s = Inr (v, s') \<Longrightarrow> typed_kern s'"
    using s by (auto simp: sys_ai_query_def rbind_Inr_iff Let_def typed_kern_def AI_RESPONSE_BUF_SIZE_def split: if_splits dest: ai_query_length)
  show "sys_ledger_read env a b c s = Inr (v, s') \<Longrightarrow> typed_kern s'"
    using s by (auto simp: sys_ledger_read_def split: option.splits)
qed

lemma typed_dispatch:
  assumes e: "env_typed env" and s: "typed_kern s" and d: "syscall_dispatch env regs s = Inr (v, regs', s')"
  shows "typed_kern s'"
proof (cases "r_eax regs \<ge> SYSCALL_COUNT")
  case True
  with d s show ?thesis by (simp add: syscall_dispatch_def Let_def)
next
  case False
  then have n: "unat (r_eax regs) < 14" by (simp add: SYSCALL_COUNT_def word_le_nat_alt)
  from False d obtain r where h: "(syscall_table env ! unat (r_eax regs)) (r_ebx regs) (r_ecx regs) (r_edx regs) s = Inr (r, s')"
    by (auto simp: syscall_dispatch_def Let_def rbind_Inr_iff)
  have "unat (r_eax regs) \<in> {0, 1, 2, 3, 4, 5, 6, 7, 8, 9, 10, 11, 12, 13}" using n by simp presburger
  with h s typed_exit[OF e s] typed_handlers[OF e s] show ?thesis
    by (auto simp: syscall_table_def sys_read_def sys_write_def sys_close_def sys_getpid_def sys_fork_def
        sys_get_input_def sys_sbrk_def)
qed

section \<open>The shell\<close>

interpretation types: framed "\<lambda>s s'. typed s \<longrightarrow> typed s'"
  by unfold_locales auto

lemma shell_fields [simp]:
  "typed (s\<lparr>ports := tr\<rparr>) = typed s" "typed (s\<lparr>g_lang_arena := ar\<rparr>) = typed s" "typed (s\<lparr>sh_fb := fb\<rparr>) = typed s"
  "typed (s\<lparr>screen_calls := cs\<rparr>) = typed s" "typed (s\<lparr>tick_hz := hz\<rparr>) = typed s"
  "typed (s\<lparr>tsched := (tsched s)\<lparr>pvm := v\<rparr>\<rparr>) = typed s" "typed (s\<lparr>tsched := (tsched s)\<lparr>pgdt := g\<rparr>\<rparr>) = typed s"
  by (simp_all add: typed_def typed_kern_def row_ok_def)

lemma keeps_typed: "kept shell_keeps s r \<Longrightarrow> kept (\<lambda>s s'. typed s \<longrightarrow> typed s') s r"
  by (auto simp: kept_def shell_keeps_def typed_def typed_kern_def AI_RESPONSE_BUF_SIZE_def)

lemma put_char_typed: "kept (\<lambda>s s'. typed s \<longrightarrow> typed s') s (put_char i c s)"
  by (auto simp: put_char_def typed_def typed_kern_def row_ok_def)

lemma remember_typed: "kept (\<lambda>s s'. typed s \<longrightarrow> typed s') s (if b then remember s else Inr s)"
proof -
  have "typed s'" if "remember s = Inr s'" "typed s" for s'
  proof -
    let ?i = "hist_count s smod HISTORY_DEPTH"
    have i: "0 \<le> ?i" "s' = s\<lparr>history := (history s)[nat ?i := strncpy_into (history s ! nat ?i) (chars (input_buf s)) (SHELL_BUF_LEN - 1)],
        hist_count := hist_count s + 1\<rparr>" using that(1) by (auto simp: remember_def Let_def split: if_splits)
    have "nat ?i < length (history s)"
      using i(1) that(2) by (auto simp: typed_def HISTORY_DEPTH_def signed_modulo_int_def sgn_if nat_less_iff split: if_splits)
    then have "length (strncpy_into (history s ! nat ?i) (chars (input_buf s)) (SHELL_BUF_LEN - 1)) = SHELL_BUF_LEN"
      using that(2) by (simp add: typed_def strncpy_into_length)
    then have "\<forall>b \<in> set (history s'). length b = SHELL_BUF_LEN"
      using that(2) ball_update[of "history s" "\<lambda>b. length b = SHELL_BUF_LEN"] unfolding i(2) typed_def by simp
    with i(2) that(2) show ?thesis by (simp add: typed_def typed_kern_def row_ok_def)
  qed
  then show ?thesis by (simp add: kept_def)
qed

lemma newline_typed:
  "kept (\<lambda>s s'. typed s \<longrightarrow> typed s') s (case execute_line env l s of None \<Rightarrow> Inl NoReturn
    | Some r \<Rightarrow> rbind r (\<lambda>s. shell_prompt env (s\<lparr>sh_cursor := 0, hist_idx := - 1\<rparr>)))"
proof (cases "execute_line env l s")
  case (Some r)
  have "kept (\<lambda>s s'. typed s \<longrightarrow> typed s') t (shell_prompt env (t\<lparr>sh_cursor := 0, hist_idx := - 1\<rparr>))" for t
    by (rule types.kept_after[OF _ keeps_typed[OF shell_prompt_keeps]])
      (simp add: typed_def typed_kern_def row_ok_def SHELL_BUF_LEN_def)
  with Some show ?thesis by (simp add: types.kept_then[OF keeps_typed[OF execute_line_keeps[OF Some]]])
qed simp

lemma typed_cursor: "typed s \<Longrightarrow> 0 \<le> i \<Longrightarrow> i < 256 \<Longrightarrow> typed (s\<lparr>sh_cursor := i\<rparr>)"
  by (simp add: typed_def typed_kern_def row_ok_def SHELL_BUF_LEN_def)

lemma typed_cursor_bound: "typed s \<Longrightarrow> 0 \<le> sh_cursor s \<and> sh_cursor s < 256"
  by (simp add: typed_def SHELL_BUF_LEN_def)

lemma printable_typed:
  assumes c: "c \<noteq> 0x0A" "c \<noteq> 0x08"
  shows "kept (\<lambda>s s'. typed s \<longrightarrow> typed s') s (shell_on_key env c s)"
proof (cases "sint c \<ge> 0x20 \<and> sh_cursor s < int SHELL_BUF_LEN - 1")
  case True
  have p: "kept (\<lambda>s s'. typed s \<longrightarrow> typed s') s (put_char (sh_cursor s) c s)" by (rule put_char_typed)
  have "kept (\<lambda>s s'. typed s \<longrightarrow> typed s') t (put_char (sh_cursor t + 1) 0 (t\<lparr>sh_cursor := sh_cursor t + 1\<rparr>))" for t
  proof (cases "sh_cursor t + 1 < 256")
    case True
    then show ?thesis
      using typed_cursor_bound by (intro types.kept_after[OF _ put_char_typed]) (fastforce intro!: typed_cursor)
  qed (simp add: put_char_def SHELL_BUF_LEN_def)
  then show ?thesis
    unfolding shell_on_key_def if_not_P[OF c(1)] if_not_P[OF c(2)] if_P[OF True] Let_def
    by (intro types.kept_then[OF p] types.kept_then[OF _ keeps_typed[OF shell_print_keeps]]) simp
next
  case False
  show ?thesis
    unfolding shell_on_key_def if_not_P[OF c(1)] if_not_P[OF c(2)] if_not_P[OF False] by simp
qed

lemma on_key_typed: "kept (\<lambda>s s'. typed s \<longrightarrow> typed s') s (shell_on_key env c s)"
proof -
  have "kept (\<lambda>s s'. typed s \<longrightarrow> typed s') s (shell_on_key env 0x0A s)"
    unfolding shell_on_key_def if_P[OF refl]
    by (intro types.kept_then[OF put_char_typed] types.kept_then[OF keeps_typed[OF shell_println_keeps]]
        types.kept_then[OF remember_typed] newline_typed)
  moreover have "kept (\<lambda>s s'. typed s \<longrightarrow> typed s') s (shell_on_key env 0x08 s)"
  proof (cases "sh_cursor s > 0")
    case True
    have "kept (\<lambda>s s'. typed s \<longrightarrow> typed s') s (put_char (sh_cursor s - 1) 0 (s\<lparr>sh_cursor := sh_cursor s - 1\<rparr>))"
      using True typed_cursor_bound by (intro types.kept_after[OF _ put_char_typed]) (fastforce intro!: typed_cursor)
    with True show ?thesis
      by (auto simp: shell_on_key_def Let_def intro!: types.kept_then)
  qed (simp add: shell_on_key_def)
  ultimately show ?thesis by (cases "c = 0x0A \<or> c = 0x08") (auto intro: printable_typed)
qed

section \<open>The boot\<close>

abbreviation (input) mkeeps :: "'f machine \<Rightarrow> 'f machine result \<Rightarrow> bool" where
  "mkeeps \<equiv> kept (\<lambda>m m'. typed (sh m) \<longrightarrow> typed (sh m'))"

interpretation boots: framed "\<lambda>m m'. typed (sh m) \<longrightarrow> typed (sh m')"
  by unfold_locales auto

lemma machine_fields [simp]: "sh (set_shell s m) = s" "typed (sh (set_vm v m)) = typed (sh m)"
  by (simp_all add: set_shell_def set_vm_def)

lemma say_after: "(typed (sh m) \<Longrightarrow> typed (sh m1)) \<Longrightarrow> mkeeps m (say env str m1)"
  by (auto simp: say_def kept_def split: option.splits)

lemma typed_handlers_set: "typed s \<Longrightarrow> typed (irq_register irq h s)"
  by (simp add: irq_register_def typed_def typed_kern_def row_ok_def)

lemma typed_inits:
  assumes "typed s"
  shows "typed (s\<lparr>idt := g, irq_handlers := replicate 16 0, idt_ptr := p, reg_idtr := q\<rparr>)"
    "typed (s\<lparr>tledger := ledger_init (tledger s)\<rparr>)" "typed (s\<lparr>tsched := process_init (tsched s)\<rparr>)"
    "typed (s\<lparr>tsched := scheduler_init (tsched s)\<rparr>)"
  using assms typed_genesis[of "tledger s"]
  by (simp_all add: typed_def typed_kern_def row_ok_def typed_sched_def process_init_def scheduler_init_def typed_zero)

definition inits_typed :: "'f boot_env \<Rightarrow> bool" where
  "inits_typed env \<longleftrightarrow>
     (\<forall>f \<in> {be_explicit_init env, be_nlp_init env, be_neural_init env}. \<forall>s t. f s = Inr t \<longrightarrow> typed s \<longrightarrow> typed t)"

lemma memory_stages_typed:
  assumes "st \<in> set (take 10 (stages env magic addr))"
  shows "mkeeps m (st m)"
proof -
  have "mkeeps m (stage_serial env m)" by (simp add: stage_serial_def say_after)
  moreover have "mkeeps m (stage_magic env magic m)"
    by (auto simp: stage_magic_def intro!: kept_value) (simp add: kernel_panic_def)
  moreover have "mkeeps m (stage_multiboot env addr m)"
    by (auto simp: stage_multiboot_def intro!: kept_value say_after split: option.splits)
  moreover have "mkeeps m (stage_gdt env m)"
    by (auto simp: stage_gdt_def intro!: kept_value say_after)
  moreover have "mkeeps m (stage_idt env m)"
    unfolding stage_idt_def Let_def
    by (rule idt_install_effect[of "be_isr env" "be_irq env" "be_isr128 env" "be_idt_addr env" "sh m"])
      (auto intro!: say_after typed_inits)
  moreover have "mkeeps m (stage_pmm env m)" "mkeeps m (stage_vmm env m)" "mkeeps m (stage_heap env m)"
    by (auto simp: stage_pmm_def stage_vmm_def stage_heap_def set_heap_def Let_def intro!: kept_value say_after)
  moreover have "mkeeps m (stage_arena env m)"
    by (auto simp: stage_arena_def Let_def case_prod_beta set_vm_def intro!: say_after)
  moreover have "mkeeps m (stage_lfb env m)"
  proof -
    have "mkeeps m' (Inr (set_shell (boot_banner env (sh m')) m'))" for m' by (simp add: boot_banner_def)
    then show ?thesis
      by (auto simp: stage_lfb_def Let_def intro!: say_after boots.kept_then[OF say_after])
  qed
  ultimately show ?thesis using assms by (auto simp: stages_def)
qed

lemma stages_typed:
  assumes "inits_typed env" "st \<in> set (stages env magic addr)"
  shows "mkeeps m (st m)"
proof -
  have "mkeeps m (stage_timer env m)"
    by (auto simp: stage_timer_def timer_init_def Let_def rbind_Inr_iff intro!: kept_value say_after typed_handlers_set)
  moreover have "mkeeps m (stage_input env m)"
    by (auto simp: stage_input_def mouse_install_def keyboard_install_def Let_def case_prod_beta intro!: say_after typed_handlers_set)
  moreover have "mkeeps m (stage_vfs env m)" "mkeeps m (stage_live env m)"
    by (auto simp: stage_vfs_def stage_live_def intro!: say_after)
  moreover have "mkeeps m (stage_ledger env m)"
    by (auto simp: stage_ledger_def intro!: say_after typed_inits)
  moreover have "mkeeps m (stage_process env m)" "mkeeps m (stage_scheduler env m)"
    by (auto simp: stage_process_def stage_scheduler_def syscall_init_def intro!: say_after typed_inits)
  moreover have "mkeeps m (stage_ai env m)"
    using assms(1) by (auto simp: stage_ai_def ai_core_init_def inits_typed_def rbind_Inr_iff intro!: kept_value say_after split: if_splits)
  moreover have "st \<in> set (take 10 (stages env magic addr)) \<or> st \<in> {stage_timer env, stage_input env, stage_vfs env, stage_ledger env,
      stage_process env, stage_ai env, stage_scheduler env, stage_live env}"
    using assms(2) by (auto simp: stages_def)
  ultimately show ?thesis by (auto intro: memory_stages_typed)
qed

lemma each_typed: "(\<And>st m. st \<in> set sts \<Longrightarrow> mkeeps m (st m)) \<Longrightarrow> mkeeps m (each (\<lambda>stage. stage) sts m)"
  by (induction sts arbitrary: m) (simp_all add: boots.kept_then)

lemma kmain_init_typed: "inits_typed env \<Longrightarrow> mkeeps m (kmain_init env magic addr m)"
  unfolding kmain_init_def by (intro each_typed stages_typed)

lemma shell_init_typed: "typed s \<Longrightarrow> typed (shell_init s)"
  by (simp add: shell_init_def typed_def typed_kern_def row_ok_def SHELL_BUF_LEN_def)

section \<open>The running kernel\<close>

text \<open>What moves the kernel once it is up: a tick of the clock, a key given to the shell, a system call, and an
  operation on processes. A system call works on the part of the state below the shell.\<close>

inductive kernel_step :: "'f shell_env \<Rightarrow> sys_env \<Rightarrow> 'f shell \<Rightarrow> 'f shell \<Rightarrow> bool" for env senv where
  tick: "timer_irq_handler s = Inr s' \<Longrightarrow> kernel_step env senv s s'"
| key: "shell_on_key env c s = Inr s' \<Longrightarrow> kernel_step env senv s s'"
| call: "syscall_dispatch senv regs (kern.truncate s) = Inr (v, regs', k) \<Longrightarrow> kernel_step env senv s (kern.extend k (kern.more s))"
| op: "sched_op (tsched s) sch \<Longrightarrow> kernel_step env senv s (s\<lparr>tsched := sch\<rparr>)"

inductive_simps kernel_step_iff: "kernel_step env senv s s'"

lemma typed_extend: "typed s \<Longrightarrow> typed_kern k \<Longrightarrow> typed (kern.extend k (kern.more s))"
  by (cases s) (simp add: typed_def typed_kern_def row_ok_def kern.defs)

lemma timer_shell:
  assumes "timer_irq_handler s = Inr s'"
  shows "\<exists>n sch l. s' = s\<lparr>system_ticks := n, tsched := sch, tledger := l\<rparr>"
proof -
  from assms obtain sch where "s' = s\<lparr>system_ticks := system_ticks s + 1, tsched := sch\<rparr>
      \<or> (\<exists>l. s' = s\<lparr>system_ticks := system_ticks s + 1, tsched := sch, tledger := l\<rparr>)"
    by (auto simp: timer_irq_handler_def Let_def rbind_Inr_iff split: if_splits option.splits)
  then show ?thesis
  proof
    assume "s' = s\<lparr>system_ticks := system_ticks s + 1, tsched := sch\<rparr>"
    then have "s' = s\<lparr>system_ticks := system_ticks s + 1, tsched := sch, tledger := tledger s\<rparr>" by simp
    then show ?thesis by blast
  qed blast
qed

lemma step_typed: "kernel_step env senv s s' \<Longrightarrow> env_typed senv \<Longrightarrow> typed s \<Longrightarrow> typed s'"
proof (induction rule: kernel_step.induct)
  case (tick s s')
  moreover have "typed_kern s'" using tick by (auto simp: typed_def intro: typed_timer)
  moreover from timer_shell[OF tick(1)] have "row_ok s' = row_ok s" "input_buf s' = input_buf s" "sh_cursor s' = sh_cursor s"
    "history s' = history s" by (auto simp: row_ok_def)
  ultimately show ?case by (simp add: typed_def)
next
  case (key c s s')
  then show ?case using on_key_typed[of s env c] by (simp add: kept_def)
next
  case (call regs s v regs' k)
  then have "typed_kern (kern.truncate s)" by (simp add: typed_def typed_kern_def kern.defs)
  from typed_dispatch[OF call(2) this call(1)] have "typed_kern k" .
  with call(3) show ?case by (rule typed_extend)
next
  case (op s sch)
  then show ?case by (simp add: typed_def typed_kern_def row_ok_def typed_sched_op)
qed

lemma steps_typed: "(kernel_step env senv)\<^sup>*\<^sup>* s s' \<Longrightarrow> env_typed senv \<Longrightarrow> typed s \<Longrightarrow> typed s'"
  by (induction rule: rtranclp_induct) (auto intro: step_typed)


lemma sample_typed: "typed (sh sample_machine)" "inits_typed sample_boot_env" "env_typed sample_env"
proof -
  have "typed_ledger blank_ledger" by (simp add: typed_ledger_def blank_ledger_def typed_zero_block shapes init_ok)
  then have "typed_ledger (ledger_init blank_ledger)" by (rule typed_genesis)
  moreover have "\<forall>q \<in> set ((replicate 16 None)[8 := Some 0]). slot_ok q" by (rule ball_update) (simp_all add: shapes)
  ultimately show "typed (sh sample_machine)"
    by (simp add: typed_def typed_kern_def typed_sched_def sample_machine_def sample_shell_def row_ok_def process_init_def
        typed_zero sample_sched_def procs.defs shapes)
  show "inits_typed sample_boot_env" by (simp add: inits_typed_def sample_boot_env_def)
  show "env_typed sample_env" by (auto simp: env_typed_def sample_env_def intro: typed_tick typed_timer)
qed


end
