(* ===== verification/Spec2Isabelle.thy ===== *)
theory Spec2Isabelle
  imports Math_Prim String_Buffers Lexer Compositor Kernel_Types
begin

text \<open>
  Verification of Luna OS, a 32-bit x86 kernel with a command shell.

  \<^bold>\<open>The program.\<close> The boot code enters \<^verbatim>\<open>kmain\<close> (\<^verbatim>\<open>kernel/main.c\<close>), which reads the boot loader's tags, installs the
  segment and interrupt tables, and starts, in order, the frame allocator, the address space, the slab heap, the
  arenas, the framebuffer, the timer, the input drivers, the file system, the ledger, the processes, the query
  dispatcher, the scheduler and the shell. Afterwards everything is driven by interrupts: the timer interrupt
  counts, runs the scheduler and flushes the ledger queue; keys go to the shell; ring 3 code enters by system
  calls, which reach processes, files, surfaces, the timer, the dispatcher and the ledger. The heap takes frames
  and maps pages; processes take frames and address spaces; surfaces take runs of frames and are painted by the
  compositor; the file system pushes events into the queue that the ledger drains.

  \<^bold>\<open>Conventions.\<close> \<^verbatim>\<open>Luna_Prelude\<close> holds the integer types of \<^verbatim>\<open>include/types.h\<close> as machine words (sums wrap as in
  C), the flat memory of bytes, the faults that keep a call from returning (\<open>fault\<close>: a panic, a null pointer, an
  access out of bounds, a division by zero, a signed overflow, a missing variable argument, no return) and the
  result type \<open>fault + 'a\<close>. Statics of a file are the fields of a record, a C function is a definition of the same
  name that takes and returns the record. Loops with a bound are functions with a measure; loops that may not
  end are partial functions whose result \<open>None\<close> means that they never return, so no fuel is used anywhere.
  Strings are memory in \<^verbatim>\<open>C_String\<close> and byte lists elsewhere: the lemmas of \<^verbatim>\<open>C_String\<close> show what the library
  functions compute on terminated strings, and \<^verbatim>\<open>String_Buffers\<close> that the bounded copy into memory is the update of a
  byte list, and concatenation is concatenation. Code that is called and not in the repository is a parameter.

  \<^bold>\<open>Theories, sources and results.\<close>

  \<^item> \<^verbatim>\<open>Math_Prim\<close> (\<^verbatim>\<open>include/math_prim.h\<close>): the bit and alignment helpers with their arithmetic meaning.

  \<^item> \<^verbatim>\<open>Mem_Ops\<close>, \<^verbatim>\<open>C_String\<close>, \<^verbatim>\<open>String_Buffers\<close>, \<^verbatim>\<open>Printf\<close> (\<^verbatim>\<open>kernel/string.c\<close>): memory functions against a fill and a copy of ranges,
  overlap included; string functions on terminated strings, search against the first occurrence, tokens;
  number parsing and the formatter, which stays inside its buffer. \<^verbatim>\<open>Mem_Words\<close> has the word accesses.

  \<^item> \<^verbatim>\<open>Hash\<close> (\<^verbatim>\<open>kernel/hash.c\<close>): FNV-1a, CRC-32 and SHA-256; the streaming SHA-256 equals the padded reference.

  \<^item> \<^verbatim>\<open>Pmm\<close> (\<^verbatim>\<open>kernel/pmm.c\<close>): the bitmap, next-fit and contiguous allocation. The locales \<open>frame_allocator\<close> and
  \<open>run_allocator\<close> state the contract, interpreted as \<open>pm\<close> and \<open>pm_run\<close>; heap, address space and surfaces use them.

  \<^item> \<^verbatim>\<open>Vmm\<close> (\<^verbatim>\<open>kernel/vmm.c\<close>): two-level page tables in memory as a partial map of pages, by the locale
  \<open>address_space\<close>; isolation of user directories.

  \<^item> \<^verbatim>\<open>Heap\<close> (\<^verbatim>\<open>kernel/heap.c\<close>): free lists chained through memory; blocks handed out do not overlap. \<^verbatim>\<open>Arena\<close>
  (\<^verbatim>\<open>kernel/arena.c\<close>): bump allocation, checkpoints.

  \<^item> \<^verbatim>\<open>Ledger_Queue\<close>, \<^verbatim>\<open>Ledger\<close>, \<^verbatim>\<open>Vfs\<close> (\<^verbatim>\<open>kernel/ledger_queue.c\<close>, \<^verbatim>\<open>kernel/ledger.c\<close>, \<^verbatim>\<open>kernel/vfs.c\<close>): the ring as a bounded
  queue (locale \<open>bounded_queue\<close>), also between an interrupted producer and consumer; the hash chain verifies and
  shows tampering, up to a collision; file accesses are logged.

  \<^item> \<^verbatim>\<open>Gdt\<close>, \<^verbatim>\<open>Port_Io\<close>, \<^verbatim>\<open>Idt\<close>, \<^verbatim>\<open>Input\<close> (\<^verbatim>\<open>arch/x86\<close>, \<^verbatim>\<open>drivers/input\<close>, \<^verbatim>\<open>drivers/serial\<close>): descriptors, gates, the frame the
  interrupt stubs build; devices are functions of the trace of port accesses.

  \<^item> \<^verbatim>\<open>Process\<close>, \<^verbatim>\<open>Scheduler\<close>, \<^verbatim>\<open>Timer\<close> (\<^verbatim>\<open>kernel/process.c\<close>, \<^verbatim>\<open>kernel/scheduler.c\<close>, \<^verbatim>\<open>arch/x86/timer.c\<close>): the process table,
  the run queues as rings through it that refine lists, round robin (locale \<open>round_robin\<close>), the tick over
  scheduler and ledger, and sleeping (locale \<open>ticking\<close>).

  \<^item> \<^verbatim>\<open>Surface\<close>, \<^verbatim>\<open>Framebuffer\<close>, \<^verbatim>\<open>Compositor\<close> (\<^verbatim>\<open>ipc\<close>, \<^verbatim>\<open>drivers/gfx\<close>, \<^verbatim>\<open>compositor\<close>): surfaces do not share
  frames; drawing by the locale \<open>canvas\<close>; the topmost window shows.

  \<^item> \<^verbatim>\<open>Lexer\<close> (\<^verbatim>\<open>user/lexer\<close>): tokens, the parser loop and the intents of commands.

  \<^item> \<^verbatim>\<open>Ai\<close>, \<^verbatim>\<open>Syscall\<close> (\<^verbatim>\<open>kernel/ai\<close>, \<^verbatim>\<open>kernel/syscall.c\<close>): the fusion of two answers; all system calls keep the kernel
  sound, and none reaches its handler through the gate as it is.

  \<^item> \<^verbatim>\<open>Shell\<close>, \<^verbatim>\<open>Shell_Lines\<close> (\<^verbatim>\<open>user/shell/shell.c\<close>): the commands within a frame (locale \<open>framed\<close>, interpreted as
  \<open>cmds\<close> and \<open>kernel\<close>), the editor and its history as lists, the tokenizer, the execution of lines.

  \<^item> \<^verbatim>\<open>Boot\<close>, \<^verbatim>\<open>Kmain\<close> (\<^verbatim>\<open>kernel/multiboot2.h\<close>, \<^verbatim>\<open>kernel/main.c\<close>, \<^verbatim>\<open>arch/x86/paging.c\<close>): the tags of the boot loader and the
  sequence of \<^verbatim>\<open>kmain\<close>, which establishes the invariants of the parts together.

  \<^item> \<^verbatim>\<open>Kernel_Types\<close>: the sizes of all arrays of the kernel's state and the ranges of the indices stored in it
  (\<open>typed\<close>), kept by the boot stages, ticks, keys, system calls and process operations, as a step relation; the
  locale \<open>framed\<close> is interpreted as \<open>types\<close> for the shell and \<open>boots\<close> for the boot stages.

  \<^item> This theory: the booted system as a step relation of timer interrupts and keys, and what holds in every
  state it reaches; the locale \<open>ticking\<close> is interpreted once more for a kernel without processes.

  \<^bold>\<open>Bounds.\<close> The heap is considered for frames below 256 MiB, where the window of page tables lies below the heap
  region. The ledger theorems hold for the 4096 blocks the array has; what happens beyond is a theorem of its
  own. Theorems named after a defect state what the code does where it does not do what it is meant to do.

  \<^bold>\<open>Not modelled.\<close> \<^verbatim>\<open>arch/x86/boot.asm\<close>, \<^verbatim>\<open>linker.ld\<close> and the build files run before or outside the kernel's C code; \<^verbatim>\<open>tools\<close>
  holds placeholders. \<^verbatim>\<open>kernel/io.c\<close> repeats the port output of \<^verbatim>\<open>Port_Io\<close>. Functions with an empty body (the window
  manager, the input bridge of the widget library, some initialisations) are the identity. Memory accesses in
  the kernel are not translated through the page tables: the C code runs as if the window were mapped, although \<^verbatim>\<open>vmm_init\<close> drops that mapping (\<open>vmm_init_maps_nothing\<close>
  in \<^verbatim>\<open>Vmm\<close>). Context switches are recorded, not executed, because their assembly routine is missing. Caches,
  timing and other processors are outside the model.
\<close>

section \<open>The system after the boot\<close>

text \<open>Timer interrupts and keys, in any order.\<close>

inductive system_step :: "'f shell_env \<Rightarrow> 'f shell \<Rightarrow> 'f shell \<Rightarrow> bool" for env where
  tick: "timer_irq_handler s = Inr s' \<Longrightarrow> system_step env s s'"
| key: "shell_on_key env c s = Inr s' \<Longrightarrow> system_step env s s'"

inductive_cases system_stepE [elim]: "system_step env s s'"

text \<open>No process is current, and the ledger has room for what is queued.\<close>

definition idle_ok :: "'a clock_scheme \<Rightarrow> bool" where
  "idle_ok s \<longleftrightarrow> current_process (tsched s) = None \<and> ledger_room (tledger s)"

lemma idle_tick:
  assumes "idle_ok s"
  shows "\<exists>l. ledger_room l \<and> timer_irq_handler s = Inr (s\<lparr>system_ticks := system_ticks s + 1, tledger := l\<rparr>)"
proof -
  obtain l where "ledger_flush_task (tledger s) = Some l" "ledger_room l"
    using ledger_room_flush assms by (auto simp: idle_ok_def)
  moreover have "scheduler_tick (tsched s) = Inr (tsched s)" using assms by (simp add: scheduler_tick_def idle_ok_def)
  ultimately show ?thesis
    using assms by (cases "(system_ticks s + 1) mod 10 = 0")
      (auto simp: timer_irq_handler_def idle_ok_def Let_def intro: exI[of _ "tledger s"])
qed

interpretation idle: ticking idle_ok timer_irq_handler
proof unfold_locales
  fix s :: "'a clock_scheme"
  assume i: "idle_ok s"
  then obtain l where "ledger_room l" "timer_irq_handler s = Inr (s\<lparr>system_ticks := system_ticks s + 1, tledger := l\<rparr>)"
    using idle_tick by blast
  with i show "\<exists>s'. timer_irq_handler s = Inr s' \<and> idle_ok s' \<and> system_ticks s' = system_ticks s + 1"
    by (simp add: idle_ok_def)
qed

definition live :: "'f shell \<Rightarrow> bool" where
  "live s \<longleftrightarrow> idle_ok s \<and> (\<exists>a. editor_rel s a)"

lemma live_step:
  assumes "system_step env s s'" "transmitter_drains (se_dev env)" "live s"
  shows "live s'"
  using assms(1)
proof cases
  case tick
  obtain l where l: "ledger_room l" "timer_irq_handler s = Inr (s\<lparr>system_ticks := system_ticks s + 1, tledger := l\<rparr>)"
    using idle_tick assms(3) by (auto simp: live_def)
  obtain a where "editor_rel s a" using assms(3) by (auto simp: live_def)
  then have "editor_rel s' a" using tick l(2) by (auto simp: editor_rel_def row_ok_def)
  moreover have "idle_ok s'" using l tick assms(3) by (auto simp: live_def idle_ok_def)
  ultimately show ?thesis unfolding live_def by blast
next
  case (key c)
  obtain a where "editor_rel s a" using assms(3) by (auto simp: live_def)
  with key_refines[OF this assms(2), of c] key have "editor_rel s' (edit c a)" by simp
  then have "\<exists>a. editor_rel s' a" ..
  moreover have "kernel_keeps s s'" using shell_on_key_kernel[of s env c] key by simp
  ultimately show ?thesis using assms(3) by (simp add: live_def idle_ok_def kernel_keeps_def)
qed

lemma live_steps: "(system_step env)\<^sup>*\<^sup>* s s' \<Longrightarrow> transmitter_drains (se_dev env) \<Longrightarrow> live s \<Longrightarrow> live s'"
  by (induction rule: rtranclp_induct) (auto intro: live_step)

lemma booted_live:
  assumes "boot_ready env addr ps m" "kmain_init env MULTIBOOT2_MAGIC addr m = Inr m'"
    "length (history (sh m)) = 8" "\<forall>b \<in> set (history (sh m)). length b = 256 \<and> last b = 0" "row_ok (sh m)"
  shows "live (shell_init (sh m'))"
proof -
  have b: "chain_inv (tledger (sh m'))" "ledger_get_count (tledger (sh m')) = 1" "contents (lq (tledger (sh m'))) = []"
    "current_process (tsched (sh m')) = None" "history (sh m') = history (sh m)" "shell_row (sh m') = shell_row (sh m)"
    using kmain_init_ok[OF assms(1)] assms(2) by simp_all
  have "editor_rel (shell_init (sh m')) ([], [])"
    using b(5,6) assms(3-5) by (simp add: editor_rel_def shell_init_def SHELL_BUF_LEN_def ring_holds_def row_ok_def)
  moreover have "idle_ok (shell_init (sh m'))"
    using b(1-4) by (simp add: idle_ok_def shell_init_def ledger_room_def ledger_get_count_def)
  ultimately show ?thesis unfolding live_def by blast
qed

section \<open>Properties\<close>



end
